(* ===== verification/Prelude.thy ===== *)
theory Prelude
  imports
    Main
    "HOL-Library.Word"
    "HOL-Library.AList"
    "HOL-Library.Char_ord"
    "HOL-Library.List_Lexorder"
    "HOL-Library.Multiset"
begin

text \<open>
  Shared ground of the development: the integer types of the Go source, Go maps as
  association lists, panics as values, and the generic list lemmas the component theories
  rely on.

  A Go map that the source ranges over is an association list with distinct keys. The list
  order stands for the iteration order of one \<^verbatim>\<open>range\<close> loop, which Go leaves unspecified;
  a statement about every such list therefore covers every iteration order. A Go map that is
  only indexed is a HOL map \<open>'k \<rightharpoonup> 'v\<close>. Strings are byte lists (\<^typ>\<open>string\<close>), ordered
  lexicographically by byte value as Go orders them.
\<close>

named_theorems gomap_simps \<open>lookup, update and delete on Go maps\<close>

type_synonym u8 = "8 word"
type_synonym u32 = "32 word"
type_synonym u64 = "64 word"
type_synonym bytes = "8 word list"
type_synonym ('k, 'v) gomap = "('k \<times> 'v) list"

text \<open>A run-time panic of the Go source, as a value.\<close>

datatype panic =
    IndexOutOfRange
  | DivideByZero
  | NilDereference
  | ExplicitPanic string

subsection \<open>Go maps as association lists\<close>

abbreviation gomap_ok :: "('k, 'v) gomap \<Rightarrow> bool" where
  "gomap_ok m \<equiv> distinct (map fst m)"

text \<open>Indexing a Go map yields the zero value of the element type for an absent key.\<close>

definition gm_get :: "'v \<Rightarrow> ('k, 'v) gomap \<Rightarrow> 'k \<Rightarrow> 'v" where
  "gm_get z m k = (case map_of m k of None \<Rightarrow> z | Some v \<Rightarrow> v)"

definition gm_put :: "'k \<Rightarrow> 'v \<Rightarrow> ('k, 'v) gomap \<Rightarrow> ('k, 'v) gomap" where
  "gm_put k v m = AList.update k v m"

definition gm_del :: "'k \<Rightarrow> ('k, 'v) gomap \<Rightarrow> ('k, 'v) gomap" where
  "gm_del k m = AList.delete k m"

lemma map_of_gm_put [gomap_simps, simp]: "map_of (gm_put k v m) = (map_of m)(k \<mapsto> v)"
  by (simp add: gm_put_def update_conv')

lemma map_of_gm_del [gomap_simps, simp]: "map_of (gm_del k m) = (map_of m)(k := None)"
  by (simp add: gm_del_def delete_conv')

lemma gomap_ok_put [simp]: "gomap_ok m \<Longrightarrow> gomap_ok (gm_put k v m)"
  by (simp add: gm_put_def distinct_update)

lemma gomap_ok_del [simp]: "gomap_ok m \<Longrightarrow> gomap_ok (gm_del k m)"
  by (simp add: gm_del_def distinct_delete)

lemma gm_get_put [gomap_simps, simp]:
  "gm_get z (gm_put k v m) k' = (if k' = k then v else gm_get z m k')"
  by (simp add: gm_get_def)

lemma gm_get_absent: "k \<notin> fst ` set m \<Longrightarrow> gm_get z m k = z"
  by (simp add: gm_get_def map_of_eq_None_iff[THEN iffD2])

lemma keys_gm_put [gomap_simps, simp]: "fst ` set (gm_put k v m) = insert k (fst ` set m)"
  by (simp add: gm_put_def update_conv' flip: dom_map_of_conv_image_fst)

lemma set_gm_put: "set (gm_put k v m) \<subseteq> insert (k, v) (set m)"
  unfolding gm_put_def by (induction m) auto

lemma gm_get_Nil [simp]: "gm_get z [] k = z"
  by (simp add: gm_get_def)

lemma gm_get_in_set: "gomap_ok m \<Longrightarrow> (k, v) \<in> set m \<Longrightarrow> gm_get z m k = v"
  by (simp add: gm_get_def)

text \<open>Collecting keys into a Go set \<^verbatim>\<open>map[T]struct{}\<close>: one assignment per key.\<close>

definition gs_add :: "'a \<Rightarrow> 'a list \<Rightarrow> 'a list" where
  "gs_add x xs = (if x \<in> set xs then xs else xs @ [x])"

lemma set_gs_add [simp]: "set (gs_add x xs) = insert x (set xs)"
  by (auto simp: gs_add_def)

lemma distinct_gs_add [simp]: "distinct xs \<Longrightarrow> distinct (gs_add x xs)"
  by (simp add: gs_add_def)

lemma set_fold_gs_add [simp]: "set (fold gs_add ys xs) = set xs \<union> set ys"
  by (induction ys arbitrary: xs) auto

lemma distinct_fold_gs_add [simp]: "distinct xs \<Longrightarrow> distinct (fold gs_add ys xs)"
  by (induction ys arbitrary: xs) auto

subsection \<open>Sorting with a Go comparison\<close>

text \<open>
  \<^verbatim>\<open>sort.Slice\<close>, \<^verbatim>\<open>sort.Strings\<close> and \<^verbatim>\<open>slices.Sort\<close> as insertion sort with the \<open>lt\<close>
  function the caller passes. Where \<open>lt\<close> compares a linearly ordered key it is the
  library's \<^const>\<open>sort_key\<close>.
\<close>

fun go_insert :: "('a \<Rightarrow> 'a \<Rightarrow> bool) \<Rightarrow> 'a \<Rightarrow> 'a list \<Rightarrow> 'a list" where
  "go_insert lt x [] = [x]"
| "go_insert lt x (y # ys) = (if lt y x then y # go_insert lt x ys else x # y # ys)"

definition go_sort :: "('a \<Rightarrow> 'a \<Rightarrow> bool) \<Rightarrow> 'a list \<Rightarrow> 'a list" where
  "go_sort lt xs = foldr (go_insert lt) xs []"

lemma hd_sort: "xs \<noteq> [] \<Longrightarrow> hd (sort xs) = Min (set xs)"
proof -
  assume "xs \<noteq> []"
  then obtain y ys where y: "sort xs = y # ys" by (metis length_0_conv length_sort neq_Nil_conv)
  then have "\<forall>z \<in> set ys. y \<le> z" using sorted_sort[of xs] by simp
  moreover have "set xs = insert y (set ys)" using set_sort[of "\<lambda>x. x" xs] y by simp
  ultimately show ?thesis using y by (simp add: Min_insert2)
qed

lemma go_insert_key: "go_insert (\<lambda>a b. f a < (f b :: 'b::linorder)) x ys = insort_key f x ys"
  by (induction ys) (auto simp: not_less)

lemma go_sort_key: "go_sort (\<lambda>a b. f a < (f b :: 'b::linorder)) xs = sort_key f xs"
  by (simp add: go_sort_def sort_key_def go_insert_key[abs_def])

lemma go_sort_linorder: "go_sort ((<) :: 'a::linorder \<Rightarrow> _) xs = sort xs"
  using go_sort_key[of "\<lambda>x. x" xs] by simp

subsection \<open>Exchange sort\<close>

text \<open>
  Two nested index loops that exchange \<open>xs[i]\<close> and \<open>xs[j]\<close>, for \<open>i < j\<close>, whenever the
  element at \<open>j\<close> goes before the one at \<open>i\<close>.
\<close>

definition swap :: "nat \<Rightarrow> nat \<Rightarrow> 'a list \<Rightarrow> 'a list" where
  "swap i j xs = xs[i := xs ! j, j := xs ! i]"

definition exchange_inner :: "('a \<Rightarrow> 'a \<Rightarrow> bool) \<Rightarrow> nat \<Rightarrow> nat list \<Rightarrow> 'a list \<Rightarrow> 'a list" where
  "exchange_inner lt i js xs = fold (\<lambda>j xs. if lt (xs ! j) (xs ! i) then swap i j xs else xs) js xs"

definition exchange_sort :: "('a \<Rightarrow> 'a \<Rightarrow> bool) \<Rightarrow> 'a list \<Rightarrow> 'a list" where
  "exchange_sort lt xs =
     fold (\<lambda>i ys. exchange_inner lt i [Suc i..<length xs] ys) [0..<length xs] xs"

lemma length_swap [simp]: "length (swap i j xs) = length xs"
  by (simp add: swap_def)

lemma mset_swap_idx [simp]: "i < length xs \<Longrightarrow> j < length xs \<Longrightarrow> mset (swap i j xs) = mset xs"
  by (simp add: swap_def mset_swap)

lemma nth_swap:
  "i < length xs \<Longrightarrow> j < length xs \<Longrightarrow> m < length xs \<Longrightarrow>
   swap i j xs ! m = (if m = j then xs ! i else if m = i then xs ! j else xs ! m)"
  by (simp add: swap_def nth_list_update)

lemma exchange_inner_snoc:
  "exchange_inner lt i (js @ [k]) xs =
     (if lt (exchange_inner lt i js xs ! k) (exchange_inner lt i js xs ! i)
      then swap i k (exchange_inner lt i js xs) else exchange_inner lt i js xs)"
  by (simp add: exchange_inner_def)

lemma exchange_inner_mset:
  "i < length xs \<Longrightarrow> \<forall>j \<in> set js. j < length xs \<Longrightarrow>
   mset (exchange_inner lt i js xs) = mset xs \<and> length (exchange_inner lt i js xs) = length xs"
  by (induction js arbitrary: xs) (auto simp: exchange_inner_def)

lemma exchange_outer_mset:
  "n = length xs \<Longrightarrow> \<forall>i \<in> set is. i < n \<Longrightarrow>
   mset (fold (\<lambda>i ys. exchange_inner lt i [Suc i..<n] ys) is xs) = mset xs"
proof (induction "is" arbitrary: xs)
  case (Cons i "is")
  have "mset (exchange_inner lt i [Suc i..<n] xs) = mset xs"
    "length (exchange_inner lt i [Suc i..<n] xs) = n"
    using exchange_inner_mset[of i xs "[Suc i..<n]" lt] Cons.prems by auto
  then show ?case using Cons.IH[of "exchange_inner lt i [Suc i..<n] xs"] Cons.prems by simp
qed simp

lemma mset_exchange_sort [simp]: "mset (exchange_sort lt xs) = mset xs"
  unfolding exchange_sort_def by (rule exchange_outer_mset) auto

text \<open>Positions below \<open>i\<close> are final and position \<open>i\<close> is least among those up to \<open>k\<close>.\<close>

definition exchange_inv :: "('a \<Rightarrow> 'b::linorder) \<Rightarrow> nat \<Rightarrow> nat \<Rightarrow> 'a list \<Rightarrow> bool" where
  "exchange_inv f i k xs \<longleftrightarrow>
     (\<forall>a b. a < i \<longrightarrow> a < b \<longrightarrow> b < length xs \<longrightarrow> f (xs ! a) \<le> f (xs ! b)) \<and>
     (\<forall>m. i \<le> m \<longrightarrow> m < k \<longrightarrow> m < length xs \<longrightarrow> f (xs ! i) \<le> f (xs ! m))"

lemma exchange_inv_next: "exchange_inv f k (length xs) xs \<Longrightarrow> exchange_inv f (Suc k) (Suc k) xs"
  by (auto simp: exchange_inv_def less_Suc_eq)

lemma exchange_inv_step:
  assumes inv: "exchange_inv f i k xs" and "i < k" and "k < length xs"
    and lt: "lt (xs ! k) (xs ! i) \<longleftrightarrow> f (xs ! k) < f (xs ! i)"
  shows "exchange_inv f i (Suc k) (if lt (xs ! k) (xs ! i) then swap i k xs else xs)"
proof (cases "lt (xs ! k) (xs ! i)")
  case True
  then have lt': "f (xs ! k) < f (xs ! i)" using lt by simp
  have "f (swap i k xs ! a) \<le> f (swap i k xs ! b)" if "a < i" "a < b" "b < length xs" for a b
    using inv that assms(2,3) by (auto simp: nth_swap exchange_inv_def)
  moreover have "f (swap i k xs ! i) \<le> f (swap i k xs ! m)" if "i \<le> m" "m < Suc k" for m
  proof -
    have "f (xs ! k) \<le> f (xs ! m)" if "i \<le> m" "m < k"
      using inv that assms(3) lt' by (auto simp: exchange_inv_def intro: order.trans[OF less_imp_le[OF lt']])
    then show ?thesis using that assms(2,3) lt' by (auto simp: nth_swap less_Suc_eq)
  qed
  ultimately show ?thesis using True by (simp add: exchange_inv_def)
next
  case False
  then show ?thesis using inv lt by (auto simp: exchange_inv_def less_Suc_eq not_less)
qed

lemma exchange_inner_inv:
  assumes "exchange_inv f i (Suc i) xs" and "i < length xs" and "k \<le> length xs" and "Suc i \<le> k"
    and lt: "\<And>a b. a \<in> set xs \<Longrightarrow> b \<in> set xs \<Longrightarrow> lt b a \<longleftrightarrow> f b < f a"
  shows "exchange_inv f i k (exchange_inner lt i [Suc i..<k] xs)"
  using assms(3,4)
proof (induction k)
  case (Suc k)
  show ?case
  proof (cases "Suc i \<le> k")
    case True
    let ?ys = "exchange_inner lt i [Suc i..<k] xs"
    have ms: "mset ?ys = mset xs" "length ?ys = length xs"
      using exchange_inner_mset[of i xs "[Suc i..<k]" lt] Suc.prems assms(2) by auto
    have st: "set ?ys = set xs" using ms(1) by (rule mset_eq_setD)
    have "lt (?ys ! k) (?ys ! i) \<longleftrightarrow> f (?ys ! k) < f (?ys ! i)"
      using lt Suc.prems assms(2) ms(2) st by (metis Suc_le_lessD nth_mem)
    then show ?thesis
      using exchange_inv_step[OF Suc.IH, of lt] Suc.prems True ms(2)
      by (simp add: exchange_inner_snoc)
  qed (use assms Suc.prems in \<open>auto simp: exchange_inner_def le_Suc_eq\<close>)
qed simp

lemma sorted_exchange_sort:
  assumes lt: "\<And>a b. a \<in> set xs \<Longrightarrow> b \<in> set xs \<Longrightarrow> lt b a \<longleftrightarrow> f b < (f a :: 'b::linorder)"
  shows "sorted (map f (exchange_sort lt xs))"
proof -
  let ?n = "length xs"
  let ?st = "\<lambda>k. fold (\<lambda>i ys. exchange_inner lt i [Suc i..<?n] ys) [0..<k] xs"
  have "exchange_inv f k k (?st k) \<and> mset (?st k) = mset xs" if "k \<le> ?n" for k
    using that
  proof (induction k)
    case (Suc k)
    then have ih: "exchange_inv f k k (?st k)" and ms: "mset (?st k) = mset xs" by auto
    have len: "length (?st k) = ?n" and st: "set (?st k) = set xs"
      using mset_eq_length[OF ms] mset_eq_setD[OF ms] by auto
    have "exchange_inv f k ?n (exchange_inner lt k [Suc k..<?n] (?st k))"
      using exchange_inner_inv[of f k "?st k" ?n lt] ih len st lt Suc.prems
      by (auto simp: exchange_inv_def less_Suc_eq)
    moreover have "mset (exchange_inner lt k [Suc k..<?n] (?st k)) = mset xs"
      using exchange_inner_mset[of k "?st k" "[Suc k..<?n]" lt] len ms Suc.prems by auto
    moreover have "length (exchange_inner lt k [Suc k..<?n] (?st k)) = ?n"
      using calculation(2) by (rule mset_eq_length)
    ultimately show ?case
      using exchange_inv_next[of f k "exchange_inner lt k [Suc k..<?n] (?st k)"] by simp
  qed (simp add: exchange_inv_def)
  from this[of ?n] have "exchange_inv f ?n ?n (exchange_sort lt xs)" and
    "length (exchange_sort lt xs) = ?n"
    by (auto simp: exchange_sort_def dest: mset_eq_length)
  then show ?thesis by (auto simp: sorted_iff_nth_mono_less exchange_inv_def)
qed

subsection \<open>Generic facts\<close>

lemma fold_invariant:
  assumes "P s" and "\<And>x s. x \<in> set xs \<Longrightarrow> P s \<Longrightarrow> P (f x s)"
  shows "P (fold f xs s)"
  using assms by (induction xs arbitrary: s) auto

text \<open>A machine counter grows under increment unless it is at its last value.\<close>

lemma word_less_plus_one: "(x :: 'a::len word) \<noteq> - 1 \<Longrightarrow> x < x + 1"
  by (metis add.commute eq_neg_iff_add_eq_0 lessI unatSuc word_less_nat_alt)

text \<open>Two sublists of a duplicate-free list that are together longer than it share an element.\<close>

lemma quorums_intersect:
  assumes "A \<subseteq> set ps" and "B \<subseteq> set ps" and "length ps < card A + card B"
  shows "A \<inter> B \<noteq> {}"
proof
  assume disj: "A \<inter> B = {}"
  have "finite A" "finite B" using assms(1,2) finite_subset by blast+
  then have "card A + card B = card (A \<union> B)" using disj by (simp add: card_Un_disjoint)
  also have "\<dots> \<le> card (set ps)" using assms(1,2) by (intro card_mono) auto
  also have "\<dots> \<le> length ps" by (rule card_length)
  finally show False using assms(3) by simp
qed

end
