(* ===== verification/GoFloat.thy ===== *)
theory GoFloat
  imports Complex_Main Prelude
begin

text \<open>
  Floating-point arithmetic of Go as far as the program relies on it: \<^verbatim>\<open>float64\<close> values are
  rational numbers, so rounding is not modelled; a quotient or power that is not finite in
  Go is \<open>None\<close>, and conversion to an integer truncates towards zero.
\<close>

definition finiteDiv :: "rat \<Rightarrow> rat \<Rightarrow> rat option" where
  "finiteDiv x y = (if y = 0 then None else Some (x / y))"

definition finitePow :: "rat \<Rightarrow> int \<Rightarrow> rat option" where
  "finitePow x n = (if 0 \<le> n then Some (x ^ nat n) else if x = 0 then None else Some (inverse x ^ nat (- n)))"

definition goTruncate :: "rat \<Rightarrow> int" where
  "goTruncate x = (if 0 \<le> x then \<lfloor>x\<rfloor> else \<lceil>x\<rceil>)"

lemma goTruncate_of_int [simp]: "goTruncate (of_int n) = n"
  by (simp add: goTruncate_def)

end
