(* ===== verification/GoStd.thy ===== *)
theory GoStd
  imports Prelude
begin

text \<open>
  The parts of the Go standard library the source calls: \<^verbatim>\<open>crc32.ChecksumIEEE\<close>,
  \<^verbatim>\<open>sha256.Sum256\<close>, \<^verbatim>\<open>hex.EncodeToString\<close>, little-endian integers of
  \<^verbatim>\<open>encoding/binary\<close>, and instants and durations of \<^verbatim>\<open>time\<close>.
\<close>

unbundle bit_operations_syntax

subsection \<open>Bytes\<close>

definition byte_of :: "char \<Rightarrow> u8" where
  "byte_of c = of_nat (of_char c)"

definition string_bytes :: "string \<Rightarrow> bytes" where
  "string_bytes s = map byte_of s"

lemma unat_byte_of: "unat (byte_of c) = of_char c"
  by (simp add: byte_of_def unat_of_nat of_char_mod_256)

lemma inj_byte_of: "inj byte_of"
  by (rule injI) (metis unat_byte_of of_char_eq_iff)

lemma string_bytes_inj: "string_bytes s = string_bytes t \<longleftrightarrow> s = t"
  unfolding string_bytes_def by (rule inj_map_eq_map[OF inj_byte_of])

lemma length_string_bytes [simp]: "length (string_bytes s) = length s"
  by (simp add: string_bytes_def)

text \<open>\<^verbatim>\<open>binary.LittleEndian.PutUint64\<close>: eight bytes, least significant first.\<close>

definition put_uint64 :: "u64 \<Rightarrow> bytes" where
  "put_uint64 x = map (\<lambda>i. ucast (drop_bit (8 * i) x)) [0..<8]"

lemma length_put_uint64 [simp]: "length (put_uint64 x) = 8"
  by (simp add: put_uint64_def)

lemma put_uint64_inj: "put_uint64 x = put_uint64 y \<longleftrightarrow> x = y"
proof
  assume eq: "put_uint64 x = put_uint64 y"
  show "x = y"
  proof (rule bit_word_eqI)
    fix n assume n: "n < LENGTH(64)"
    then have "put_uint64 x ! (n div 8) = put_uint64 y ! (n div 8)" using eq by simp
    moreover have "n div 8 < 8" using n by simp
    ultimately have "(ucast (drop_bit (8 * (n div 8)) x) :: u8) = ucast (drop_bit (8 * (n div 8)) y)"
      unfolding put_uint64_def by (simp only: nth_map length_upt nth_upt diff_zero add_0)
    then have "bit (ucast (drop_bit (8 * (n div 8)) x) :: u8) (n mod 8) =
               bit (ucast (drop_bit (8 * (n div 8)) y) :: u8) (n mod 8)" by simp
    then show "bit x n = bit y n"
      by (simp add: bit_ucast_iff bit_drop_bit_eq)
  qed
qed simp

subsection \<open>CRC-32 (IEEE)\<close>

definition crc32_bit :: "u32 \<Rightarrow> u32" where
  "crc32_bit c = (if bit c 0 then drop_bit 1 c XOR 0xEDB88320 else drop_bit 1 c)"

definition crc32_byte :: "u8 \<Rightarrow> u32 \<Rightarrow> u32" where
  "crc32_byte b c = (crc32_bit ^^ 8) (c XOR ucast b)"

definition crc32_ChecksumIEEE :: "bytes \<Rightarrow> u32" where
  "crc32_ChecksumIEEE bs = NOT (fold crc32_byte bs (NOT 0))"

subsection \<open>SHA-256\<close>

text \<open>
  The constants of the algorithm are the first 32 bits of the fractional parts of the cube
  roots and of the square roots of the first primes; \<open>root_bits\<close> finds the root bit by bit.
\<close>

definition small_primes :: "int list" where
  "small_primes = filter (\<lambda>p. \<forall>d \<in> set [2..17]. d < p \<longrightarrow> p mod d \<noteq> 0) [2..311]"

fun root_loop :: "nat \<Rightarrow> nat \<Rightarrow> int \<Rightarrow> int \<Rightarrow> int" where
  "root_loop 0 e q r = r"
| "root_loop (Suc n) e q r = root_loop n e q (if (r + 2 ^ n) ^ e \<le> q then r + 2 ^ n else r)"

definition root_bits :: "nat \<Rightarrow> int \<Rightarrow> int" where
  "root_bits e p = root_loop 35 e (p * 2 ^ (32 * e)) 0"

definition sha256_K :: "u32 list" where
  "sha256_K = map (\<lambda>p. of_int (root_bits 3 p)) small_primes"

definition sha256_H0 :: "u32 list" where
  "sha256_H0 = map (\<lambda>p. of_int (root_bits 2 p)) (take 8 small_primes)"

lemma root_loop_root:
  assumes "0 \<le> r" "r \<le> x" "x < r + 2 ^ n" "x ^ e \<le> q" "q < (x + 1) ^ e"
  shows "root_loop n e q r = x"
  using assms
proof (induction n arbitrary: r)
  case (Suc n)
  show ?case
  proof (cases "r + 2 ^ n \<le> x")
    case True
    then have "(r + 2 ^ n) ^ e \<le> q" using Suc.prems(1,4) by (meson order_trans power_mono zero_le_numeral zero_le_power add_nonneg_nonneg)
    then show ?thesis using Suc.IH[of "r + 2 ^ n"] Suc.prems True by simp
  next
    case False
    then have "q < (r + 2 ^ n) ^ e"
      using Suc.prems(1,2,5) by (meson dual_order.trans less_le_trans not_le power_mono zless_imp_add1_zle add_nonneg_nonneg zero_le_one)
    then show ?thesis using Suc.IH[of r] Suc.prems False by simp
  qed
qed simp

lemma root_bits_list:
  assumes "list_all2 (\<lambda>p x. 0 \<le> x \<and> x < 2 ^ 35 \<and> x ^ e \<le> p * 2 ^ (32 * e) \<and> p * 2 ^ (32 * e) < (x + 1) ^ e) ps xs"
  shows "map (\<lambda>p. of_int (root_bits e p) :: u32) ps = map of_int xs"
proof -
  have "map (root_bits e) ps = xs"
    using assms by (induction rule: list_all2_induct) (simp_all add: root_bits_def root_loop_root)
  then show ?thesis by (metis (no_types, lifting) map_map comp_def map_eq_conv)
qed

lemma small_primes_table: "small_primes =
    [2, 3, 5, 7, 11, 13, 17, 19,
     23, 29, 31, 37, 41, 43, 47, 53,
     59, 61, 67, 71, 73, 79, 83, 89,
     97, 101, 103, 107, 109, 113, 127, 131,
     137, 139, 149, 151, 157, 163, 167, 173,
     179, 181, 191, 193, 197, 199, 211, 223,
     227, 229, 233, 239, 241, 251, 257, 263,
     269, 271, 277, 281, 283, 293, 307, 311]"
  by code_simp

lemma sha256_K_table [code]: "sha256_K =
    [1116352408, 1899447441, 3049323471, 3921009573, 961987163, 1508970993, 2453635748, 2870763221,
     3624381080, 310598401, 607225278, 1426881987, 1925078388, 2162078206, 2614888103, 3248222580,
     3835390401, 4022224774, 264347078, 604807628, 770255983, 1249150122, 1555081692, 1996064986,
     2554220882, 2821834349, 2952996808, 3210313671, 3336571891, 3584528711, 113926993, 338241895,
     666307205, 773529912, 1294757372, 1396182291, 1695183700, 1986661051, 2177026350, 2456956037,
     2730485921, 2820302411, 3259730800, 3345764771, 3516065817, 3600352804, 4094571909, 275423344,
     430227734, 506948616, 659060556, 883997877, 958139571, 1322822218, 1537002063, 1747873779,
     1955562222, 2024104815, 2227730452, 2361852424, 2428436474, 2756734187, 3204031479, 3329325298]"
  unfolding sha256_K_def small_primes_table 
  by (rule trans, rule root_bits_list[where xs =
     "[5411319704, 6194414737, 7344290767, 8215976869, 9551921755, 10098905585, 11043570340, 11460697813,
       12214315672, 13195500289, 13492127166, 14311783875, 14809980276, 15046980094, 15499789991, 16133124468,
       16720292289, 16907126662, 17444216262, 17784676812, 17950125167, 18429019306, 18734950876, 19175934170,
       19734090066, 20001703533, 20132865992, 20390182855, 20516441075, 20764397895, 21588763473, 21813078375,
       22141143685, 22248366392, 22769593852, 22871018771, 23170020180, 23461497531, 23651862830, 23931792517,
       24205322401, 24295138891, 24734567280, 24820601251, 24990902297, 25075189284, 25569408389, 26045227120,
       26200031510, 26276752392, 26428864332, 26653801653, 26727943347, 27092625994, 27306805839, 27517677555,
       27725365998, 27793908591, 27997534228, 28131656200, 28198240250, 28526537963, 28973835255, 29099129074]"]) simp_all

lemma sha256_H0_table [code]: "sha256_H0 =
    [1779033703, 3144134277, 1013904242, 2773480762, 1359893119, 2600822924, 528734635, 1541459225]"
  unfolding sha256_H0_def small_primes_table 
  by (rule trans, rule root_bits_list[where xs =
     "[6074000999, 7439101573, 9603838834, 11363415354, 14244795007, 15485724812, 17708603819, 18721328409]"]) simp_all

definition be_word :: "bytes \<Rightarrow> u32" where
  "be_word bs = fold (\<lambda>b w. push_bit 8 w OR ucast b) bs 0"

definition be_bytes32 :: "u32 \<Rightarrow> bytes" where
  "be_bytes32 w = map (\<lambda>i. ucast (drop_bit (8 * i) w)) [3, 2, 1, 0]"

definition be_bytes64 :: "u64 \<Rightarrow> bytes" where
  "be_bytes64 w = map (\<lambda>i. ucast (drop_bit (8 * i) w)) [7, 6, 5, 4, 3, 2, 1, 0]"

definition sha256_pad :: "bytes \<Rightarrow> bytes" where
  "sha256_pad m =
     m @ [0x80] @ replicate ((119 - length m mod 64) mod 64) 0 @ be_bytes64 (of_nat (8 * length m))"

function chunks :: "nat \<Rightarrow> 'a list \<Rightarrow> 'a list list" where
  "chunks n xs = (if n = 0 \<or> xs = [] then [] else take n xs # chunks n (drop n xs))"
  by pat_completeness auto
termination
  by (relation "measure (\<lambda>(n, xs). length xs)") auto

declare chunks.simps [simp del]

definition sha256_extend :: "u32 list \<Rightarrow> u32 list" where
  "sha256_extend w16 =
     fold (\<lambda>i w. w @
       [let s0 = word_rotr 7 (w ! (i - 15)) XOR word_rotr 18 (w ! (i - 15)) XOR drop_bit 3 (w ! (i - 15));
            s1 = word_rotr 17 (w ! (i - 2)) XOR word_rotr 19 (w ! (i - 2)) XOR drop_bit 10 (w ! (i - 2))
        in w ! (i - 16) + s0 + w ! (i - 7) + s1]) [16..<64] w16"

fun sha256_round :: "u32 \<times> u32 \<Rightarrow> u32 list \<Rightarrow> u32 list" where
  "sha256_round (k, w) [a, b, c, d, e, f, g, h] =
     (let S1 = word_rotr 6 e XOR word_rotr 11 e XOR word_rotr 25 e;
          ch = (e AND f) XOR (NOT e AND g);
          t1 = h + S1 + ch + k + w;
          S0 = word_rotr 2 a XOR word_rotr 13 a XOR word_rotr 22 a;
          maj = (a AND b) XOR (a AND c) XOR (b AND c);
          t2 = S0 + maj
      in [t1 + t2, a, b, c, d + t1, e, f, g])"
| "sha256_round _ st = st"

definition sha256_block :: "bytes \<Rightarrow> u32 list \<Rightarrow> u32 list" where
  "sha256_block blk st =
     map2 (+) st (fold sha256_round (zip sha256_K (sha256_extend (map be_word (chunks 4 blk)))) st)"

definition sha256_Sum256 :: "bytes \<Rightarrow> bytes" where
  "sha256_Sum256 m =
     concat (map be_bytes32 (fold sha256_block (chunks 64 (sha256_pad m)) sha256_H0))"

lemma length_sha256_round [simp]: "length (sha256_round kw st) = length st"
  by (cases "(kw, st)" rule: sha256_round.cases) (simp_all add: Let_def)

lemma length_sha256_block [simp]: "length (sha256_block blk st) = length st"
proof -
  have "length (fold sha256_round xs st) = length st" for xs
    by (induction xs arbitrary: st) simp_all
  then show ?thesis by (simp add: sha256_block_def)
qed

lemma length_sha256 [simp]: "length (sha256_Sum256 m) = 32"
proof -
  have "length (fold sha256_block bs st) = length st" for bs st
    by (induction bs arbitrary: st) simp_all
  then have "length (fold sha256_block bs sha256_H0) = 8" for bs by (simp add: sha256_H0_table)
  moreover have "length (concat (map be_bytes32 ws)) = 4 * length ws" for ws
    by (induction ws) (simp_all add: be_bytes32_def)
  ultimately show ?thesis by (simp add: sha256_Sum256_def)
qed

definition hex_digit :: "nat \<Rightarrow> char" where
  "hex_digit n = ''0123456789abcdef'' ! n"

definition hex_EncodeToString :: "bytes \<Rightarrow> string" where
  "hex_EncodeToString bs =
     concat (map (\<lambda>b. [hex_digit (unat b div 16), hex_digit (unat b mod 16)]) bs)"

subsection \<open>Instants and durations\<close>

text \<open>
  A \<^verbatim>\<open>time.Time\<close> is the number of nanoseconds since the zero time of Go (1 January of
  year 1, UTC), so \<open>0\<close> is \<^verbatim>\<open>time.Time{}\<close>. A \<^verbatim>\<open>time.Duration\<close> is a number of nanoseconds;
  \<open>Sub\<close> saturates at the ends of its 64-bit range, as the library does.
\<close>

type_synonym Time = int
type_synonym Duration = int

definition unix_epoch :: Time where
  "unix_epoch = 62135596800 * 1000000000"

definition time_Unix :: "int \<Rightarrow> Time" where
  "time_Unix ns = unix_epoch + ns"

definition minDuration :: Duration where
  "minDuration = - (2 ^ 63)"

definition maxDuration :: Duration where
  "maxDuration = 2 ^ 63 - 1"

definition time_Sub :: "Time \<Rightarrow> Time \<Rightarrow> Duration" where
  "time_Sub t u = max minDuration (min maxDuration (t - u))"

abbreviation Millisecond :: Duration where
  "Millisecond \<equiv> 1000000"

lemma time_Sub_exact: "minDuration \<le> t - u \<Longrightarrow> t - u \<le> maxDuration \<Longrightarrow> time_Sub t u = t - u"
  by (simp add: time_Sub_def)

end
