(* ===== verification/Ring.thy ===== *)
theory Ring
  imports GoStd
begin

text \<open>
  The consistent-hash ring, \<^verbatim>\<open>kvsrv/chr/ring.go\<close>. A ring divides the key space into
  \<open>numSectors\<close> sectors of \<open>bucketsPerSector\<close> buckets and assigns every sector to a node.
  Index and division panics are values of \<^typ>\<open>panic\<close>; the search for neighbours is a loop
  that need not end and is a \<^theory_text>\<open>partial_function\<close>. The read-write lock of the ring and the
  message printed by \<open>AddNode\<close> are not modelled.
\<close>

record ConsistentHashRing =
  numReplicas :: nat
  numBackups :: nat
  numSectors :: nat
  numServers :: int
  bucketsPerSector :: nat
  hashFunc :: "string \<Rightarrow> u32"
  nodeIDs :: "string list"
  nodes :: "string \<rightharpoonup> nat list"
  sectorMap :: "nat \<rightharpoonup> string"

definition GetLocation :: "ConsistentHashRing \<Rightarrow> string \<Rightarrow> nat \<times> nat" where
  "GetLocation chr key =
     (let h = hashFunc chr key;
          totalBuckets = numSectors chr * bucketsPerSector chr;
          position = unat (drop_bit 32 ((of_nat totalBuckets :: u64) * ucast h))
      in (position div bucketsPerSector chr, position mod bucketsPerSector chr))"

definition Hash :: "string \<Rightarrow> u32" where
  "Hash key = crc32_ChecksumIEEE (string_bytes key)"

text \<open>Indexing the two maps: the zero values are the nil slice and the empty string.\<close>

definition sectorsOf :: "ConsistentHashRing \<Rightarrow> string \<Rightarrow> nat list" where
  "sectorsOf chr n = (case nodes chr n of None \<Rightarrow> [] | Some l \<Rightarrow> l)"

definition GetNodeID :: "ConsistentHashRing \<Rightarrow> nat \<Rightarrow> string" where
  "GetNodeID chr sectorID = (case sectorMap chr sectorID of None \<Rightarrow> '''' | Some n \<Rightarrow> n)"

text \<open>Appending a sector to a node: the two assignments every redistribution makes.\<close>

definition giveSector :: "string \<Rightarrow> nat \<Rightarrow> ConsistentHashRing \<Rightarrow> ConsistentHashRing" where
  "giveSector n sector chr =
     chr\<lparr>nodes := (nodes chr)(n \<mapsto> sectorsOf chr n @ [sector]),
         sectorMap := (sectorMap chr)(sector \<mapsto> n)\<rparr>"

text \<open>The distribution loop: the \<open>i\<close>-th sector goes to \<^verbatim>\<open>nodeIDs[i % numServers]\<close>.\<close>

fun assignSectors :: "(nat \<times> nat) list \<Rightarrow> ConsistentHashRing \<Rightarrow> panic + ConsistentHashRing" where
  "assignSectors [] chr = Inr chr"
| "assignSectors ((i, sector) # rest) chr =
     (if numServers chr = 0 then Inl DivideByZero
      else let idx = nat (int i mod \<bar>numServers chr\<bar>)
           in if length (nodeIDs chr) \<le> idx then Inl IndexOutOfRange
              else assignSectors rest (giveSector (nodeIDs chr ! idx) sector chr))"

definition MakeConsistentHashRing :: "nat \<Rightarrow> nat \<Rightarrow> int \<Rightarrow> string list \<Rightarrow> panic + ConsistentHashRing" where
  "MakeConsistentHashRing nReplicas nSectors nServers ids =
     assignSectors (zip [0..<nSectors] [0..<nSectors])
       \<lparr>numReplicas = nReplicas, numBackups = 0, numSectors = nSectors, numServers = nServers,
        bucketsPerSector = 256, hashFunc = Hash, nodeIDs = ids,
        nodes = fold (\<lambda>n m. m(n \<mapsto> [])) ids Map.empty, sectorMap = Map.empty\<rparr>"

definition neighborTarget :: "ConsistentHashRing \<Rightarrow> int" where
  "neighborTarget chr =
     (let target = int (numReplicas chr) + int (numBackups chr)
      in if target > numServers chr then numServers chr else target)"

partial_function (option) GetNeighborsLoop ::
  "ConsistentHashRing \<Rightarrow> int \<Rightarrow> string list \<Rightarrow> nat list \<Rightarrow> nat \<Rightarrow> (panic + string list \<times> nat list) option"
where
  "GetNeighborsLoop chr target neighborNodes neighborSectors sectorID =
     (if int (length neighborNodes) < target then
        (let cur = GetNodeID chr sectorID;
             repeated = (cur \<in> set neighborNodes);
             ns = (if repeated then neighborNodes else neighborNodes @ [cur]);
             ss = (if repeated then neighborSectors else neighborSectors @ [sectorID])
         in if numSectors chr = 0 then Some (Inl DivideByZero)
            else GetNeighborsLoop chr target ns ss ((sectorID + 1) mod numSectors chr))
      else Some (Inr (neighborNodes, neighborSectors)))"

definition GetNeighbors :: "ConsistentHashRing \<Rightarrow> nat \<Rightarrow> (panic + string list \<times> nat list) option" where
  "GetNeighbors chr sectorID = GetNeighborsLoop chr (neighborTarget chr) [] [] sectorID"

definition GetPreferenceList :: "ConsistentHashRing \<Rightarrow> string \<Rightarrow> (panic + string list) option" where
  "GetPreferenceList chr key =
     map_option (map_sum id fst) (GetNeighbors chr (fst (GetLocation chr key)))"

definition GetCoordinator :: "ConsistentHashRing \<Rightarrow> string \<Rightarrow> string" where
  "GetCoordinator chr key = GetNodeID chr (fst (GetLocation chr key))"

definition GetRichestNode :: "ConsistentHashRing \<Rightarrow> string" where
  "GetRichestNode chr =
     fst (fold (\<lambda>nodeID (richest, maxSectors).
            if richest = '''' \<or> length (sectorsOf chr nodeID) > maxSectors
            then (nodeID, length (sectorsOf chr nodeID)) else (richest, maxSectors))
          (nodeIDs chr) ('''', 0))"

definition TakeSectorFrom :: "string \<Rightarrow> ConsistentHashRing \<Rightarrow> panic + nat \<times> ConsistentHashRing" where
  "TakeSectorFrom nodeID chr =
     (case sectorsOf chr nodeID of
        [] \<Rightarrow> Inl IndexOutOfRange
      | sector # rest \<Rightarrow> Inr (sector, chr\<lparr>nodes := (nodes chr)(nodeID \<mapsto> rest)\<rparr>))"

fun takeSectors :: "nat \<Rightarrow> string \<Rightarrow> ConsistentHashRing \<Rightarrow> panic + ConsistentHashRing" where
  "takeSectors 0 newNodeID chr = Inr chr"
| "takeSectors (Suc k) newNodeID chr =
     (case TakeSectorFrom (GetRichestNode chr) chr of
        Inl e \<Rightarrow> Inl e
      | Inr (sector, chr') \<Rightarrow> takeSectors k newNodeID (giveSector newNodeID sector chr'))"

text \<open>
  The quotient is not positive when the divisor is negative, and then the loop does not run,
  whichever way the division rounds.
\<close>

definition AddNode :: "string \<Rightarrow> ConsistentHashRing \<Rightarrow> panic + ConsistentHashRing" where
  "AddNode newNodeID chr =
     (if numServers chr + 1 = 0 then Inl DivideByZero
      else let targetSectors = nat (int (numSectors chr) div (numServers chr + 1))
           in if nodes chr newNodeID \<noteq> None then Inr chr
              else case takeSectors targetSectors newNodeID chr of
                     Inl e \<Rightarrow> Inl e
                   | Inr chr' \<Rightarrow> Inr (chr'\<lparr>nodeIDs := nodeIDs chr' @ [newNodeID],
                                          numServers := numServers chr' + 1\<rparr>))"

fun deleteFromSlice :: "string list \<Rightarrow> string \<Rightarrow> string list" where
  "deleteFromSlice [] x = []"
| "deleteFromSlice (v # rest) x = (if v = x then rest else v # deleteFromSlice rest x)"

definition RemoveNode :: "string \<Rightarrow> ConsistentHashRing \<Rightarrow> panic + ConsistentHashRing" where
  "RemoveNode nodeID chr =
     (let redistribute = sectorsOf chr nodeID;
          chr' = chr\<lparr>nodes := (nodes chr)(nodeID := None),
                     nodeIDs := deleteFromSlice (nodeIDs chr) nodeID,
                     numServers := numServers chr - 1\<rparr>
      in assignSectors (zip [0..<length redistribute] redistribute) chr')"

definition GetSectors :: "ConsistentHashRing \<Rightarrow> string \<Rightarrow> nat list" where
  "GetSectors chr nodeID = sectorsOf chr nodeID"

subsection \<open>Locations\<close>

lemma GetLocation_position:
  assumes "numSectors r * bucketsPerSector r \<le> 2 ^ 32"
  shows "unat (drop_bit 32 ((of_nat (numSectors r * bucketsPerSector r) :: u64) * ucast (hashFunc r k)))
       = (numSectors r * bucketsPerSector r * unat (hashFunc r k)) div 2 ^ 32"
proof -
  let ?t = "numSectors r * bucketsPerSector r" and ?h = "unat (hashFunc r k)"
  have h: "?h < 2 ^ 32" using unsigned_less[of "hashFunc r k"] by simp
  have "?t * ?h < 2 ^ 64"
  proof -
    have "?t * ?h \<le> 2 ^ 32 * ?h" using assms by simp
    also have "\<dots> < 2 ^ 32 * 2 ^ 32" using h by simp
    finally show ?thesis by simp
  qed
  moreover have "(of_nat ?t :: u64) * ucast (hashFunc r k) = of_nat (?t * ?h)"
    by simp
  moreover have "unat (of_nat n :: u64) = n" if "n < 2 ^ 64" for n
    using that by (simp add: unat_of_nat take_bit_nat_eq_self)
  ultimately show ?thesis
    by (simp only: unat_drop_bit_eq drop_bit_eq_div[where 'a = nat])
qed

lemma GetLocation_bounds:
  assumes "0 < numSectors r * bucketsPerSector r" and "numSectors r * bucketsPerSector r \<le> 2 ^ 32"
  shows "fst (GetLocation r k) < numSectors r \<and> snd (GetLocation r k) < bucketsPerSector r"
proof -
  let ?t = "numSectors r * bucketsPerSector r" and ?h = "unat (hashFunc r k)"
  have h: "?h < 2 ^ 32" using unsigned_less[of "hashFunc r k"] by simp
  have "?t * ?h < ?t * 2 ^ 32" using assms(1) h by simp
  then have "(?t * ?h) div 2 ^ 32 < ?t"
    by (metis less_mult_imp_div_less)
  then show ?thesis
    using assms(1)
    unfolding GetLocation_def Let_def fst_conv snd_conv GetLocation_position[OF assms(2)]
    by (simp add: less_mult_imp_div_less)
qed

subsection \<open>The walk around the ring\<close>

text \<open>
  Reference for the neighbour search: the owners of all sectors in ring order from the
  starting one, each kept at its first occurrence, cut at the target.
\<close>

definition ringWalk :: "ConsistentHashRing \<Rightarrow> nat \<Rightarrow> string list" where
  "ringWalk r s = map (\<lambda>j. GetNodeID r ((s + j) mod numSectors r)) [0..<numSectors r]"

definition owners :: "ConsistentHashRing \<Rightarrow> string set" where
  "owners r = GetNodeID r ` {0..<numSectors r}"

lemma length_ringWalk [simp]: "length (ringWalk r s) = numSectors r"
  by (simp add: ringWalk_def)

lemma nth_ringWalk [simp]: "k < numSectors r \<Longrightarrow> ringWalk r s ! k = GetNodeID r ((s + k) mod numSectors r)"
  by (simp add: ringWalk_def)

lemma rotation_image: "0 < n \<Longrightarrow> (\<lambda>j. (s + j) mod n) ` {0..<n} = {0..<(n::nat)}"
proof (intro equalityI subsetI)
  fix x assume n: "0 < n" and x: "x \<in> {0..<n}"
  let ?j = "(x + (n - s mod n)) mod n"
  have "(s + ?j) mod n = (s mod n + x + (n - s mod n)) mod n"
    by (metis add.assoc mod_add_left_eq mod_add_right_eq)
  also have "\<dots> = x" using n x by (simp add: less_imp_le)
  finally show "x \<in> (\<lambda>j. (s + j) mod n) ` {0..<n}" using n by (intro image_eqI[of _ _ ?j]) auto
qed auto

lemma set_ringWalk: "set (ringWalk r s) = owners r"
proof (cases "numSectors r = 0")
  case False
  have "set (ringWalk r s) = GetNodeID r ` ((\<lambda>j. (s + j) mod numSectors r) ` {0..<numSectors r})"
    by (auto simp: ringWalk_def)
  then show ?thesis using False by (simp only: rotation_image owners_def)
qed (simp add: ringWalk_def owners_def)

lemma fold_gs_add_prefix: "\<exists>zs. fold gs_add ys xs = xs @ zs"
proof (induction ys arbitrary: xs)
  case (Cons y ys)
  then obtain zs where "fold gs_add ys (gs_add y xs) = gs_add y xs @ zs" by blast
  moreover obtain us where "gs_add y xs = xs @ us" by (metis append_Nil2 gs_add_def)
  ultimately show ?case by simp
qed simp

lemma length_fold_gs_add: "length (fold gs_add ys []) = card (set ys)"
  using distinct_card[of "fold gs_add ys []"] by simp

text \<open>
  The sector list that goes with a list of owners, and that it extends an earlier one.
\<close>

definition sectorsFit :: "ConsistentHashRing \<Rightarrow> string list \<Rightarrow> nat list \<Rightarrow> bool" where
  "sectorsFit r ns ss \<longleftrightarrow> map (GetNodeID r) ss = ns \<and> (\<forall>x \<in> set ss. x < numSectors r)"

lemma GetNeighborsLoop_walk:
  assumes "t \<le> card (owners r)" and "0 < numSectors r"
    and "k \<le> numSectors r" and "ns = fold gs_add (take k (ringWalk r s)) []" and "length ns \<le> t"
    and "sectorsFit r ns ss"
  shows "\<exists>zs. GetNeighborsLoop r (int t) ns ss ((s + k) mod numSectors r) =
           Some (Inr (take t (fold gs_add (ringWalk r s) []), ss @ zs))
         \<and> sectorsFit r (take t (fold gs_add (ringWalk r s) [])) (ss @ zs)"
  using assms(3-)
proof (induction "numSectors r - k" arbitrary: k ns ss rule: less_induct)
  case less
  let ?w = "ringWalk r s" and ?sid = "(s + k) mod numSectors r"
  show ?case
  proof (cases "length ns < t")
    case False
    obtain zs where "fold gs_add (drop k ?w) (fold gs_add (take k ?w) []) = ns @ zs"
      using fold_gs_add_prefix less.prems(2) by metis
    then have "fold gs_add ?w [] = ns @ zs"
      by (metis append_take_drop_id fold_append comp_apply)
    then have "take t (fold gs_add ?w []) = ns" using False less.prems(3) by simp
    then show ?thesis using False less.prems(4) by (subst GetNeighborsLoop.simps) auto
  next
    case True
    have "k \<noteq> numSectors r"
      using True assms(1) less.prems(2) length_fold_gs_add[of ?w] by (auto simp: set_ringWalk)
    then have k: "k < numSectors r" using less.prems(1) by simp
    let ?c = "GetNodeID r ?sid"
    define us where "us = (if ?c \<in> set ns then [] else [?sid])"
    have step: "GetNeighborsLoop r (int t) ns ss ?sid =
        GetNeighborsLoop r (int t) (gs_add ?c ns) (ss @ us) ((s + Suc k) mod numSectors r)"
      using True assms(2)
      by (subst GetNeighborsLoop.simps) (simp add: Let_def gs_add_def us_def mod_Suc_eq)
    have "gs_add ?c ns = fold gs_add (take (Suc k) ?w) []"
      using k less.prems(2) by (simp add: take_Suc_conv_app_nth)
    moreover have "length (gs_add ?c ns) \<le> t" using True by (simp add: gs_add_def)
    moreover have "sectorsFit r (gs_add ?c ns) (ss @ us)"
      using less.prems(4) assms(2) by (auto simp: sectorsFit_def gs_add_def us_def)
    ultimately obtain zs where
      "GetNeighborsLoop r (int t) (gs_add ?c ns) (ss @ us) ((s + Suc k) mod numSectors r) =
         Some (Inr (take t (fold gs_add ?w []), (ss @ us) @ zs))
       \<and> sectorsFit r (take t (fold gs_add ?w [])) ((ss @ us) @ zs)"
      using less.hyps[of "Suc k" "gs_add ?c ns" "ss @ us"] k by (metis Suc_leI diff_less_mono2 lessI)
    then show ?thesis unfolding step by (metis append_assoc)
  qed
qed

lemma GetNeighbors_walk:
  assumes "0 \<le> neighborTarget r" and "neighborTarget r \<le> int (card (owners r))"
    and "sid < numSectors r"
  shows "\<exists>ss. GetNeighbors r sid =
      Some (Inr (take (nat (neighborTarget r)) (fold gs_add (ringWalk r sid) []), ss))
    \<and> sectorsFit r (take (nat (neighborTarget r)) (fold gs_add (ringWalk r sid) [])) ss"
  using GetNeighborsLoop_walk[of "nat (neighborTarget r)" r 0 "[]" sid "[]"] assms
  by (auto simp: GetNeighbors_def sectorsFit_def)

text \<open>When the sectors have fewer owners than the target the search does not return.\<close>

definition short_of_owners :: "ConsistentHashRing \<Rightarrow> int \<Rightarrow> string list \<Rightarrow> nat \<Rightarrow> bool" where
  "short_of_owners r t ns sid \<longleftrightarrow> distinct ns \<and> set ns \<subseteq> owners r \<and> int (card (owners r)) < t
     \<and> sid < numSectors r"

lemma short_of_owners_step:
  assumes "short_of_owners r t ns sid"
  shows "int (length ns) < t \<and> short_of_owners r t (gs_add (GetNodeID r sid) ns) ((sid + 1) mod numSectors r)"
proof -
  have "length ns \<le> card (owners r)"
    using assms card_mono[of "owners r" "set ns"]
    by (auto simp: short_of_owners_def owners_def distinct_card)
  then show ?thesis using assms by (auto simp: short_of_owners_def owners_def)
qed

lemma GetNeighborsLoop_stuck:
  assumes "GetNeighborsLoop r t ns ss sid = Some res"
  shows "\<not> short_of_owners r t ns sid"
proof (rule GetNeighborsLoop.raw_induct[where P = "\<lambda>r t ns ss sid res. \<not> short_of_owners r t ns sid", OF _ assms])
  fix loop r t ns ss sid res
  assume ih: "\<And>r t ns ss sid y. loop r t ns ss sid = Some y \<Longrightarrow> \<not> short_of_owners r t ns sid"
    and body: "(if int (length ns) < t
         then let cur = GetNodeID r sid; repeated = cur \<in> set ns;
                  ns' = if repeated then ns else ns @ [cur]; ss' = if repeated then ss else ss @ [sid]
              in if numSectors r = 0 then Some (Inl DivideByZero)
                 else loop r t ns' ss' ((sid + 1) mod numSectors r)
         else Some (Inr (ns, ss))) = Some res"
  show "\<not> short_of_owners r t ns sid"
  proof
    assume a: "short_of_owners r t ns sid"
    note st = short_of_owners_step[OF a]
    have "numSectors r \<noteq> 0" using a by (simp add: short_of_owners_def)
    then have "\<exists>ss' y. loop r t (gs_add (GetNodeID r sid) ns) ss' ((sid + 1) mod numSectors r) = Some y"
      using body st by (auto simp: Let_def gs_add_def split: if_splits)
    then show False using ih st by blast
  qed
qed

lemma GetNeighbors_stuck:
  assumes "sid < numSectors r" and "int (card (owners r)) < neighborTarget r"
  shows "GetNeighbors r sid = None"
  using GetNeighborsLoop_stuck[of r "neighborTarget r" "[]" "[]" sid] assms
  by (cases "GetNeighbors r sid") (auto simp: GetNeighbors_def short_of_owners_def)

subsection \<open>Well-formed rings\<close>

text \<open>
  Every sector below \<open>numSectors\<close> is listed by exactly one node, the one \<open>sectorMap\<close> names.
  The set \<open>ids\<close> is the set of nodes that may own sectors; while a node is being added it is
  larger than \<open>nodeIDs\<close>.
\<close>

definition partitioned :: "string set \<Rightarrow> ConsistentHashRing \<Rightarrow> bool" where
  "partitioned ids r \<longleftrightarrow>
     (\<forall>n. nodes r n \<noteq> None \<longrightarrow> n \<in> ids) \<and>
     (\<forall>n. distinct (sectorsOf r n)) \<and>
     (\<forall>n i. i \<in> set (sectorsOf r n) \<longleftrightarrow> sectorMap r i = Some n) \<and>
     dom (sectorMap r) = {0..<numSectors r}"

definition wf_ring :: "ConsistentHashRing \<Rightarrow> bool" where
  "wf_ring r \<longleftrightarrow> distinct (nodeIDs r) \<and> '''' \<notin> set (nodeIDs r) \<and> numServers r = int (length (nodeIDs r))
     \<and> dom (nodes r) = set (nodeIDs r) \<and> partitioned (set (nodeIDs r)) r
     \<and> 0 < numSectors r \<and> 0 < bucketsPerSector r \<and> numSectors r * bucketsPerSector r \<le> 2 ^ 32"

definition all_own :: "ConsistentHashRing \<Rightarrow> bool" where
  "all_own r \<longleftrightarrow> (\<forall>n \<in> set (nodeIDs r). sectorsOf r n \<noteq> [])"

lemma sectorsOf_give [simp]:
  "sectorsOf (giveSector n s r) m = (if m = n then sectorsOf r n @ [s] else sectorsOf r m)"
  by (simp add: sectorsOf_def giveSector_def)

lemma giveSector_frame [simp]:
  "numReplicas (giveSector n s r) = numReplicas r" "numBackups (giveSector n s r) = numBackups r"
  "numSectors (giveSector n s r) = numSectors r" "numServers (giveSector n s r) = numServers r"
  "bucketsPerSector (giveSector n s r) = bucketsPerSector r" "hashFunc (giveSector n s r) = hashFunc r"
  "nodeIDs (giveSector n s r) = nodeIDs r" "sectorMap (giveSector n s r) = (sectorMap r)(s \<mapsto> n)"
  "nodes (giveSector n s r) = (nodes r)(n \<mapsto> sectorsOf r n @ [s])"
  by (simp_all add: giveSector_def)

lemma partitioned_owner: "partitioned ids r \<Longrightarrow> sectorMap r i = Some n \<Longrightarrow> n \<in> ids"
  by (metis empty_iff list.set(1) option.case_eq_if partitioned_def sectorsOf_def)

lemma partitioned_has: "partitioned ids r \<Longrightarrow> i < numSectors r \<Longrightarrow> \<exists>n \<in> ids. sectorMap r i = Some n"
  by (metis (no_types, lifting) atLeastLessThan_iff domIff option.exhaust partitioned_def partitioned_owner zero_le)

lemma partitioned_total:
  assumes "partitioned ids r" and "finite ids"
  shows "(\<Sum>n \<in> ids. length (sectorsOf r n)) = numSectors r"
proof -
  have "(\<Sum>n \<in> ids. length (sectorsOf r n)) = (\<Sum>n \<in> ids. card (set (sectorsOf r n)))"
    using assms(1) by (simp add: partitioned_def distinct_card)
  also have "\<dots> = card (\<Union>n \<in> ids. set (sectorsOf r n))"
    using assms by (subst card_UN_disjoint) (auto simp: partitioned_def)
  also have "(\<Union>n \<in> ids. set (sectorsOf r n)) = {0..<numSectors r}"
    using assms(1) partitioned_has[OF assms(1)] by (auto simp: partitioned_def)
  finally show ?thesis by simp
qed

lemma owners_all_own:
  assumes "wf_ring r" and "all_own r"
  shows "owners r = set (nodeIDs r)"
proof
  have part: "partitioned (set (nodeIDs r)) r" using assms(1) by (simp add: wf_ring_def)
  then show "owners r \<subseteq> set (nodeIDs r)"
    using partitioned_has[OF part] by (force simp: owners_def GetNodeID_def)
  show "set (nodeIDs r) \<subseteq> owners r"
  proof
    fix n assume "n \<in> set (nodeIDs r)"
    then obtain i where "i \<in> set (sectorsOf r n)"
      using assms(2) by (metis all_own_def list.set_sel(1))
    then have i: "sectorMap r i = Some n" using part by (simp add: partitioned_def)
    then have "i < numSectors r" using part by (auto simp: partitioned_def)
    then show "n \<in> owners r" using i by (force simp: owners_def GetNodeID_def)
  qed
qed

lemma neighborTarget_own:
  assumes "wf_ring r" and "all_own r"
  shows "0 \<le> neighborTarget r \<and> neighborTarget r \<le> int (card (owners r))"
  using assms by (auto simp: neighborTarget_def owners_all_own distinct_card wf_ring_def Let_def)

subsection \<open>Moving sectors\<close>

text \<open>The sectors of \<open>P\<close> are in no node's list, whatever \<open>sectorMap\<close> still says of them.\<close>

definition pending :: "nat set \<Rightarrow> string set \<Rightarrow> ConsistentHashRing \<Rightarrow> bool" where
  "pending P ids r \<longleftrightarrow>
     (\<forall>n. nodes r n \<noteq> None \<longrightarrow> n \<in> ids) \<and>
     (\<forall>n. distinct (sectorsOf r n)) \<and>
     (\<forall>n i. i \<in> set (sectorsOf r n) \<longleftrightarrow> i \<notin> P \<and> sectorMap r i = Some n) \<and>
     dom (sectorMap r) \<union> P = {0..<numSectors r}"

lemma pending_empty: "pending {} ids r \<longleftrightarrow> partitioned ids r"
  by (simp add: pending_def partitioned_def)

lemma pending_give:
  "pending P ids r \<Longrightarrow> s \<in> P \<Longrightarrow> n \<in> ids \<Longrightarrow> pending (P - {s}) ids (giveSector n s r)"
  by (auto simp: pending_def)

lemma sectorsOf_upd: "sectorsOf (r\<lparr>nodes := (nodes r)(a \<mapsto> rest)\<rparr>) n = (if n = a then rest else sectorsOf r n)"
  by (simp add: sectorsOf_def)

lemma partitioned_take:
  assumes "partitioned ids r" and "sectorsOf r a = s # rest"
  shows "pending {s} ids (r\<lparr>nodes := (nodes r)(a \<mapsto> rest)\<rparr>)"
proof -
  note upd = sectorsOf_upd
  have a: "nodes r a \<noteq> None" using assms(2) by (auto simp: sectorsOf_def split: option.splits)
  have mem: "\<And>n i. i \<in> set (sectorsOf r n) \<longleftrightarrow> sectorMap r i = Some n"
    using assms(1) by (simp add: partitioned_def)
  have s: "sectorMap r s = Some a" using mem[of s a] assms(2) by simp
  have d: "distinct (s # rest)" using assms by (metis partitioned_def)
  have "i \<in> set (if n = a then rest else sectorsOf r n) \<longleftrightarrow> i \<notin> {s} \<and> sectorMap r i = Some n" for n i
    using mem[of i n] mem[of i a] assms(2) s d by auto
  then show ?thesis
    using assms(1) a d s unfolding pending_def upd partitioned_def by (auto simp: upd)
qed


subsection \<open>Distributing sectors\<close>

definition sameConfig :: "ConsistentHashRing \<Rightarrow> ConsistentHashRing \<Rightarrow> bool" where
  "sameConfig r r' \<longleftrightarrow> numReplicas r' = numReplicas r \<and> numBackups r' = numBackups r
     \<and> numSectors r' = numSectors r \<and> numServers r' = numServers r
     \<and> bucketsPerSector r' = bucketsPerSector r \<and> hashFunc r' = hashFunc r \<and> nodeIDs r' = nodeIDs r"

lemma assignSectors_ok:
  assumes "numServers r = int (length (nodeIDs r))" and "nodeIDs r \<noteq> []"
    and "length is = length secs" and "distinct secs" and "set secs \<subseteq> P"
    and "pending P (set (nodeIDs r)) r" and "dom (nodes r) = set (nodeIDs r)"
  shows "\<exists>r'. assignSectors (zip is secs) r = Inr r' \<and> sameConfig r r'
    \<and> pending (P - set secs) (set (nodeIDs r)) r' \<and> dom (nodes r') = set (nodeIDs r)
    \<and> (\<forall>i. i \<notin> set secs \<longrightarrow> sectorMap r' i = sectorMap r i)
    \<and> (\<forall>j < length secs. sectorMap r' (secs ! j) = Some (nodeIDs r ! (is ! j mod length (nodeIDs r))))"
  using assms(3,1,2,4-)
proof (induction "is" secs arbitrary: r P rule: list_induct2)
  case (Cons i "is" s secs)
  let ?n = "nodeIDs r ! (i mod length (nodeIDs r))" and ?r = "giveSector (nodeIDs r ! (i mod length (nodeIDs r))) s r"
  have idx: "nat (int i mod int (length (nodeIDs r))) = i mod length (nodeIDs r)"
    by (metis nat_int zmod_int)
  have n: "?n \<in> set (nodeIDs r)" using Cons.prems(2) by simp
  have step: "assignSectors (zip (i # is) (s # secs)) r = assignSectors (zip is secs) ?r"
  proof -
    have "\<not> length (nodeIDs r) \<le> i mod length (nodeIDs r)" using Cons.prems(2) by (simp add: not_le)
    then show ?thesis using Cons.prems(1,2) by (simp add: Let_def idx)
  qed
  have pend: "pending (P - {s}) (set (nodeIDs r)) ?r" using pending_give Cons.prems(4,5) n by simp
  have doms: "dom (nodes ?r) = set (nodeIDs r)"
    using Cons.prems(6) n by (simp add: insert_absorb)
  have sub: "set secs \<subseteq> P - {s}" "distinct secs" using Cons.prems(3,4) by auto
  have cfg: "numServers ?r = int (length (nodeIDs r))" "nodeIDs ?r = nodeIDs r"
    using Cons.prems(1) by simp_all
  obtain r' where r': "assignSectors (zip is secs) ?r = Inr r'" "sameConfig ?r r'"
      "pending (P - {s} - set secs) (set (nodeIDs r)) r'" "dom (nodes r') = set (nodeIDs r)"
      "\<And>i. i \<notin> set secs \<Longrightarrow> sectorMap r' i = sectorMap ?r i"
      "\<And>j. j < length secs \<Longrightarrow> sectorMap r' (secs ! j) = Some (nodeIDs r ! (is ! j mod length (nodeIDs r)))"
    using Cons.IH[of ?r "P - {s}", unfolded cfg(2), OF cfg(1) Cons.prems(2) sub(2,1) pend doms] by blast
  have "P - {s} - set secs = P - set (s # secs)" by auto
  moreover have "sectorMap r' s = Some ?n" using r'(5)[of s] Cons.prems(3) by simp
  ultimately show ?case
    unfolding step
    using r' by (intro exI[of _ r']) (auto simp: sameConfig_def nth_Cons split: nat.splits)
qed (auto simp: sameConfig_def)

lemma fold_empty_nodes: "fold (\<lambda>n m. m(n \<mapsto> [])) ids m = (\<lambda>n. if n \<in> set ids then Some [] else m n)"
  by (induction ids arbitrary: m) auto

lemma MakeConsistentHashRing_ok:
  assumes "distinct ids" and "'''' \<notin> set ids" and "ids \<noteq> []" and "length ids \<le> nSectors"
    and "nSectors * 256 \<le> 2 ^ 32"
  shows "\<exists>r. MakeConsistentHashRing nReplicas nSectors (int (length ids)) ids = Inr r
    \<and> wf_ring r \<and> all_own r \<and> numReplicas r = nReplicas \<and> numBackups r = 0 \<and> numSectors r = nSectors
    \<and> nodeIDs r = ids \<and> hashFunc r = Hash
    \<and> (\<forall>i < nSectors. sectorMap r i = Some (ids ! (i mod length ids)))"
proof -
  define r0 where "r0 = \<lparr>numReplicas = nReplicas, numBackups = 0, numSectors = nSectors,
     numServers = int (length ids), bucketsPerSector = 256, hashFunc = Hash, nodeIDs = ids,
     nodes = fold (\<lambda>n m. m(n \<mapsto> [])) ids Map.empty, sectorMap = Map.empty\<rparr>"
  have p0: "pending {0..<nSectors} (set ids) r0" and d0: "dom (nodes r0) = set ids"
    by (auto simp: pending_def r0_def sectorsOf_def fold_empty_nodes split: if_splits)
  obtain r where r: "assignSectors (zip [0..<nSectors] [0..<nSectors]) r0 = Inr r" "sameConfig r0 r"
      "pending ({0..<nSectors} - {0..<nSectors}) (set ids) r" "dom (nodes r) = set ids"
      "\<And>j. j < nSectors \<Longrightarrow> sectorMap r j = Some (ids ! (j mod length ids))"
    using assignSectors_ok[of r0 "[0..<nSectors]" "[0..<nSectors]" "{0..<nSectors}"] p0 d0 assms
    by (auto simp: r0_def)
  have part: "partitioned (set ids) r" using r(3) by (simp add: pending_empty)
  have "sectorsOf r n \<noteq> []" if "n \<in> set ids" for n
  proof -
    obtain j where j: "j < length ids" "n = ids ! j" using \<open>n \<in> set ids\<close> by (metis in_set_conv_nth)
    then have "sectorMap r j = Some n" using r(5)[of j] assms(4) by simp
    then show ?thesis using part by (metis empty_iff list.set(1) partitioned_def)
  qed
  then show ?thesis
    using r part assms by (auto simp: MakeConsistentHashRing_def r0_def wf_ring_def all_own_def sameConfig_def)
qed

subsection \<open>Adding a node\<close>

lemma richest_fold:
  assumes "a \<noteq> ''''" and "'''' \<notin> set ids"
  shows "\<exists>b. fold (\<lambda>n (richest, m). if richest = '''' \<or> length (sectorsOf r n) > m
                then (n, length (sectorsOf r n)) else (richest, m)) ids (a, length (sectorsOf r a))
           = (b, length (sectorsOf r b))
         \<and> b \<in> insert a (set ids) \<and> (\<forall>n \<in> insert a (set ids). length (sectorsOf r n) \<le> length (sectorsOf r b))"
  using assms
proof (induction ids arbitrary: a)
  case (Cons n ids)
  show ?case
  proof (cases "length (sectorsOf r n) > length (sectorsOf r a)")
    case True
    then show ?thesis using Cons.IH[of n] Cons.prems by fastforce
  next
    case False
    then show ?thesis using Cons.IH[of a] Cons.prems by fastforce
  qed
qed auto

lemma GetRichestNode_max:
  assumes "nodeIDs r \<noteq> []" and "'''' \<notin> set (nodeIDs r)"
  shows "GetRichestNode r \<in> set (nodeIDs r) \<and>
    (\<forall>n \<in> set (nodeIDs r). length (sectorsOf r n) \<le> length (sectorsOf r (GetRichestNode r)))"
proof -
  obtain a ids where ids: "nodeIDs r = a # ids" using assms(1) by (cases "nodeIDs r") auto
  then show ?thesis using richest_fold[of a ids r] assms(2) by (auto simp: GetRichestNode_def)
qed

text \<open>
  While fewer than \<open>T\<close> sectors have moved and \<open>T * (S + 1) \<le> Q\<close>, the richest of the \<open>S\<close> old
  nodes owns more than \<open>T\<close> sectors.
\<close>

lemma richest_rich:
  assumes part: "partitioned (insert new (set (nodeIDs r))) r" and "new \<notin> set (nodeIDs r)"
    and ids: "nodeIDs r \<noteq> []" "'''' \<notin> set (nodeIDs r)" "distinct (nodeIDs r)"
    and "length (sectorsOf r new) < T" and "T * (length (nodeIDs r) + 1) \<le> numSectors r"
  shows "T < length (sectorsOf r (GetRichestNode r))"
proof (rule ccontr)
  assume "\<not> T < length (sectorsOf r (GetRichestNode r))"
  then have "\<forall>n \<in> set (nodeIDs r). length (sectorsOf r n) \<le> T"
    using GetRichestNode_max[OF ids(1,2)] by (meson le_trans not_less)
  then have "(\<Sum>n \<in> set (nodeIDs r). length (sectorsOf r n)) \<le> T * length (nodeIDs r)"
    using sum_bounded_above[of "set (nodeIDs r)" "\<lambda>n. length (sectorsOf r n)" T] ids(3)
    by (simp add: distinct_card mult.commute)
  moreover have "(\<Sum>n \<in> set (nodeIDs r). length (sectorsOf r n)) + length (sectorsOf r new) = numSectors r"
    using partitioned_total[OF part] assms(2) by simp
  ultimately show False using assms(6,7) by simp
qed

lemma takeSectors_ok:
  assumes "partitioned (insert new (set (nodeIDs r))) r" and "new \<notin> set (nodeIDs r)"
    and "nodeIDs r \<noteq> []" and "'''' \<notin> set (nodeIDs r)" and "distinct (nodeIDs r)"
    and "length (sectorsOf r new) + k \<le> T" and "T * (length (nodeIDs r) + 1) \<le> numSectors r"
    and "dom (nodes r) - {new} = set (nodeIDs r)"
  shows "\<exists>r'. takeSectors k new r = Inr r' \<and> sameConfig r r'
    \<and> partitioned (insert new (set (nodeIDs r))) r' \<and> dom (nodes r') - {new} = set (nodeIDs r)
    \<and> length (sectorsOf r' new) = length (sectorsOf r new) + k
    \<and> (\<forall>i. sectorMap r' i = sectorMap r i \<or> sectorMap r' i = Some new)
    \<and> (\<forall>n \<in> set (nodeIDs r). sectorsOf r n \<noteq> [] \<longrightarrow> sectorsOf r' n \<noteq> [])
    \<and> (0 < k \<longrightarrow> nodes r' new \<noteq> None)"
  using assms
proof (induction k arbitrary: r)
  case (Suc k)
  let ?a = "GetRichestNode r"
  have a: "?a \<in> set (nodeIDs r)" using GetRichestNode_max Suc.prems(3,4) by blast
  have rich: "T < length (sectorsOf r ?a)" using richest_rich Suc.prems by simp
  have T: "0 < T" using Suc.prems(6) by simp
  obtain s rest where s: "sectorsOf r ?a = s # rest" using rich by (cases "sectorsOf r ?a") auto
  have rest: "rest \<noteq> []" using rich T s by auto
  let ?r = "giveSector new s (r\<lparr>nodes := (nodes r)(?a \<mapsto> rest)\<rparr>)"
  have an: "new \<noteq> ?a" using a Suc.prems(2) by auto
  have part: "partitioned (insert new (set (nodeIDs r))) ?r"
    using pending_give[OF partitioned_take[OF Suc.prems(1) s], of s new] by (simp add: pending_empty)
  have sec: "sectorsOf ?r n = (if n = new then sectorsOf r new @ [s] else if n = ?a then rest else sectorsOf r n)" for n
    using an by (simp add: sectorsOf_upd)
  have cfg: "nodeIDs ?r = nodeIDs r" "numSectors ?r = numSectors r"
    "length (sectorsOf ?r new) + k \<le> T" using Suc.prems(6) sec[of new] by simp_all
  have doms: "dom (nodes ?r) - {new} = set (nodeIDs r)"
    using Suc.prems(2,8) a by (auto simp: domIff)
  obtain r' where r': "takeSectors k new ?r = Inr r'" "sameConfig ?r r'"
      "partitioned (insert new (set (nodeIDs r))) r'" "dom (nodes r') - {new} = set (nodeIDs r)"
      "length (sectorsOf r' new) = length (sectorsOf ?r new) + k"
      "\<And>i. sectorMap r' i = sectorMap ?r i \<or> sectorMap r' i = Some new"
      "\<And>n. n \<in> set (nodeIDs r) \<Longrightarrow> sectorsOf ?r n \<noteq> [] \<Longrightarrow> sectorsOf r' n \<noteq> []"
      "0 < k \<longrightarrow> nodes r' new \<noteq> None"
    using Suc.IH[of ?r, unfolded cfg(1,2), OF part Suc.prems(2-5) cfg(3) Suc.prems(7) doms] by blast
  have "nodes r' new \<noteq> None"
    using r'(5) sec[of new] by (auto simp: sectorsOf_def split: option.splits)
  moreover have "sectorMap r' i = sectorMap r i \<or> sectorMap r' i = Some new" for i
    using r'(6)[of i] by (auto split: if_splits)
  moreover have "sectorsOf r' n \<noteq> []" if "n \<in> set (nodeIDs r)" "sectorsOf r n \<noteq> []" for n
    using r'(7)[of n] that sec[of n] rest by auto
  ultimately show ?case
    using r'(1-5) sec[of new] by (auto simp: TakeSectorFrom_def s sameConfig_def)
qed (auto simp: sameConfig_def)

lemma AddNode_ok:
  assumes wf: "wf_ring r" and own: "all_own r" and new: "new \<notin> set (nodeIDs r)" "new \<noteq> ''''"
    and ne: "nodeIDs r \<noteq> []" and room: "length (nodeIDs r) + 1 \<le> numSectors r"
  shows "\<exists>r'. AddNode new r = Inr r' \<and> wf_ring r' \<and> all_own r' \<and> nodeIDs r' = nodeIDs r @ [new]
    \<and> (\<forall>i. sectorMap r' i = sectorMap r i \<or> sectorMap r' i = Some new)
    \<and> card {i. sectorMap r' i \<noteq> sectorMap r i} = numSectors r div (length (nodeIDs r) + 1)"
proof -
  let ?S = "length (nodeIDs r)"
  define T where "T = numSectors r div (?S + 1)"
  have T: "0 < T" using room by (simp add: T_def div_greater_zero_iff)
  have tgt: "nat (int (numSectors r) div (numServers r + 1)) = T"
  proof -
    have "numServers r + 1 = int (?S + 1)" using wf by (simp add: wf_ring_def)
    then show ?thesis by (simp only: T_def nat_int flip: zdiv_int)
  qed
  have part: "partitioned (set (nodeIDs r)) r" using wf by (simp add: wf_ring_def)
  have absent: "nodes r new = None" using wf new(1) by (auto simp: wf_ring_def)
  then have none: "sectorsOf r new = []" by (simp add: sectorsOf_def)
  have part1: "partitioned (insert new (set (nodeIDs r))) r" using part by (auto simp: partitioned_def)
  have "T * (?S + 1) \<le> numSectors r" by (simp only: T_def div_times_less_eq_dividend)
  then have pre: "'''' \<notin> set (nodeIDs r)" "distinct (nodeIDs r)" "length (sectorsOf r new) + T \<le> T"
    "T * (?S + 1) \<le> numSectors r" "dom (nodes r) - {new} = set (nodeIDs r)"
    using wf new none by (auto simp: wf_ring_def)
  obtain r' where r': "takeSectors T new r = Inr r'" "sameConfig r r'"
      "partitioned (insert new (set (nodeIDs r))) r'" "dom (nodes r') - {new} = set (nodeIDs r)"
      "length (sectorsOf r' new) = T" "\<And>i. sectorMap r' i = sectorMap r i \<or> sectorMap r' i = Some new"
      "\<And>n. n \<in> set (nodeIDs r) \<Longrightarrow> sectorsOf r n \<noteq> [] \<Longrightarrow> sectorsOf r' n \<noteq> []" "nodes r' new \<noteq> None"
    using takeSectors_ok[OF part1 new(1) ne pre] T none by auto
  let ?r = "r'\<lparr>nodeIDs := nodeIDs r' @ [new], numServers := numServers r' + 1\<rparr>"
  have sec: "sectorsOf (r'\<lparr>nodeIDs := a, numServers := b\<rparr>) = sectorsOf r'" for a b
    by (rule ext) (simp add: sectorsOf_def)
  have part2: "partitioned (set (nodeIDs r @ [new])) (r'\<lparr>nodeIDs := a, numServers := b\<rparr>)" for a b
    using r'(3) by (simp add: partitioned_def sec)
  have add: "AddNode new r = Inr ?r"
    using wf r'(1) absent tgt by (simp add: AddNode_def Let_def wf_ring_def)
  have "{i. sectorMap r' i \<noteq> sectorMap r i} = set (sectorsOf r' new)"
  proof (intro equalityI subsetI)
    fix i assume "i \<in> set (sectorsOf r' new)"
    then have "sectorMap r' i = Some new" using r'(3) by (simp add: partitioned_def)
    then show "i \<in> {i. sectorMap r' i \<noteq> sectorMap r i}"
      using partitioned_owner[OF part] new(1) by auto
  qed (use r'(3,6) in \<open>auto simp: partitioned_def\<close>)
  moreover have "distinct (sectorsOf r' new)" using r'(3) by (simp add: partitioned_def)
  ultimately have "card {i. sectorMap r' i \<noteq> sectorMap r i} = T" using r'(5) by (simp add: distinct_card)
  moreover have "wf_ring ?r"
    using wf r'(2,4,8) new part2 by (auto simp: wf_ring_def sameConfig_def)
  moreover have "all_own ?r" using own r'(2,5,7) T by (auto simp: all_own_def sec sameConfig_def)
  ultimately show ?thesis using add r'(2,6) by (auto simp: T_def sameConfig_def)
qed

lemma deleteFromSlice_remove1: "deleteFromSlice l x = remove1 x l"
  by (induction l) auto

lemma partitioned_remove:
  assumes "partitioned ids r"
  shows "pending (set (sectorsOf r x)) (ids - {x})
    (r\<lparr>nodes := (nodes r)(x := None), nodeIDs := l, numServers := k\<rparr>)"
proof -
  let ?r = "r\<lparr>nodes := (nodes r)(x := None), nodeIDs := l, numServers := k\<rparr>"
  have sec: "sectorsOf ?r n = (if n = x then [] else sectorsOf r n)" for n
    by (simp add: sectorsOf_def)
  have mem: "\<And>n i. i \<in> set (sectorsOf r n) \<longleftrightarrow> sectorMap r i = Some n"
    and d: "\<And>n. distinct (sectorsOf r n)" and ids: "\<And>n. nodes r n \<noteq> None \<Longrightarrow> n \<in> ids"
    and dm: "dom (sectorMap r) = {0..<numSectors r}"
    using assms by (simp_all add: partitioned_def)
  have "set (sectorsOf r x) \<subseteq> dom (sectorMap r)" using mem by auto
  then show ?thesis
    unfolding pending_def sec using mem d ids dm by auto
qed

lemma RemoveNode_ok:
  assumes wf: "wf_ring r" and own: "all_own r" and x: "x \<in> set (nodeIDs r)" and two: "2 \<le> length (nodeIDs r)"
  shows "\<exists>r'. RemoveNode x r = Inr r' \<and> wf_ring r' \<and> all_own r' \<and> nodeIDs r' = remove1 x (nodeIDs r)
    \<and> (\<forall>i. sectorMap r i \<noteq> Some x \<longrightarrow> sectorMap r' i = sectorMap r i)"
proof -
  let ?mv = "sectorsOf r x" and ?ids = "remove1 x (nodeIDs r)"
  define r0 where "r0 = r\<lparr>nodes := (nodes r)(x := None), nodeIDs := ?ids, numServers := numServers r - 1\<rparr>"
  have part: "partitioned (set (nodeIDs r)) r" and d: "distinct (nodeIDs r)" using wf by (simp_all add: wf_ring_def)
  have ids: "set ?ids = set (nodeIDs r) - {x}" "length ?ids = length (nodeIDs r) - 1"
    using d x by (simp_all add: length_remove1)
  have r0: "numServers r0 = int (length (nodeIDs r0))" "nodeIDs r0 \<noteq> []" "nodeIDs r0 = ?ids"
    using wf ids(2) two by (auto simp: r0_def wf_ring_def)
  have p0: "pending (set ?mv) (set (nodeIDs r0)) r0"
    using partitioned_remove[OF part, of x] ids(1) by (simp add: r0_def)
  have d0: "dom (nodes r0) = set (nodeIDs r0)" using wf ids(1) by (auto simp: r0_def wf_ring_def)
  have dm: "distinct ?mv" using part by (simp add: partitioned_def)
  obtain r' where r': "assignSectors (zip [0..<length ?mv] ?mv) r0 = Inr r'" "sameConfig r0 r'"
      "pending (set ?mv - set ?mv) (set (nodeIDs r0)) r'" "dom (nodes r') = set (nodeIDs r0)"
      "\<And>i. i \<notin> set ?mv \<Longrightarrow> sectorMap r' i = sectorMap r0 i"
    using assignSectors_ok[of r0 "[0..<length ?mv]" ?mv "set ?mv"] r0(1,2) p0 d0 dm by auto
  have rem: "RemoveNode x r = Inr r'"
    using r'(1) by (simp add: RemoveNode_def Let_def deleteFromSlice_remove1 r0_def)
  have part': "partitioned (set ?ids) r'" using r'(3) r0(3) by (simp add: pending_empty)
  have keep: "sectorMap r' i = sectorMap r i" if "sectorMap r i \<noteq> Some x" for i
    using r'(5)[of i] that part by (simp add: r0_def partitioned_def)
  have "sectorsOf r' n \<noteq> []" if n: "n \<in> set ?ids" for n
  proof -
    obtain i where "i \<in> set (sectorsOf r n)"
      using n ids(1) own by (metis DiffD1 all_own_def list.set_sel(1))
    then have "sectorMap r i = Some n" using part by (simp add: partitioned_def)
    then have "sectorMap r' i = Some n" using keep[of i] n ids(1) by auto
    then show ?thesis using part' by (metis empty_iff list.set(1) partitioned_def)
  qed
  moreover have "wf_ring r'"
  proof -
    have "nodeIDs r' = ?ids" "numSectors r' = numSectors r" "bucketsPerSector r' = bucketsPerSector r"
        "numServers r' = int (length ?ids)"
      using r'(2) r0 by (simp_all add: sameConfig_def) (simp_all add: r0_def)
    then show ?thesis using wf r'(4) part' r0(3) ids(1) d by (simp add: wf_ring_def)
  qed
  ultimately show ?thesis
    using r'(2) r0(3) keep rem by (auto simp: all_own_def sameConfig_def)
qed

subsection \<open>Preference lists as an interface\<close>

text \<open>
  What the coordinator relies on: a usable configuration gives every key a list of distinct
  members, of a length that does not depend on the key.
\<close>

locale preference_lists =
  fixes usable :: "'ring \<Rightarrow> bool" and pref :: "'ring \<Rightarrow> 'key \<Rightarrow> 'node list"
    and members :: "'ring \<Rightarrow> 'node set" and size_of :: "'ring \<Rightarrow> nat"
  assumes pref_distinct: "usable r \<Longrightarrow> distinct (pref r k)"
    and pref_members: "usable r \<Longrightarrow> set (pref r k) \<subseteq> members r"
    and pref_length: "usable r \<Longrightarrow> length (pref r k) = size_of r"
begin

lemma quorums_meet:
  assumes "usable r" and "A \<subseteq> set (pref r k)" and "B \<subseteq> set (pref r k)"
    and "size_of r < card A + card B"
  shows "\<exists>n \<in> members r. n \<in> A \<and> n \<in> B"
proof -
  have "length (pref r k) < card A + card B"
    using assms pref_length[OF assms(1), of k] by simp
  then have "A \<inter> B \<noteq> {}" by (rule quorums_intersect[OF assms(2,3)])
  then show ?thesis using assms pref_members[OF assms(1), of k] by blast
qed

lemma member_has_place:
  "usable r \<Longrightarrow> n \<in> set (pref r k) \<Longrightarrow> \<exists>!i. i < size_of r \<and> pref r k ! i = n"
  using pref_distinct pref_length by (metis in_set_conv_nth nth_eq_iff_index_eq)

end

definition ready_ring :: "ConsistentHashRing \<Rightarrow> bool" where
  "ready_ring r \<longleftrightarrow> wf_ring r \<and> all_own r"

definition preferenceOf :: "ConsistentHashRing \<Rightarrow> string \<Rightarrow> string list" where
  "preferenceOf r k = take (nat (neighborTarget r)) (fold gs_add (ringWalk r (fst (GetLocation r k))) [])"

lemma location_ready: "ready_ring r \<Longrightarrow> fst (GetLocation r k) < numSectors r"
  using GetLocation_bounds by (simp add: ready_ring_def wf_ring_def)

lemma GetPreferenceList_ready:
  assumes "ready_ring r"
  shows "GetPreferenceList r k = Some (Inr (preferenceOf r k))"
  using GetNeighbors_walk[OF _ _ location_ready[OF assms, of k]] assms neighborTarget_own[of r]
  by (auto simp: GetPreferenceList_def preferenceOf_def ready_ring_def)

lemma walk_owners_ready: "ready_ring r \<Longrightarrow> set (ringWalk r s) = set (nodeIDs r)"
  by (simp add: set_ringWalk owners_all_own ready_ring_def)

interpretation chr: preference_lists ready_ring preferenceOf "\<lambda>r. set (nodeIDs r)" "\<lambda>r. nat (neighborTarget r)"
proof
  fix r :: ConsistentHashRing and k :: string
  assume r: "ready_ring r"
  show "distinct (preferenceOf r k)" by (simp add: preferenceOf_def)
  have s: "set (fold gs_add (ringWalk r (fst (GetLocation r k))) []) = set (nodeIDs r)"
    using walk_owners_ready[OF r] by simp
  then show "set (preferenceOf r k) \<subseteq> set (nodeIDs r)"
    by (metis preferenceOf_def set_take_subset)
  show "length (preferenceOf r k) = nat (neighborTarget r)"
    using neighborTarget_own[of r] owners_all_own[of r] r walk_owners_ready[OF r]
    by (auto simp: preferenceOf_def length_fold_gs_add ready_ring_def)
qed

subsection \<open>A small ring\<close>

definition sampleRing :: ConsistentHashRing where
  "sampleRing = \<lparr>numReplicas = 2, numBackups = 0, numSectors = 4, numServers = 2, bucketsPerSector = 2,
     hashFunc = (\<lambda>_. 0), nodeIDs = [''a'', ''b''],
     nodes = [''a'' \<mapsto> [0, 2], ''b'' \<mapsto> [1, 3]],
     sectorMap = [0 \<mapsto> ''a'', 1 \<mapsto> ''b'', 2 \<mapsto> ''a'', 3 \<mapsto> ''b'']\<rparr>"

lemma sampleRing_ready: "ready_ring sampleRing"
  by (auto simp: ready_ring_def wf_ring_def all_own_def partitioned_def sectorsOf_def sampleRing_def
      split: if_splits)

lemma sampleRing_fields [simp]:
  "numReplicas sampleRing = 2" "numSectors sampleRing = 4" "bucketsPerSector sampleRing = 2"
  "nodeIDs sampleRing = [''a'', ''b'']" "neighborTarget sampleRing = 2"
  by (simp_all add: sampleRing_def neighborTarget_def)

lemma sampleRing_location [simp]: "GetLocation sampleRing k = (0, 0)"
  by (simp add: GetLocation_def sampleRing_def)

subsection \<open>Properties\<close>

text \<open>
  the key space is divided without gaps: as long as the number of buckets fits the 32-bit
  hash, the fixed-point product does not overflow 64 bits and every key gets a sector and a
  bucket that exist, in proportion to its hash.
\<close>

theorem location_in_range:
  assumes "0 < numSectors r * bucketsPerSector r" and "numSectors r * bucketsPerSector r \<le> 2 ^ 32"
  shows "fst (GetLocation r k) < numSectors r \<and> snd (GetLocation r k) < bucketsPerSector r
    \<and> fst (GetLocation r k) * bucketsPerSector r + snd (GetLocation r k) =
        (numSectors r * bucketsPerSector r * unat (hashFunc r k)) div 2 ^ 32"
  using GetLocation_bounds[OF assms, of k] GetLocation_position[OF assms(2), of k]
  by (simp add: GetLocation_def Let_def del: of_nat_mult)

theorem location_in_range_witness: "fst (GetLocation sampleRing ''k'') < 4 \<and> snd (GetLocation sampleRing ''k'') < 2"
  using location_in_range[of sampleRing "''k''"] by simp

text \<open>
  C17: a new ring over distinct, named nodes, not more than sectors, is well formed: every
  sector has exactly one owner, sector \<open>i\<close> belongs to node \<open>i\<close> modulo the number of nodes, and
  every node owns a sector; construction does not panic.
\<close>

theorem new_ring_partitioned:
  assumes "distinct ids" and "'''' \<notin> set ids" and "ids \<noteq> []" and "length ids \<le> nSectors"
    and "nSectors * 256 \<le> 2 ^ 32"
  shows "\<exists>r. MakeConsistentHashRing nReplicas nSectors (int (length ids)) ids = Inr r
    \<and> ready_ring r \<and> numReplicas r = nReplicas \<and> nodeIDs r = ids
    \<and> (\<forall>i < nSectors. sectorMap r i = Some (ids ! (i mod length ids)))"
  using MakeConsistentHashRing_ok[OF assms, of nReplicas] by (auto simp: ready_ring_def)

theorem new_ring_partitioned_witness:
  "\<exists>r. MakeConsistentHashRing 2 5 3 [''a'', ''b'', ''c''] = Inr r \<and> ready_ring r"
  using new_ring_partitioned[of "[''a'', ''b'', ''c'']" 5 2] by auto

text \<open>
  C16: on a well-formed ring the search for the preference list of a key returns, and its
  result is the first distinct owners met when walking the ring from the key's sector:
  distinct members, as many as the replication target, the coordinator first.
\<close>

theorem preference_list_walk:
  assumes "ready_ring r"
  shows "GetPreferenceList r k = Some (Inr (take (nat (neighborTarget r)) (fold gs_add (ringWalk r (fst (GetLocation r k))) [])))
    \<and> distinct (preferenceOf r k) \<and> set (preferenceOf r k) \<subseteq> set (nodeIDs r)
    \<and> length (preferenceOf r k) = nat (neighborTarget r)
    \<and> (preferenceOf r k = [] \<or> hd (preferenceOf r k) = GetCoordinator r k)"
proof -
  let ?s = "fst (GetLocation r k)"
  have "0 < numSectors r" using assms by (simp add: ready_ring_def wf_ring_def)
  then have "ringWalk r ?s = GetCoordinator r k # tl (ringWalk r ?s)"
    using location_ready[OF assms, of k] nth_ringWalk[of 0 r ?s]
    by (cases "ringWalk r ?s") (auto simp: GetCoordinator_def simp flip: length_0_conv)
  then obtain zs where "fold gs_add (ringWalk r ?s) [] = GetCoordinator r k # zs"
    using fold_gs_add_prefix[of "tl (ringWalk r ?s)" "[GetCoordinator r k]"]
    by (metis append_Cons append_Nil fold_simps(2) gs_add_def list.set(1) empty_iff)
  then have "preferenceOf r k = [] \<or> hd (preferenceOf r k) = GetCoordinator r k"
    by (cases "nat (neighborTarget r)") (simp_all add: preferenceOf_def)
  then show ?thesis
    using GetPreferenceList_ready[OF assms, of k] chr.pref_distinct[OF assms] chr.pref_members[OF assms]
      chr.pref_length[OF assms] by (simp add: preferenceOf_def)
qed

theorem preference_list_walk_witness:
  "GetPreferenceList sampleRing ''k'' = Some (Inr (preferenceOf sampleRing ''k'')) \<and> length (preferenceOf sampleRing ''k'') = 2"
  using preference_list_walk[OF sampleRing_ready, of "''k''"] by (simp add: preferenceOf_def)

text \<open>
  when the sectors have fewer owners than the replication target, the search for
  neighbours never returns.
\<close>

theorem neighbors_search_diverges:
  assumes "sid < numSectors r" and "int (card (owners r)) < neighborTarget r"
  shows "GetNeighbors r sid = None"
  using assms by (rule GetNeighbors_stuck)

theorem neighbors_search_diverges_witness:
  "GetNeighbors (sampleRing\<lparr>numReplicas := 3, numServers := 3, nodeIDs := [''a'', ''b'', ''c'']\<rparr>) 1 = None"
proof -
  let ?r = "sampleRing\<lparr>numReplicas := 3, numServers := 3, nodeIDs := [''a'', ''b'', ''c'']\<rparr>"
  have "owners ?r \<subseteq> {''a'', ''b''}"
    by (auto simp: owners_def GetNodeID_def sampleRing_def split: option.splits if_splits)
  then have "card (owners ?r) \<le> 2" using card_mono[of "{''a'', ''b''}" "owners ?r"] by simp
  moreover have "neighborTarget ?r = 3" by (simp add: neighborTarget_def sampleRing_def)
  ultimately show ?thesis using neighbors_search_diverges[of 1 ?r] by simp
qed

text \<open>
  C18: adding a node moves sectors only to the new node, exactly its share of them, and leaves
  a well-formed ring in which every node still owns a sector.
\<close>

theorem add_node_moves_share:
  assumes "ready_ring r" and "new \<notin> set (nodeIDs r)" and "new \<noteq> ''''"
    and "nodeIDs r \<noteq> []" and "length (nodeIDs r) + 1 \<le> numSectors r"
  shows "\<exists>r'. AddNode new r = Inr r' \<and> ready_ring r' \<and> nodeIDs r' = nodeIDs r @ [new]
    \<and> (\<forall>i. sectorMap r' i = sectorMap r i \<or> sectorMap r' i = Some new)
    \<and> card {i. sectorMap r' i \<noteq> sectorMap r i} = numSectors r div (length (nodeIDs r) + 1)"
proof -
  have "wf_ring r" "all_own r" using assms(1) by (simp_all add: ready_ring_def)
  from AddNode_ok[OF this assms(2-)] show ?thesis by (auto simp: ready_ring_def)
qed

theorem add_node_moves_share_witness:
  "\<exists>r'. AddNode ''c'' sampleRing = Inr r' \<and> card {i. sectorMap r' i \<noteq> sectorMap sampleRing i} = 1"
  using add_node_moves_share[OF sampleRing_ready, of "''c''"] by auto

text \<open>
  removing a node of a ring with at least two nodes moves only the sectors that node
  owned; the ring stays well formed and every remaining node keeps what it had.
\<close>

theorem remove_node_moves_own:
  assumes "ready_ring r" and "x \<in> set (nodeIDs r)" and "2 \<le> length (nodeIDs r)"
  shows "\<exists>r'. RemoveNode x r = Inr r' \<and> ready_ring r' \<and> nodeIDs r' = remove1 x (nodeIDs r)
    \<and> (\<forall>i. sectorMap r' i \<noteq> sectorMap r i \<longrightarrow> sectorMap r i = Some x)"
proof -
  have "wf_ring r" "all_own r" using assms(1) by (simp_all add: ready_ring_def)
  from RemoveNode_ok[OF this assms(2-)] show ?thesis by (auto simp: ready_ring_def)
qed

theorem remove_node_moves_own_witness:
  "\<exists>r'. RemoveNode ''a'' sampleRing = Inr r' \<and> ready_ring r' \<and> nodeIDs r' = [''b'']"
  using remove_node_moves_own[OF sampleRing_ready, of "''a''"] by auto

text \<open>
  removing a node that is not in the ring still decrements the server count, so the
  count no longer agrees with the node list and the ring is not well formed.
\<close>

theorem remove_unknown_node_miscounts:
  assumes "wf_ring r" and "x \<notin> set (nodeIDs r)"
  shows "\<exists>r'. RemoveNode x r = Inr r' \<and> nodeIDs r' = nodeIDs r \<and> numServers r' = numServers r - 1 \<and> \<not> wf_ring r'"
proof -
  have "nodes r x = None" using assms by (auto simp: wf_ring_def)
  then have "sectorsOf r x = []" by (simp add: sectorsOf_def)
  moreover have "remove1 x (nodeIDs r) = nodeIDs r" using assms(2) by (rule remove1_idem)
  ultimately show ?thesis using assms(1) by (simp add: RemoveNode_def Let_def deleteFromSlice_remove1 wf_ring_def)
qed

theorem remove_unknown_node_miscounts_witness:
  "\<exists>r'. RemoveNode ''z'' sampleRing = Inr r' \<and> numServers r' = 1 \<and> \<not> wf_ring r'"
  using remove_unknown_node_miscounts[of sampleRing "''z''"] sampleRing_ready
  by (auto simp: ready_ring_def sampleRing_def)

end
