(* ===== verification/VClock.thy ===== *)
theory VClock
  imports Prelude
begin

text \<open>
  Vector clocks, \<^verbatim>\<open>kvsrv/vclock/vclock.go\<close>. A clock is a Go map from node names to
  64-bit counters; an absent node counts zero. The theory models every operation of the
  file and shows that \<open>Compare\<close> decides the pointwise order of the counters whatever order
  the loop visits the nodes in, that \<open>Merge\<close> is the least upper bound and \<open>Increment\<close>
  moves a clock strictly up unless its 64-bit counter wraps.
\<close>

type_synonym VClock = "(string, u64) gomap"

datatype causality = Equal | Before | After | Concurrent

definition NewVClock :: VClock where
  "NewVClock = []"

definition GetVersion :: "VClock \<Rightarrow> string \<Rightarrow> u64" where
  "GetVersion v node = gm_get 0 v node"

definition SetVersion :: "string \<Rightarrow> u64 \<Rightarrow> VClock \<Rightarrow> VClock" where
  "SetVersion node version v = gm_put node version v"

definition Increment :: "string \<Rightarrow> VClock \<Rightarrow> VClock" where
  "Increment node v = gm_put node (gm_get 0 v node + 1) v"

definition GetAllNodes :: "VClock \<Rightarrow> VClock \<Rightarrow> string list" where
  "GetAllNodes v other = fold gs_add (map fst other) (fold gs_add (map fst v) [])"

definition GetNodes :: "VClock \<Rightarrow> string list" where
  "GetNodes v = map fst v"

definition CopyVC :: "VClock \<Rightarrow> VClock" where
  "CopyVC v = fold (\<lambda>(node, ver) cp. gm_put node ver cp) v NewVClock"

fun IsInitialVC :: "VClock \<Rightarrow> bool" where
  "IsInitialVC [] = True"
| "IsInitialVC ((_, ver) # v) = (if ver \<noteq> 0 then False else IsInitialVC v)"

fun CompareLoop :: "VClock \<Rightarrow> VClock \<Rightarrow> string list \<Rightarrow> bool \<Rightarrow> bool \<Rightarrow> causality" where
  "CompareLoop v other [] hasBefore hasAfter =
     (if hasBefore \<and> \<not> hasAfter then Before
      else if \<not> hasBefore \<and> hasAfter then After
      else if \<not> hasBefore \<and> \<not> hasAfter then Equal
      else Concurrent)"
| "CompareLoop v other (node # nodes) hasBefore hasAfter =
     (let before = (gm_get 0 v node < gm_get 0 other node);
          hasBefore' = (if before then True else hasBefore);
          hasAfter' = (if \<not> before \<and> gm_get 0 v node > gm_get 0 other node then True else hasAfter)
      in if hasBefore' \<and> hasAfter' then Concurrent
         else CompareLoop v other nodes hasBefore' hasAfter')"

definition CompareVC :: "VClock \<Rightarrow> VClock \<Rightarrow> causality" where
  "CompareVC v other = CompareLoop v other (GetAllNodes v other) False False"

definition MergeVC :: "VClock \<Rightarrow> VClock \<Rightarrow> VClock" where
  "MergeVC v other =
     fold (\<lambda>node v. gm_put node (max (gm_get 0 v node) (gm_get 0 other node)) v)
       (GetAllNodes v other) v"

record vcEntry =
  Node :: string
  Version :: u64

text \<open>\<^verbatim>\<open>strings.Compare\<close>: minus one, zero or one.\<close>

definition SortByNodeName :: "vcEntry \<Rightarrow> vcEntry \<Rightarrow> int" where
  "SortByNodeName a b = (if Node a < Node b then -1 else if Node a = Node b then 0 else 1)"

text \<open>The argument \<open>None\<close> is the Go \<^verbatim>\<open>nil\<close> sort function.\<close>

definition ToVCEntries :: "(vcEntry \<Rightarrow> vcEntry \<Rightarrow> int) option \<Rightarrow> VClock \<Rightarrow> vcEntry list" where
  "ToVCEntries sortFunc v =
     (let entries = map (\<lambda>(node, version). \<lparr>Node = node, Version = version\<rparr>) v;
          cmp = (case sortFunc of None \<Rightarrow> SortByNodeName | Some f \<Rightarrow> f)
      in go_sort (\<lambda>a b. cmp a b < 0) entries)"

subsection \<open>The order a clock denotes\<close>

text \<open>The abstract value of a clock: a counter for every node, ordered pointwise.\<close>

definition vc_fun :: "VClock \<Rightarrow> string \<Rightarrow> u64" where
  "vc_fun v = (\<lambda>n. gm_get 0 v n)"

lemma vc_fun_apply [simp]: "gm_get 0 v n = vc_fun v n"
  by (simp add: vc_fun_def)

lemma vc_fun_New [simp]: "vc_fun NewVClock = (\<lambda>_. 0)"
  by (simp add: vc_fun_def NewVClock_def)

lemma set_GetAllNodes: "set (GetAllNodes v w) = fst ` set v \<union> fst ` set w"
  by (simp add: GetAllNodes_def)

lemma vc_fun_outside: "n \<notin> set (GetAllNodes v w) \<Longrightarrow> vc_fun v n = 0 \<and> vc_fun w n = 0"
  by (simp add: set_GetAllNodes vc_fun_def gm_get_absent del: vc_fun_apply)

definition vc_flags :: "bool \<Rightarrow> bool \<Rightarrow> causality" where
  "vc_flags b a = (if b \<and> a then Concurrent else if b then Before else if a then After else Equal)"

lemma CompareLoop_flags:
  "\<not> (hb \<and> ha) \<Longrightarrow>
   CompareLoop v w ns hb ha =
     vc_flags (hb \<or> (\<exists>n \<in> set ns. vc_fun v n < vc_fun w n))
              (ha \<or> (\<exists>n \<in> set ns. vc_fun w n < vc_fun v n))"
proof (induction ns arbitrary: hb ha)
  case Nil
  then show ?case by (auto simp: vc_flags_def)
next
  case (Cons n ns)
  consider "vc_fun v n < vc_fun w n" | "vc_fun w n < vc_fun v n" | "vc_fun v n = vc_fun w n"
    by (meson linorder_neqE)
  then show ?case
    using Cons.prems
    by cases (auto simp: Let_def Cons.IH vc_flags_def dest: order_less_not_sym)
qed

lemma ex_less_fun: "(\<exists>n. (f n::u64) < g n) \<longleftrightarrow> \<not> g \<le> f"
  by (auto simp: le_fun_def not_le)

lemma CompareLoop_any_order:
  assumes "set ns = set (GetAllNodes v w)"
  shows "CompareLoop v w ns False False =
    vc_flags (\<not> vc_fun w \<le> vc_fun v) (\<not> vc_fun v \<le> vc_fun w)"
proof -
  have "(\<exists>n \<in> set ns. vc_fun v n < vc_fun w n) \<longleftrightarrow> (\<exists>n. vc_fun v n < vc_fun w n)"
    using vc_fun_outside[of _ v w] assms by (metis order_less_irrefl)
  moreover have "(\<exists>n \<in> set ns. vc_fun w n < vc_fun v n) \<longleftrightarrow> (\<exists>n. vc_fun w n < vc_fun v n)"
    using vc_fun_outside[of _ v w] assms by (metis order_less_irrefl)
  ultimately show ?thesis by (simp add: CompareLoop_flags ex_less_fun)
qed

text \<open>The four outcomes of \<open>Compare\<close>, in terms of the order.\<close>

lemma CompareVC_flags:
  "CompareVC v w = vc_flags (\<not> vc_fun w \<le> vc_fun v) (\<not> vc_fun v \<le> vc_fun w)"
  by (simp add: CompareVC_def CompareLoop_any_order)

lemma CompareVC_iff:
  "CompareVC v w = Equal \<longleftrightarrow> vc_fun v = vc_fun w"
  "CompareVC v w = Before \<longleftrightarrow> vc_fun v < vc_fun w"
  "CompareVC v w = After \<longleftrightarrow> vc_fun w < vc_fun v"
  by (auto simp: CompareVC_flags vc_flags_def less_le_not_le)

text \<open>
  The interface the rest of the program uses: a comparison that decides the order of the
  versions of two values. Contexts and objects are compared through their clocks and
  provide the same interface.
\<close>

locale causal_compare =
  fixes cmp :: "'a \<Rightarrow> 'a \<Rightarrow> causality"
    and ver :: "'a \<Rightarrow> 'v::order"
  assumes cmp_equal: "cmp a b = Equal \<longleftrightarrow> ver a = ver b"
    and cmp_before: "cmp a b = Before \<longleftrightarrow> ver a < ver b"
    and cmp_after: "cmp a b = After \<longleftrightarrow> ver b < ver a"
begin

lemma cmp_concurrent: "cmp a b = Concurrent \<longleftrightarrow> \<not> ver a \<le> ver b \<and> \<not> ver b \<le> ver a"
  using cmp_equal[of a b] cmp_before[of a b] cmp_after[of a b]
  by (cases "cmp a b") (auto simp: order.order_iff_strict)

lemma cmp_le: "cmp a b = Before \<or> cmp a b = Equal \<longleftrightarrow> ver a \<le> ver b"
  by (auto simp: cmp_equal cmp_before order.order_iff_strict)

lemma cmp_self: "cmp a a = Equal"
  by (simp add: cmp_equal)

lemma cmp_flip_concurrent: "cmp a b = Concurrent \<longleftrightarrow> cmp b a = Concurrent"
  by (auto simp: cmp_concurrent)

lemma cmp_flip_before: "cmp a b = Before \<longleftrightarrow> cmp b a = After"
  by (simp add: cmp_before cmp_after)

lemma cmp_trans_le:
  assumes "cmp a b = Before \<or> cmp a b = Equal" and "cmp b c = Before \<or> cmp b c = Equal"
  shows "cmp a c = Before \<or> cmp a c = Equal"
  using assms unfolding cmp_le by (rule order_trans)

lemma cmp_not_le: "cmp a b \<noteq> Before \<Longrightarrow> cmp a b \<noteq> Equal \<Longrightarrow> \<not> ver a \<le> ver b"
  using cmp_le by blast

lemmas cmp_iff = cmp_equal cmp_before cmp_after cmp_concurrent

end

interpretation vc: causal_compare CompareVC vc_fun
  by unfold_locales (simp_all add: CompareVC_iff)

subsection \<open>Updates\<close>

lemma vc_fun_Increment: "vc_fun (Increment n v) = (vc_fun v)(n := vc_fun v n + 1)"
  by (auto simp: vc_fun_def Increment_def simp del: vc_fun_apply)

lemma vc_fun_SetVersion: "vc_fun (SetVersion n x v) = (vc_fun v)(n := x)"
  by (auto simp: vc_fun_def SetVersion_def simp del: vc_fun_apply)

lemma CopyVC_fold:
  "gomap_ok v \<Longrightarrow> map_of (fold (\<lambda>(n, x) cp. gm_put n x cp) v acc) = map_of acc ++ map_of v"
proof (induction v arbitrary: acc)
  case (Cons p v)
  obtain n x where p: "p = (n, x)" by (cases p)
  have "map_of v n = None" using Cons.prems p by (auto simp: map_of_eq_None_iff)
  then show ?case using Cons p by (auto simp: map_add_def fun_eq_iff split: option.splits)
qed simp

lemma map_of_CopyVC: "gomap_ok v \<Longrightarrow> map_of (CopyVC v) = map_of v"
  by (simp add: CopyVC_def CopyVC_fold NewVClock_def)

lemma CopyVC_order: "gomap_ok (acc @ v) \<Longrightarrow> fold (\<lambda>(n, x) cp. gm_put n x cp) v acc = acc @ v"
proof (induction v arbitrary: acc)
  case (Cons p v)
  obtain n x where p: "p = (n, x)" by (cases p)
  have "n \<notin> fst ` set acc" using Cons.prems p by auto
  then have "gm_put n x acc = acc @ [(n, x)]"
    unfolding gm_put_def by (induction acc) auto
  then show ?case using Cons p by simp
qed simp

lemma CopyVC_id [simp]: "gomap_ok v \<Longrightarrow> CopyVC v = v"
  using CopyVC_order[of "[]" v] by (simp add: CopyVC_def NewVClock_def)

lemma gomap_ok_Increment [simp]: "gomap_ok v \<Longrightarrow> gomap_ok (Increment n v)"
  by (simp add: Increment_def)

lemma gomap_ok_New [simp]: "gomap_ok NewVClock"
  by (simp add: NewVClock_def)

lemma Increment_greater:
  assumes "vc_fun v n \<noteq> - 1"
  shows "vc_fun v < vc_fun (Increment n v)"
proof -
  have "vc_fun v n < vc_fun v n + 1"
    using assms by (rule word_less_plus_one)
  then show ?thesis
    by (auto simp: vc_fun_Increment less_fun_def le_fun_def intro!: exI[of _ n])
qed

lemma MergeVC_loop:
  "distinct ns \<Longrightarrow>
   vc_fun (fold (\<lambda>n v. gm_put n (max (vc_fun v n) (vc_fun w n)) v) ns v) =
     (\<lambda>n. if n \<in> set ns then max (vc_fun v n) (vc_fun w n) else vc_fun v n)"
proof (induction ns arbitrary: v)
  case (Cons n ns)
  have upd: "vc_fun (gm_put n x v) = (vc_fun v)(n := x)" for x
    by (auto simp: vc_fun_def simp del: vc_fun_apply)
  show ?case using Cons by (auto simp: upd)
qed simp

lemma vc_fun_MergeVC: "vc_fun (MergeVC v w) = (\<lambda>n. max (vc_fun v n) (vc_fun w n))"
proof -
  have d: "distinct (GetAllNodes v w)" by (simp add: GetAllNodes_def)
  show ?thesis
    using vc_fun_outside[of _ v w] by (auto simp: MergeVC_def MergeVC_loop[OF d])
qed

lemma IsInitialVC_all: "IsInitialVC v \<longleftrightarrow> (\<forall>(n, x) \<in> set v. x = 0)"
  by (induction v rule: IsInitialVC.induct) auto

lemma IsInitialVC_iff: "gomap_ok v \<Longrightarrow> IsInitialVC v \<longleftrightarrow> vc_fun v = (\<lambda>_. 0)"
  by (auto simp: IsInitialVC_all vc_fun_def gm_get_def fun_eq_iff map_of_eq_Some_iff
      split: option.splits simp del: vc_fun_apply dest: map_of_SomeD)

subsection \<open>The canonical entry list\<close>

lemma ToVCEntries_sort_key:
  "ToVCEntries None v =
     sort_key Node (map (\<lambda>(node, version). \<lparr>Node = node, Version = version\<rparr>) v)"
proof -
  have "(\<lambda>a b. SortByNodeName a b < 0) = (\<lambda>a b. Node a < Node b)"
    by (auto simp: SortByNodeName_def fun_eq_iff)
  then show ?thesis by (simp add: ToVCEntries_def go_sort_key)
qed

lemma gomap_mset_eq:
  assumes "gomap_ok v" and "gomap_ok w" and "map_of v = map_of w"
  shows "mset v = mset w"
proof -
  have "set v = set w" using assms by (metis map_of_inject_set)
  moreover have "distinct v" "distinct w" using assms(1,2) by (auto intro: distinct_map[THEN iffD1, THEN conjunct1])
  ultimately show ?thesis by (simp add: set_eq_iff_mset_eq_distinct)
qed

lemma ToVCEntries_canonical:
  assumes "gomap_ok v" and "gomap_ok w" and "map_of v = map_of w"
  shows "ToVCEntries None v = ToVCEntries None w"
proof -
  let ?e = "\<lambda>(node, version). \<lparr>Node = node, Version = version\<rparr>"
  have inj: "inj_on Node (set (map ?e v))"
    using assms(1) by (fastforce simp: inj_on_def eq_key_imp_eq_value)
  have "mset (map ?e v) = mset (sort_key Node (map ?e w))"
    using gomap_mset_eq[OF assms] by simp
  then have "sort_key Node (map ?e v) = sort_key Node (map ?e w)"
    by (rule sort_key_inj_key_eq[OF _ inj]) simp
  then show ?thesis by (simp add: ToVCEntries_sort_key)
qed

subsection \<open>Properties\<close>

text \<open>
  C15: whatever order the loop of \<open>Compare\<close> visits the nodes of the two clocks in, it returns
  the same verdict, and the verdict decides the pointwise order of the counters: equal,
  strictly below, strictly above, or neither.
\<close>

theorem vclock_compare_decides:
  assumes "set ns = set (GetAllNodes v w)"
  shows "CompareLoop v w ns False False = CompareVC v w
    \<and> (CompareVC v w = Equal \<longleftrightarrow> vc_fun v = vc_fun w)
    \<and> (CompareVC v w = Before \<longleftrightarrow> vc_fun v < vc_fun w)
    \<and> (CompareVC v w = After \<longleftrightarrow> vc_fun w < vc_fun v)
    \<and> (CompareVC v w = Concurrent \<longleftrightarrow> \<not> vc_fun v \<le> vc_fun w \<and> \<not> vc_fun w \<le> vc_fun v)"
  using CompareLoop_any_order[OF assms] by (simp add: CompareVC_flags CompareVC_iff vc.cmp_concurrent flip: CompareVC_flags)

theorem vclock_compare_decides_witness:
  "CompareLoop [(''a'', 1), (''b'', 2)] [(''b'', 1), (''c'', 3)] [''c'', ''a'', ''b''] False False =
     CompareVC [(''a'', 1), (''b'', 2)] [(''b'', 1), (''c'', 3)]
   \<and> CompareVC [(''a'', 1), (''b'', 2)] [(''b'', 1), (''c'', 3)] = Concurrent"
proof -
  have "set [''c'', ''a'', ''b''] = set (GetAllNodes [(''a'', 1), (''b'', 2)] [(''b'', 1), (''c'', 3)])"
    by (auto simp: set_GetAllNodes)
  from vclock_compare_decides[OF this] have
    "CompareLoop [(''a'', 1), (''b'', 2)] [(''b'', 1), (''c'', 3)] [''c'', ''a'', ''b''] False False =
     CompareVC [(''a'', 1), (''b'', 2)] [(''b'', 1), (''c'', 3)]" by blast
  then show ?thesis by (simp add: gm_get_def del: vc_fun_apply)
qed

text \<open>
  \<open>Merge\<close> is the least upper bound: a clock dominates the merge of two clocks exactly when
  it dominates both.
\<close>

theorem vclock_merge_lub:
  "vc_fun (MergeVC v w) \<le> vc_fun u \<longleftrightarrow> vc_fun v \<le> vc_fun u \<and> vc_fun w \<le> vc_fun u"
  by (auto simp: vc_fun_MergeVC le_fun_def)

text \<open>
  \<open>Increment\<close> moves a clock strictly forward, except that a counter at its 64-bit maximum
  wraps to zero and moves the clock strictly backward.
\<close>

theorem vclock_increment_verdict:
  "CompareVC v (Increment n v) = (if GetVersion v n = - 1 then After else Before)"
proof (cases "GetVersion v n = - 1")
  case True
  then have z: "vc_fun v n = - 1" by (simp add: GetVersion_def)
  then have "vc_fun (Increment n v) = (vc_fun v)(n := 0)" by (simp add: vc_fun_Increment)
  moreover have "(vc_fun v)(n := 0) < vc_fun v" using z by (auto simp: less_fun_def le_fun_def intro!: exI[of _ n])
  ultimately show ?thesis using True by (simp add: CompareVC_iff)
next
  case False
  then show ?thesis using Increment_greater[of v n] by (simp add: GetVersion_def CompareVC_iff)
qed

end
