(* ===== verification/VersionSpec.thy ===== *)
theory VersionSpec
  imports Prelude
begin

text \<open>
  The abstract specification of a replicated key: the set of its causally maximal versions.
  Adding a version that is already covered changes nothing; adding any other version removes
  the versions below it. The result of adding a sequence of versions is the set of maxima of
  all of them, so it depends neither on their order nor on repetitions. This is the sense in
  which the replicas of a key converge.
\<close>

definition covers :: "'v::order set \<Rightarrow> 'v \<Rightarrow> bool" where
  "covers S x \<longleftrightarrow> (\<exists>y \<in> S. x \<le> y)"

definition antichain :: "'v::order set \<Rightarrow> bool" where
  "antichain S \<longleftrightarrow> (\<forall>x \<in> S. \<forall>y \<in> S. x \<le> y \<longrightarrow> x = y)"

definition maxima :: "'v::order set \<Rightarrow> 'v set" where
  "maxima S = {x \<in> S. \<forall>y \<in> S. \<not> x < y}"

definition add_version :: "'v::order \<Rightarrow> 'v set \<Rightarrow> 'v set" where
  "add_version x S = (if covers S x then S else insert x {y \<in> S. \<not> y < x})"

text \<open>\<open>T\<close> has advanced from \<open>S\<close>: every version of \<open>S\<close> is covered by one of \<open>T\<close>.\<close>

definition advances :: "'v::order set \<Rightarrow> 'v set \<Rightarrow> bool" where
  "advances S T \<longleftrightarrow> (\<forall>x \<in> S. covers T x)"

lemma coversI: "y \<in> S \<Longrightarrow> x \<le> y \<Longrightarrow> covers S x"
  by (auto simp: covers_def)

lemma covers_member [intro]: "x \<in> S \<Longrightarrow> covers S x"
  by (auto simp: covers_def)

lemma covers_simps [simp]:
  "covers {} z \<longleftrightarrow> False"
  "covers (insert y S) z \<longleftrightarrow> z \<le> y \<or> covers S z"
  "covers (S \<union> T) z \<longleftrightarrow> covers S z \<or> covers T z"
  by (auto simp: covers_def)

lemma advances_refl [intro, simp]: "advances S S"
  by (auto simp: advances_def)

lemma covers_advances: "covers S x \<Longrightarrow> advances S T \<Longrightarrow> covers T x"
  unfolding covers_def advances_def by (meson order_trans)

lemma advances_trans [trans]: "advances S T \<Longrightarrow> advances T U \<Longrightarrow> advances S U"
  by (meson advances_def covers_advances)

lemma covers_below: "covers S y \<Longrightarrow> x \<le> y \<Longrightarrow> covers S x"
  by (auto simp: covers_def intro: order_trans)

lemma add_version_covered [simp]: "covers S x \<Longrightarrow> add_version x S = S"
  by (simp add: add_version_def)

lemma covers_add_self: "covers (add_version x S) x"
  by (auto simp: add_version_def covers_def)

lemma advances_add: "advances S (add_version x S)"
  by (auto simp: advances_def add_version_def covers_def less_imp_le)

lemma covers_add_iff: "covers (add_version x S) z \<longleftrightarrow> covers S z \<or> z \<le> x"
proof
  assume "covers (add_version x S) z"
  then show "covers S z \<or> z \<le> x"
    by (auto simp: covers_def add_version_def split: if_splits)
next
  assume "covers S z \<or> z \<le> x"
  then show "covers (add_version x S) z"
    using covers_advances[OF _ advances_add] covers_below[OF covers_add_self] by blast
qed

lemma antichain_empty [simp]: "antichain {}"
  by (simp add: antichain_def)

lemma antichain_add: "antichain S \<Longrightarrow> antichain (add_version x S)"
  by (auto simp: antichain_def add_version_def covers_def order.order_iff_strict)

lemma finite_add [simp]: "finite S \<Longrightarrow> finite (add_version x S)"
  by (simp add: add_version_def)

lemma finite_below_maximum:
  assumes "finite S" and "x \<in> S"
  shows "covers (maxima S) x"
proof -
  have "finite {y \<in> S. x \<le> y}" "{y \<in> S. x \<le> y} \<noteq> {}" using assms by auto
  then obtain m where "m \<in> {y \<in> S. x \<le> y}" and mx: "\<And>y. y \<in> {y \<in> S. x \<le> y} \<Longrightarrow> m \<le> y \<Longrightarrow> m = y"
    using finite_has_maximal by metis
  then have "m \<in> maxima S" "x \<le> m"
    by (auto simp: maxima_def dest!: mx intro: order_trans less_imp_le)
  then show ?thesis by (auto intro: coversI)
qed

text \<open>An antichain is determined by what it covers.\<close>

lemma antichain_covers_unique:
  assumes "antichain S" and "antichain T" and "\<And>z. covers S z \<longleftrightarrow> covers T z"
  shows "S = T"
proof -
  have sub: "A \<subseteq> B" if anti: "antichain A" and same: "\<And>z. covers A z \<longleftrightarrow> covers B z" for A B :: "'a set"
  proof
    fix x assume x: "x \<in> A"
    then obtain y where y: "y \<in> B" "x \<le> y" using same[of x] by (auto simp: covers_def)
    then obtain z where z: "z \<in> A" "y \<le> z" using same[of y] by (auto simp: covers_def)
    then have "x = z" using x y anti by (meson antichain_def order_trans)
    then show "x \<in> B" using y z by simp
  qed
  show ?thesis using sub[of S T] sub[of T S] assms by blast
qed

lemma antichain_maxima [simp]: "antichain (maxima S)"
  by (auto simp: antichain_def maxima_def order.order_iff_strict)

lemma finite_maxima [simp]: "finite S \<Longrightarrow> finite (maxima S)"
  by (simp add: maxima_def)

lemma covers_maxima: "finite S \<Longrightarrow> covers (maxima S) z \<longleftrightarrow> covers S z"
proof
  assume "finite S" "covers S z"
  then obtain y where "y \<in> S" "z \<le> y" by (auto simp: covers_def)
  then show "covers (maxima S) z"
    using finite_below_maximum[OF \<open>finite S\<close>] covers_below by blast
qed (auto simp: covers_def maxima_def)

lemma covers_fold_add:
  "covers (fold add_version xs S) z \<longleftrightarrow> covers S z \<or> covers (set xs) z"
  by (induction xs arbitrary: S) (auto simp: covers_add_iff)

lemma antichain_fold_add: "antichain S \<Longrightarrow> antichain (fold add_version xs S)"
  by (induction xs arbitrary: S) (auto simp: antichain_add)

text \<open>Convergence: the outcome is the set of maxima of everything that was added.\<close>

lemma fold_add_maxima:
  assumes "finite S" and "antichain S"
  shows "fold add_version xs S = maxima (S \<union> set xs)"
proof (rule antichain_covers_unique)
  show "antichain (fold add_version xs S)" using assms(2) by (rule antichain_fold_add)
  show "covers (fold add_version xs S) z \<longleftrightarrow> covers (maxima (S \<union> set xs)) z" for z
    using assms(1) by (simp add: covers_fold_add covers_maxima)
qed simp

lemma advances_fold_add: "advances S (fold add_version xs S)"
  by (auto simp: advances_def covers_fold_add)

end
