(* ===== verification/Objects.thy ===== *)
theory Objects
  imports VClock GoStd VersionSpec
begin

text \<open>
  Contexts and objects, \<^verbatim>\<open>kvsrv/rpc/context.go\<close> and \<^verbatim>\<open>kvsrv/rpc/object.go\<close>. An object is a
  value with its causal context; a key holds a list of objects (siblings) whose contexts are
  pairwise concurrent, sorted by timestamp. \<open>time.Now\<close> is the argument \<open>now\<close> of the
  operations that read the clock. The theory shows that the sibling operations implement
  the abstract specification of \<open>VersionSpec\<close> on the version vectors of the siblings.
\<close>

record Context =
  VC :: VClock
  Timestamp :: u64
  ETag :: string

definition hash :: "string \<Rightarrow> string" where
  "hash value = hex_EncodeToString (sha256_Sum256 (string_bytes value))"

definition NewContext :: "u64 \<Rightarrow> Context" where
  "NewContext now = \<lparr>VC = NewVClock, Timestamp = now, ETag = ''''\<rparr>"

definition NewContextFromVClock :: "u64 \<Rightarrow> VClock \<Rightarrow> Context" where
  "NewContextFromVClock now vc = \<lparr>VC = CopyVC vc, Timestamp = now, ETag = ''''\<rparr>"

definition CopyCtx :: "Context \<Rightarrow> Context" where
  "CopyCtx ctx = \<lparr>VC = CopyVC (VC ctx), Timestamp = Timestamp ctx, ETag = ETag ctx\<rparr>"

definition IsInitialCtx :: "Context \<Rightarrow> bool" where
  "IsInitialCtx ctx \<longleftrightarrow> IsInitialVC (VC ctx) \<and> ETag ctx = ''''"

definition CompareCtx :: "Context \<Rightarrow> Context \<Rightarrow> causality" where
  "CompareCtx ctx other = CompareVC (VC ctx) (VC other)"

definition IsEqualCtx :: "Context \<Rightarrow> Context \<Rightarrow> bool" where
  "IsEqualCtx ctx other \<longleftrightarrow>
     CompareCtx ctx other = Equal \<and> Timestamp ctx = Timestamp other \<and> ETag ctx = ETag other"

definition UpdateCtx :: "u64 \<Rightarrow> string \<Rightarrow> string \<Rightarrow> Context \<Rightarrow> Context" where
  "UpdateCtx now node value ctx =
     ctx\<lparr>VC := Increment node (CopyVC (VC ctx)), Timestamp := now, ETag := hash value\<rparr>"

definition MergeCtx :: "u64 \<Rightarrow> Context \<Rightarrow> Context \<Rightarrow> string \<Rightarrow> Context" where
  "MergeCtx now ctx other newValue =
     (let merged = NewContextFromVClock now (CopyVC (VC ctx))
      in merged\<lparr>VC := MergeVC (VC merged) (VC other), Timestamp := now, ETag := hash newValue\<rparr>)"

record Object =
  Value :: string
  Ctx :: Context

definition NewObject :: "string \<Rightarrow> Context \<Rightarrow> Object" where
  "NewObject value context = \<lparr>Value = value, Ctx = context\<rparr>"

definition CompareObj :: "Object \<Rightarrow> Object \<Rightarrow> causality" where
  "CompareObj a b = CompareCtx (Ctx a) (Ctx b)"

fun CanBeAddedTo :: "Object \<Rightarrow> Object list \<Rightarrow> bool" where
  "CanBeAddedTo obj [] = True"
| "CanBeAddedTo obj (other # others) =
     (let cmp = CompareCtx (Ctx obj) (Ctx other)
      in if cmp = Before \<or> cmp = Equal then False else CanBeAddedTo obj others)"

definition SortByTimestamp :: "Object \<Rightarrow> Object \<Rightarrow> bool" where
  "SortByTimestamp i j \<longleftrightarrow> Timestamp (Ctx i) < Timestamp (Ctx j)"

text \<open>The loop of \<open>AddObject\<close>: the kept siblings so far and whether the candidate is placed.\<close>

fun AddLoop :: "(Object \<Rightarrow> Object \<Rightarrow> bool) \<Rightarrow> Object \<Rightarrow> Object list \<Rightarrow> Object list \<Rightarrow> bool
    \<Rightarrow> Object list \<times> bool" where
  "AddLoop srt candidate [] kept added = (kept, added)"
| "AddLoop srt candidate (sibling # rest) kept added =
     (let cmp = CompareCtx (Ctx candidate) (Ctx sibling)
      in if cmp = After then AddLoop srt candidate rest kept added
         else if cmp = Equal then AddLoop srt candidate rest (kept @ [sibling]) True
         else if \<not> added \<and> (cmp = Before \<or> (cmp = Concurrent \<and> srt candidate sibling))
              then AddLoop srt candidate rest (kept @ [candidate] @ [sibling]) True
         else AddLoop srt candidate rest (kept @ [sibling]) added)"

definition AddObject :: "Object list \<Rightarrow> Object \<Rightarrow> (Object \<Rightarrow> Object \<Rightarrow> bool) option \<Rightarrow> Object list" where
  "AddObject siblings candidate sortOpt =
     (let srt = (case sortOpt of None \<Rightarrow> SortByTimestamp | Some f \<Rightarrow> f);
          (kept, added) = AddLoop srt candidate siblings [] False
      in if \<not> added then kept @ [candidate] else kept)"

definition MergeObjects :: "Object list \<Rightarrow> Object list \<Rightarrow> Object list" where
  "MergeObjects objects otherObjects =
     fold (\<lambda>obj merged. AddObject merged obj None) otherObjects
       (fold (\<lambda>obj merged. AddObject merged obj None) objects [])"

definition CopyObjects :: "Object list \<Rightarrow> Object list" where
  "CopyObjects siblings = map (\<lambda>s. \<lparr>Value = Value s, Ctx = CopyCtx (Ctx s)\<rparr>) siblings"

definition IsEqualObj :: "Object \<Rightarrow> Object \<Rightarrow> bool" where
  "IsEqualObj obj other = IsEqualCtx (Ctx obj) (Ctx other)"

fun IsOrderedFrom :: "(Object \<Rightarrow> Object \<Rightarrow> bool) \<Rightarrow> Object \<Rightarrow> Object list \<Rightarrow> bool" where
  "IsOrderedFrom srt prev [] = True"
| "IsOrderedFrom srt prev (cur # rest) =
     (if CompareCtx (Ctx prev) (Ctx cur) = After then False
      else if \<not> srt prev cur then False
      else IsOrderedFrom srt cur rest)"

definition IsOrdered :: "Object list \<Rightarrow> (Object \<Rightarrow> Object \<Rightarrow> bool) option \<Rightarrow> bool" where
  "IsOrdered siblings sortOpt =
     (let srt = (case sortOpt of None \<Rightarrow> SortByTimestamp | Some f \<Rightarrow> f)
      in case siblings of [] \<Rightarrow> True | s # rest \<Rightarrow> IsOrderedFrom srt s rest)"

text \<open>The exchange test of \<open>SortObjects\<close>: whether \<open>b\<close> (at \<open>j\<close>) goes before \<open>a\<close> (at \<open>i\<close>).\<close>

definition sort_before :: "(Object \<Rightarrow> Object \<Rightarrow> bool) \<Rightarrow> Object \<Rightarrow> Object \<Rightarrow> bool" where
  "sort_before srt b a \<longleftrightarrow>
     CompareCtx (Ctx b) (Ctx a) = Before
     \<or> (CompareCtx (Ctx b) (Ctx a) = Equal \<and> srt b a)
     \<or> (CompareCtx (Ctx b) (Ctx a) = Concurrent \<and> srt b a)"

definition SortObjects :: "Object list \<Rightarrow> (Object \<Rightarrow> Object \<Rightarrow> bool) option \<Rightarrow> Object list" where
  "SortObjects siblings sortOpt =
     (let srt = (case sortOpt of None \<Rightarrow> SortByTimestamp | Some f \<Rightarrow> f)
      in exchange_sort (sort_before srt) (CopyObjects siblings))"

subsection \<open>Versions of contexts and objects\<close>

definition ctx_ver :: "Context \<Rightarrow> string \<Rightarrow> u64" where
  "ctx_ver c = vc_fun (VC c)"

definition obj_ver :: "Object \<Rightarrow> string \<Rightarrow> u64" where
  "obj_ver o1 = ctx_ver (Ctx o1)"

text \<open>The abstract value of a sibling list.\<close>

definition versions :: "Object list \<Rightarrow> (string \<Rightarrow> u64) set" where
  "versions objs = obj_ver ` set objs"

text \<open>Clocks are Go maps: their keys are distinct.\<close>

definition ctx_ok :: "Context \<Rightarrow> bool" where
  "ctx_ok c \<longleftrightarrow> gomap_ok (VC c)"

definition objs_ok :: "Object list \<Rightarrow> bool" where
  "objs_ok objs \<longleftrightarrow> (\<forall>x \<in> set objs. ctx_ok (Ctx x))"

interpretation ctx: causal_compare CompareCtx ctx_ver
  by unfold_locales (simp_all add: CompareCtx_def ctx_ver_def CompareVC_iff)

interpretation obj: causal_compare CompareObj obj_ver
  by unfold_locales (simp_all add: CompareObj_def obj_ver_def ctx.cmp_iff)

lemma CompareCtx_obj: "CompareCtx (Ctx a) (Ctx b) = CompareObj a b"
  by (simp add: CompareObj_def)

lemma versions_simps [simp]:
  "versions [] = {}"
  "versions (x # xs) = insert (obj_ver x) (versions xs)"
  "versions (xs @ ys) = versions xs \<union> versions ys"
  by (auto simp: versions_def)

lemma finite_versions [simp]: "finite (versions xs)"
  by (simp add: versions_def)

lemma CopyCtx_id [simp]: "ctx_ok c \<Longrightarrow> CopyCtx c = c"
  by (simp add: CopyCtx_def ctx_ok_def)

lemma CopyObjects_id [simp]: "objs_ok xs \<Longrightarrow> CopyObjects xs = xs"
  by (induction xs) (auto simp: CopyObjects_def objs_ok_def)

lemma length_CopyObjects [simp]: "length (CopyObjects xs) = length xs"
  by (simp add: CopyObjects_def)

lemma CanBeAddedTo_iff: "CanBeAddedTo x ys \<longleftrightarrow> \<not> covers (versions ys) (obj_ver x)"
proof (induction ys)
  case (Cons y ys)
  then show ?case using obj.cmp_le[of x y] by (auto simp: CompareCtx_obj covers_def Let_def)
qed (simp add: covers_def)

subsection \<open>AddObject implements add_version\<close>

text \<open>
  What the loop keeps when every sibling is either below the candidate or concurrent with
  it: the siblings that are not below, in their order, with the candidate in front of the
  first one that sorts after it.
\<close>

definition keeps :: "Object \<Rightarrow> Object list \<Rightarrow> Object list" where
  "keeps c ss = filter (\<lambda>s. CompareObj c s \<noteq> After) ss"

lemma CanBeAddedTo_Cons:
  "CanBeAddedTo c (s # ss) \<longleftrightarrow>
     (CompareObj c s = After \<or> CompareObj c s = Concurrent) \<and> CanBeAddedTo c ss"
  by (cases "CompareObj c s") (auto simp: CompareCtx_obj Let_def)

lemma AddLoop_placed:
  "CanBeAddedTo c ss \<Longrightarrow> AddLoop srt c ss kept True = (kept @ keeps c ss, True)"
  by (induction ss arbitrary: kept)
     (auto simp: CanBeAddedTo_Cons CompareCtx_obj Let_def keeps_def simp del: CanBeAddedTo.simps(2))

lemma AddLoop_split:
  "CanBeAddedTo c ss \<Longrightarrow> AddLoop srt c ss kept False =
     (kept @ takeWhile (\<lambda>s. \<not> srt c s) (keeps c ss)
        @ (if \<exists>s \<in> set (keeps c ss). srt c s
           then c # dropWhile (\<lambda>s. \<not> srt c s) (keeps c ss) else []),
      \<exists>s \<in> set (keeps c ss). srt c s)"
proof (induction ss arbitrary: kept)
  case (Cons s ss)
  then have can: "CanBeAddedTo c ss" by (simp add: CanBeAddedTo_Cons del: CanBeAddedTo.simps(2))
  consider "CompareObj c s = After" | "CompareObj c s = Concurrent"
    using Cons.prems by (auto simp: CanBeAddedTo_Cons simp del: CanBeAddedTo.simps(2))
  then show ?case
    using Cons.IH[OF can] AddLoop_placed[OF can]
    by cases (auto simp: CompareCtx_obj Let_def keeps_def)
qed (simp add: keeps_def)

lemma AddObject_eq:
  assumes "CanBeAddedTo c ss"
  shows "AddObject ss c f =
    (let srt = (case f of None \<Rightarrow> SortByTimestamp | Some g \<Rightarrow> g)
     in takeWhile (\<lambda>s. \<not> srt c s) (keeps c ss) @ c # dropWhile (\<lambda>s. \<not> srt c s) (keeps c ss))"
proof -
  show ?thesis
    using assms
    by (auto simp: AddObject_def AddLoop_split Let_def takeWhile_eq_all_conv[THEN iffD2]
        dropWhile_eq_Nil_conv[THEN iffD2])
qed

lemma mset_AddObject:
  assumes "CanBeAddedTo c ss"
  shows "mset (AddObject ss c f) = add_mset c (mset (keeps c ss))"
proof -
  have "mset (takeWhile P xs @ c # dropWhile P xs) = add_mset c (mset xs)" for P and xs :: "Object list"
    by (metis mset_append union_mset_add_mset_right mset.simps(2) takeWhile_dropWhile_id)
  then show ?thesis by (simp only: AddObject_eq[OF assms] Let_def)
qed

lemma set_AddObject:
  assumes "CanBeAddedTo c ss"
  shows "set (AddObject ss c f) = insert c {s \<in> set ss. CompareObj c s \<noteq> After}"
  unfolding set_mset_mset[symmetric] mset_AddObject[OF assms] by (auto simp: keeps_def)

lemma versions_AddObject:
  assumes "CanBeAddedTo c ss"
  shows "versions (AddObject ss c f) = add_version (obj_ver c) (versions ss)"
  using assms
  by (auto simp: versions_def set_AddObject[OF assms] add_version_def obj.cmp_iff
      CanBeAddedTo_iff[unfolded versions_def])

subsection \<open>Well-formed sibling lists\<close>

text \<open>
  Stored siblings have well-formed clocks, are pairwise concurrent and are sorted by
  timestamp. Every addition keeps this.
\<close>

definition siblings_ok :: "Object list \<Rightarrow> bool" where
  "siblings_ok ss \<longleftrightarrow> objs_ok ss \<and> distinct (map obj_ver ss) \<and> antichain (versions ss)"

definition ts_sorted :: "Object list \<Rightarrow> bool" where
  "ts_sorted ss \<longleftrightarrow> sorted (map (\<lambda>s. Timestamp (Ctx s)) ss)"

lemma siblings_ok_Nil [simp]: "siblings_ok []"
  by (simp add: siblings_ok_def objs_ok_def)

lemma ts_sorted_Nil [simp]: "ts_sorted []"
  by (simp add: ts_sorted_def)

lemma siblings_ok_objs_ok [dest]: "siblings_ok ss \<Longrightarrow> objs_ok ss"
  by (simp add: siblings_ok_def)

lemma siblings_ok_AddObject:
  assumes "CanBeAddedTo c ss" and "siblings_ok ss" and "ctx_ok (Ctx c)"
  shows "siblings_ok (AddObject ss c f)"
proof -
  have "distinct (map obj_ver (c # keeps c ss))"
    using assms(1,2) coversI[of "obj_ver c" "versions ss" "obj_ver c"]
    by (auto simp: siblings_ok_def keeps_def distinct_map CanBeAddedTo_iff versions_def
        intro: inj_on_subset)
  moreover have "mset (map obj_ver (AddObject ss c f)) = mset (map obj_ver (c # keeps c ss))"
    by (simp add: mset_AddObject[OF assms(1)])
  ultimately have "distinct (map obj_ver (AddObject ss c f))"
    using mset_eq_imp_distinct_iff by blast
  moreover have "objs_ok (AddObject ss c f)"
    using assms by (auto simp: objs_ok_def set_AddObject[OF assms(1)] siblings_ok_def)
  moreover have "antichain (versions (AddObject ss c f))"
    using assms by (simp add: versions_AddObject antichain_add siblings_ok_def)
  ultimately show ?thesis by (simp add: siblings_ok_def)
qed

lemma ts_sorted_AddObject:
  assumes "CanBeAddedTo c ss" and "ts_sorted ss"
  shows "ts_sorted (AddObject ss c None)"
proof -
  let ?ts = "\<lambda>s. Timestamp (Ctx s)" and ?P = "\<lambda>s. \<not> SortByTimestamp c s" and ?k = "keeps c ss"
  have srt: "sorted (map ?ts ?k)"
    using assms(2) unfolding ts_sorted_def keeps_def by (rule sorted_filter)
  have split: "sorted (map ?ts (takeWhile ?P xs @ c # dropWhile ?P xs))" if "sorted (map ?ts xs)" for xs
    using that by (induction xs) (auto simp: SortByTimestamp_def not_less dest: set_takeWhileD set_dropWhileD)
  show ?thesis unfolding ts_sorted_def AddObject_eq[OF assms(1)] by (simp only: Let_def option.case split[OF srt])
qed

subsection \<open>Adding a reply: the merge loop\<close>

text \<open>
  The loop that merges incoming objects into a sibling list, which \<^verbatim>\<open>CoordGet\<close>,
  \<^verbatim>\<open>finishCoordGetReadRepair\<close> and \<^verbatim>\<open>mergeObjectsCore\<close> all contain: an object is added when
  no sibling covers it.
\<close>

definition mergeLoop :: "Object list \<Rightarrow> Object list \<Rightarrow> Object list" where
  "mergeLoop siblings incoming =
     fold (\<lambda>obj siblings. if CanBeAddedTo obj siblings then AddObject siblings obj None else siblings)
       incoming siblings"

lemma mergeLoop_simps [simp]:
  "mergeLoop ss [] = ss"
  "mergeLoop ss (x # xs) = mergeLoop (if CanBeAddedTo x ss then AddObject ss x None else ss) xs"
  by (simp_all add: mergeLoop_def)

lemma mergeLoop_append: "mergeLoop ss (xs @ ys) = mergeLoop (mergeLoop ss xs) ys"
  by (simp add: mergeLoop_def)

lemma versions_mergeLoop: "versions (mergeLoop ss xs) = fold add_version (map obj_ver xs) (versions ss)"
proof (induction xs arbitrary: ss)
  case (Cons x xs)
  then show ?case
    by (cases "CanBeAddedTo x ss") (simp_all add: versions_AddObject CanBeAddedTo_iff)
qed simp

lemma siblings_ok_mergeLoop:
  "siblings_ok ss \<Longrightarrow> objs_ok xs \<Longrightarrow> siblings_ok (mergeLoop ss xs)"
  by (induction xs arbitrary: ss) (auto simp: siblings_ok_AddObject objs_ok_def)

lemma ts_sorted_mergeLoop: "ts_sorted ss \<Longrightarrow> ts_sorted (mergeLoop ss xs)"
  by (induction xs arbitrary: ss) (auto simp: ts_sorted_AddObject)

lemma mergeLoop_advances: "advances (versions ss) (versions (mergeLoop ss xs))"
  by (simp add: versions_mergeLoop advances_fold_add)

lemma mergeLoop_covers_incoming: "advances (versions xs) (versions (mergeLoop ss xs))"
  unfolding advances_def versions_mergeLoop by (auto simp: covers_fold_add versions_def)

lemma mergeLoop_nonempty: "ss \<noteq> [] \<or> xs \<noteq> [] \<Longrightarrow> mergeLoop ss xs \<noteq> []"
proof (induction xs arbitrary: ss)
  case (Cons x xs)
  have "CanBeAddedTo x ss \<Longrightarrow> AddObject ss x None \<noteq> []"
    using set_AddObject by (metis empty_iff insertI1 list.set(1))
  then show ?case using Cons by (cases ss) auto
qed simp

lemma mergeLoop_subset: "set (mergeLoop ss xs) \<subseteq> set ss \<union> set xs"
proof (induction xs arbitrary: ss)
  case (Cons x xs)
  show ?case
    using Cons[of "if CanBeAddedTo x ss then AddObject ss x None else ss"] set_AddObject[of x ss None]
    by (auto split: if_splits)
qed simp

lemma mergeLoop_maxima:
  "siblings_ok ss \<Longrightarrow> versions (mergeLoop ss xs) = maxima (versions ss \<union> versions xs)"
  unfolding versions_mergeLoop
  by (subst fold_add_maxima) (simp_all add: siblings_ok_def, simp add: versions_def)

subsection \<open>SortObjects on siblings\<close>

text \<open>
  On pairwise concurrent objects the exchange test compares timestamps, so the result is
  the timestamp order; with distinct timestamps it is the same for every permutation.
\<close>

lemma siblings_concurrent:
  "siblings_ok ss \<Longrightarrow> a \<in> set ss \<Longrightarrow> b \<in> set ss \<Longrightarrow>
   CompareObj b a = Concurrent \<or> CompareObj b a = Equal"
  by (auto simp: siblings_ok_def antichain_def versions_def obj.cmp_iff) metis+

lemma sort_before_timestamp:
  "siblings_ok ss \<Longrightarrow> a \<in> set ss \<Longrightarrow> b \<in> set ss \<Longrightarrow>
   sort_before SortByTimestamp b a \<longleftrightarrow> Timestamp (Ctx b) < Timestamp (Ctx a)"
  using siblings_concurrent[of ss a b]
  by (auto simp: sort_before_def CompareCtx_obj SortByTimestamp_def)

lemma SortObjects_perm:
  assumes "siblings_ok ss"
  shows "mset (SortObjects ss None) = mset ss"
  using assms siblings_ok_objs_ok by (auto simp: SortObjects_def mset_exchange_sort)

lemma SortObjects_sorted:
  assumes "siblings_ok ss"
  shows "ts_sorted (SortObjects ss None)"
proof -
  have "objs_ok ss" using assms by blast
  then show ?thesis
    unfolding ts_sorted_def SortObjects_def Let_def option.case
    by (auto intro!: sorted_exchange_sort simp: sort_before_timestamp[OF assms])
qed

lemma SortObjects_canonical:
  assumes "siblings_ok ss" and "siblings_ok tt" and "mset ss = mset tt"
    and "distinct (map (\<lambda>s. Timestamp (Ctx s)) ss)"
  shows "SortObjects ss None = SortObjects tt None"
proof -
  let ?ts = "\<lambda>s. Timestamp (Ctx s)"
  have ms: "mset (SortObjects ss None) = mset (SortObjects tt None)"
    using assms by (simp add: SortObjects_perm)
  have inj: "inj_on ?ts (set (SortObjects ss None))"
    using assms(1,4) SortObjects_perm[OF assms(1)] by (metis distinct_map mset_eq_setD)
  have "sort_key ?ts (SortObjects ss None) = SortObjects tt None"
    using sort_key_inj_key_eq[OF ms inj] SortObjects_sorted[OF assms(2)] by (simp add: ts_sorted_def)
  moreover have "sort_key ?ts (SortObjects ss None) = SortObjects ss None"
    using sort_key_inj_key_eq[OF refl inj] SortObjects_sorted[OF assms(1)] by (simp add: ts_sorted_def)
  ultimately show ?thesis by simp
qed

subsection \<open>Properties\<close>

text \<open>
  C6: adding an object that no sibling covers refines the abstract addition of its version:
  the stored versions become the maxima, siblings stay pairwise concurrent and, when they
  were sorted by timestamp, sorted.
\<close>

theorem AddObject_refines:
  assumes "CanBeAddedTo c ss" and "siblings_ok ss" and "ts_sorted ss" and "ctx_ok (Ctx c)"
  shows "versions (AddObject ss c None) = add_version (obj_ver c) (versions ss)
    \<and> siblings_ok (AddObject ss c None) \<and> ts_sorted (AddObject ss c None)
    \<and> set (AddObject ss c None) = insert c {s \<in> set ss. CompareObj c s \<noteq> After}"
  using assms by (simp add: versions_AddObject siblings_ok_AddObject ts_sorted_AddObject set_AddObject)

definition sampleObj :: "string \<Rightarrow> VClock \<Rightarrow> u64 \<Rightarrow> Object" where
  "sampleObj v vc ts = \<lparr>Value = v, Ctx = \<lparr>VC = vc, Timestamp = ts, ETag = ''''\<rparr>\<rparr>"

lemmas sample_simps = sampleObj_def CompareObj_def CompareCtx_def CompareVC_def GetAllNodes_def gs_add_def gm_get_def

lemma sample_ok: "gomap_ok vc \<Longrightarrow> ctx_ok (Ctx (sampleObj v vc ts))"
  by (simp add: ctx_ok_def sampleObj_def)

lemma sample_single_ok: "gomap_ok vc \<Longrightarrow> siblings_ok [sampleObj v vc ts] \<and> ts_sorted [sampleObj v vc ts]"
  by (simp add: siblings_ok_def ts_sorted_def objs_ok_def sample_ok antichain_def)

theorem AddObject_refines_witness:
  "set (AddObject [sampleObj ''x'' [(''a'', 1)] 5] (sampleObj ''y'' [(''b'', 1)] 3) None) =
     {sampleObj ''x'' [(''a'', 1)] 5, sampleObj ''y'' [(''b'', 1)] 3}"
proof -
  let ?x = "sampleObj ''x'' [(''a'', 1)] 5" and ?y = "sampleObj ''y'' [(''b'', 1)] 3"
  have can: "CanBeAddedTo ?y [?x]" by (simp add: sample_simps Let_def del: vc_fun_apply)
  have "CompareObj ?y ?x = Concurrent" by (simp add: sample_simps Let_def del: vc_fun_apply)
  then show ?thesis using AddObject_refines[OF can] sample_single_ok sample_ok by auto
qed

text \<open>
  C5: merging objects into a sibling list converges: the versions that remain are the maxima
  of all versions merged, whatever the order and however often an object is repeated.
\<close>

theorem merge_converges:
  assumes "siblings_ok ss" and "objs_ok xs"
  shows "versions (mergeLoop ss xs) = maxima (versions ss \<union> versions xs)
    \<and> siblings_ok (mergeLoop ss xs) \<and> set (mergeLoop ss xs) \<subseteq> set ss \<union> set xs"
  using assms by (simp add: mergeLoop_maxima siblings_ok_mergeLoop mergeLoop_subset)

theorem merge_converges_witness:
  "versions (mergeLoop [sampleObj ''x'' [(''a'', 1)] 5] [sampleObj ''y'' [(''a'', 2)] 7]) =
     maxima (versions [sampleObj ''x'' [(''a'', 1)] 5] \<union> versions [sampleObj ''y'' [(''a'', 2)] 7])"
  using merge_converges[of "[sampleObj ''x'' [(''a'', 1)] 5]" "[sampleObj ''y'' [(''a'', 2)] 7]"]
    sample_single_ok by (simp add: objs_ok_def sample_ok)

text \<open>
  \<open>SortObjects\<close> gives one list for every arrangement of the same siblings, provided their
  timestamps differ; this is the order in which they are hashed.
\<close>

theorem SortObjects_unique:
  assumes "siblings_ok ss" and "mset ss = mset tt" and "distinct (map (\<lambda>s. Timestamp (Ctx s)) ss)"
  shows "SortObjects ss None = SortObjects tt None \<and> mset (SortObjects ss None) = mset ss
    \<and> ts_sorted (SortObjects ss None)"
proof -
  have "distinct (map obj_ver tt)" "set tt = set ss"
    using assms(1,2) mset_eq_imp_distinct_iff[of "map obj_ver ss" "map obj_ver tt"]
    by (simp_all add: siblings_ok_def) (metis mset_eq_setD)
  then have "siblings_ok tt" using assms(1) by (simp add: siblings_ok_def objs_ok_def versions_def)
  then show ?thesis using SortObjects_canonical SortObjects_perm SortObjects_sorted assms by simp
qed

lemma sample_pair_ok:
  "siblings_ok [sampleObj ''x'' [(''a'', 1)] 5, sampleObj ''y'' [(''b'', 1)] 3]"
proof -
  have "CompareObj (sampleObj ''y'' [(''b'', 1)] 3) (sampleObj ''x'' [(''a'', 1)] 5) = Concurrent"
    by (simp add: sample_simps Let_def del: vc_fun_apply)
  then show ?thesis
    by (auto simp: siblings_ok_def objs_ok_def sample_ok antichain_def obj.cmp_concurrent)
qed

theorem SortObjects_unique_witness:
  "SortObjects [sampleObj ''x'' [(''a'', 1)] 5, sampleObj ''y'' [(''b'', 1)] 3] None =
   SortObjects [sampleObj ''y'' [(''b'', 1)] 3, sampleObj ''x'' [(''a'', 1)] 5] None"
  using SortObjects_unique[OF sample_pair_ok, of "[sampleObj ''y'' [(''b'', 1)] 3, sampleObj ''x'' [(''a'', 1)] 5]"]
  by (simp add: sampleObj_def)

text \<open>
  \<open>MergeObjects\<close> does not check the precondition of \<open>AddObject\<close>: merging an older object
  into a list that holds its successor keeps both, with the dominated object first.
\<close>

theorem MergeObjects_keeps_dominated:
  "MergeObjects [sampleObj ''new'' [(''a'', 2)] 9] [sampleObj ''old'' [(''a'', 1)] 4] =
     [sampleObj ''old'' [(''a'', 1)] 4, sampleObj ''new'' [(''a'', 2)] 9]
   \<and> CompareObj (sampleObj ''old'' [(''a'', 1)] 4) (sampleObj ''new'' [(''a'', 2)] 9) = Before"
  by (simp add: MergeObjects_def AddObject_def sample_simps Let_def del: vc_fun_apply)

end
