(* ===== verification/Messages.thy ===== *)
theory Messages
  imports Objects
begin

text \<open>
  The RPC vocabulary of \<^verbatim>\<open>kvsrv/rpc/rpc.go\<close> and the member records of
  \<^verbatim>\<open>kvsrv/rpc/memberInfo.go\<close>: error values, argument and reply structures, node status
  and its order.
\<close>

subsection \<open>Errors\<close>

text \<open>The constants of type \<^verbatim>\<open>Err\<close>; \<open>ErrUnset\<close> is the empty string of a fresh reply.\<close>

datatype Err =
    ErrUnset
  | ErrRPCFailure
  | OK
  | ErrNoKey
  | ErrVersion
  | ErrMaybe
  | ErrNotCoordinator
  | ErrReadQuorumNotMet
  | ErrWriteQuorumNotMet
  | ErrNoHashValue

subsection \<open>Requests and replies\<close>

record PutArgs =
  putKey :: string
  putObject :: Object
  BaseContext :: Context

definition CopyPutArgs :: "PutArgs \<Rightarrow> PutArgs" where
  "CopyPutArgs args =
     \<lparr>putKey = putKey args, putObject = putObject args, BaseContext = CopyCtx (BaseContext args)\<rparr>"

record PutReply =
  putErr :: Err
  putArrivedAt :: int
  putRespondedAt :: int

record GetArgs =
  getKey :: string

record GetReply =
  getObjects :: "Object list"
  getErr :: Err
  getArrivedAt :: int
  getRespondedAt :: int

record ForwardGetResult =
  fgServerID :: string
  fgOK :: bool
  fgReply :: GetReply

record ForwardPutResult =
  fpOK :: bool
  fpErr :: Err

record RepairArgs =
  repKey :: string
  repObjects :: "Object list"
  repDelete :: bool

record TreeSummary =
  tsSector :: nat
  tsHashes :: "bytes list"

record RepairGetDiffArgs =
  rgdSector :: nat
  rgdSummary :: TreeSummary

record KeyInfo =
  kiKey :: string
  kiObjects :: "Object list"

record RepairGetDiffReply =
  DiffKeyInfos :: "KeyInfo list"
  rgdErr :: Err

record HintedPutArgs =
  TargetServer :: string
  hintedPutArgs :: PutArgs

record HintedPutReply =
  hintErr :: Err
  hintArrivedAt :: int
  hintRespondedAt :: int

definition newGetReply :: GetReply where
  "newGetReply = \<lparr>getObjects = [], getErr = ErrUnset, getArrivedAt = 0, getRespondedAt = 0\<rparr>"

definition newPutReply :: PutReply where
  "newPutReply = \<lparr>putErr = ErrUnset, putArrivedAt = 0, putRespondedAt = 0\<rparr>"

definition put_ok :: "PutArgs \<Rightarrow> bool" where
  "put_ok args \<longleftrightarrow> ctx_ok (Ctx (putObject args)) \<and> ctx_ok (BaseContext args)"

lemma CopyPutArgs_id [simp]: "put_ok args \<Longrightarrow> CopyPutArgs args = args"
  by (simp add: CopyPutArgs_def put_ok_def)

subsection \<open>Members\<close>

datatype NodeStatus = Alive | Suspect | Dead

text \<open>The \<^verbatim>\<open>iota\<close> values of the constants give the order that \<^verbatim>\<open>IsWorse\<close> compares.\<close>

fun status_rank :: "NodeStatus \<Rightarrow> nat" where
  "status_rank Alive = 0"
| "status_rank Suspect = 1"
| "status_rank Dead = 2"

lemma status_rank_inj [simp]: "status_rank s = status_rank t \<longleftrightarrow> s = t"
  by (cases s; cases t) auto

instantiation NodeStatus :: linorder
begin

definition less_eq_NodeStatus :: "NodeStatus \<Rightarrow> NodeStatus \<Rightarrow> bool" where
  "less_eq_NodeStatus s t \<longleftrightarrow> status_rank s \<le> status_rank t"

definition less_NodeStatus :: "NodeStatus \<Rightarrow> NodeStatus \<Rightarrow> bool" where
  "less_NodeStatus s t \<longleftrightarrow> status_rank s < status_rank t"

instance
  by standard (auto simp: less_eq_NodeStatus_def less_NodeStatus_def)

end

record MemberInfo =
  ServerID :: string
  Heartbeat :: u64
  Status :: NodeStatus

definition UpdateMember :: "u64 \<Rightarrow> NodeStatus \<Rightarrow> MemberInfo \<Rightarrow> MemberInfo" where
  "UpdateMember heartbeat status m = m\<lparr>Heartbeat := heartbeat, Status := status\<rparr>"

fun IsIn :: "MemberInfo \<Rightarrow> MemberInfo list \<Rightarrow> bool" where
  "IsIn m [] = False"
| "IsIn m (selected # rest) = (if ServerID m = ServerID selected then True else IsIn m rest)"

definition IsWorse :: "MemberInfo \<Rightarrow> MemberInfo \<Rightarrow> bool" where
  "IsWorse m other \<longleftrightarrow> Status m > Status other"

definition IsAlive :: "MemberInfo \<Rightarrow> bool" where
  "IsAlive m \<longleftrightarrow> Status m = Alive"

definition IsSuspect :: "MemberInfo \<Rightarrow> bool" where
  "IsSuspect m \<longleftrightarrow> Status m = Suspect"

definition IsDead :: "MemberInfo \<Rightarrow> bool" where
  "IsDead m \<longleftrightarrow> Status m = Dead"

lemma IsIn_iff: "IsIn m ms \<longleftrightarrow> ServerID m \<in> ServerID ` set ms"
  by (induction ms) auto

end
