(* ===== verification/MerkleTree.thy ===== *)
theory MerkleTree
  imports Messages
begin

text \<open>
  Merkle trees over the buckets of a sector: the pure part of \<^verbatim>\<open>kvsrv/merkle.go\<close> and
  \<open>findDiffBuckets\<close> of \<^verbatim>\<open>kvsrv/anti_entropy.go\<close>. A \<^verbatim>\<open>hash.Hash\<close> is the list of bytes
  written to it. Nodes form a tree, so the \<^verbatim>\<open>Parent\<close> pointer, which only \<^verbatim>\<open>IsRoot\<close> reads, is
  not part of the datatype.

  The theory shows that the bytes a leaf hashes determine the contents of its bucket, that
  a tree over \<open>2 ^ k\<close> buckets is laid out in its summary as a heap, and that
  \<open>findDiffBuckets\<close> terminates without an index panic and finds exactly the buckets that
  differ and are not empty on the answering side.
\<close>

subsection \<open>Writing to a hash\<close>

definition writeUint64 :: "bytes \<Rightarrow> u64 \<Rightarrow> bytes" where
  "writeUint64 h x = h @ put_uint64 x"

definition writeString :: "bytes \<Rightarrow> string \<Rightarrow> bytes" where
  "writeString h s = writeUint64 h (of_nat (length s)) @ string_bytes s"

definition writeBytes :: "bytes \<Rightarrow> bytes \<Rightarrow> bytes" where
  "writeBytes h b = writeUint64 h (of_nat (length b)) @ b"

definition writeObject :: "bytes \<Rightarrow> Object \<Rightarrow> bytes" where
  "writeObject h obj =
     (let h = writeString h (Value obj);
          h = writeUint64 h (Timestamp (Ctx obj));
          vc = ToVCEntries None (VC (Ctx obj));
          h = writeUint64 h (of_nat (length vc))
      in fold (\<lambda>entry h. writeUint64 (writeString h (Node entry)) (Version entry)) vc h)"

definition writeKVPair :: "bytes \<Rightarrow> string \<Rightarrow> Object list \<Rightarrow> bytes" where
  "writeKVPair h key objs =
     (let h = writeString h key;
          h = writeUint64 h (of_nat (length objs));
          objs = (if \<not> IsOrdered objs None then SortObjects objs None else objs)
      in fold (\<lambda>obj h. writeObject h obj) objs h)"

text \<open>\<^verbatim>\<open>h.Sum(nil)\<close> of \<^verbatim>\<open>sha256.New()\<close> after the writes; the sum has the length of the array.\<close>

definition finalizeHash :: "bytes \<Rightarrow> bytes" where
  "finalizeHash h = sha256_Sum256 h"

subsection \<open>Nodes\<close>

datatype MerkleNode = MerkleNode
  (Level: int) (Sector: nat) (Bucket: int) (Left: "MerkleNode option") (Right: "MerkleNode option") (Hash: bytes)

definition IsLeaf :: "MerkleNode \<Rightarrow> bool" where
  "IsLeaf node \<longleftrightarrow> Left node = None \<and> Right node = None"

definition IsInternal :: "MerkleNode \<Rightarrow> bool" where
  "IsInternal node \<longleftrightarrow> Left node \<noteq> None \<and> Right node \<noteq> None"

record sectorSnapshot =
  keysPerBucket :: "string list list"
  snapSiblings :: "string \<rightharpoonup> Object list"

definition sortedKeys :: "string list \<Rightarrow> string list" where
  "sortedKeys keys = (if \<not> sorted keys then go_sort (<) keys else keys)"

text \<open>The bytes a leaf hashes, given the sibling lists of its keys.\<close>

definition leafInput :: "(string \<Rightarrow> Object list) \<Rightarrow> string list \<Rightarrow> bytes" where
  "leafInput objs keys =
     (let keys = sortedKeys keys;
          h = writeUint64 [] (of_nat (length keys));
          h = fold (\<lambda>key h. writeKVPair h key (objs key)) keys h
      in writeString (writeString h ''empty'') ''empty'')"

definition makeMerkleLeafFromSnapshot :: "nat \<Rightarrow> nat \<Rightarrow> sectorSnapshot \<Rightarrow> MerkleNode" where
  "makeMerkleLeafFromSnapshot sector bucket snap =
     MerkleNode 0 sector (int bucket) None None
       (finalizeHash (leafInput (\<lambda>key. case snapSiblings snap key of None \<Rightarrow> [] | Some objs \<Rightarrow> objs)
          (keysPerBucket snap ! bucket)))"

definition writeChild :: "bytes \<Rightarrow> MerkleNode option \<Rightarrow> bytes" where
  "writeChild h child = (case child of None \<Rightarrow> writeString h ''empty'' | Some n \<Rightarrow> writeBytes h (Hash n))"

text \<open>The left child is never \<^verbatim>\<open>nil\<close>: the source reads \<^verbatim>\<open>left.Level\<close> in every case.\<close>

definition makeMerkleInternalNodeFromSnapshot :: "MerkleNode \<Rightarrow> MerkleNode option \<Rightarrow> MerkleNode" where
  "makeMerkleInternalNodeFromSnapshot left right =
     MerkleNode (Level left + 1) (Sector left) (- 1) (Some left) right
       (finalizeHash (writeChild (writeChild [] (Some left)) right))"

fun pairNodes :: "MerkleNode list \<Rightarrow> MerkleNode list" where
  "pairNodes [] = []"
| "pairNodes [a] = [makeMerkleInternalNodeFromSnapshot a None]"
| "pairNodes (a # b # rest) = makeMerkleInternalNodeFromSnapshot a (Some b) # pairNodes rest"

lemma length_pairNodes [simp]: "length (pairNodes ns) = (length ns + 1) div 2"
  by (induction ns rule: pairNodes.induct) auto

function buildLevels :: "MerkleNode list \<Rightarrow> MerkleNode list" where
  "buildLevels leaves = (if length leaves > 1 then buildLevels (pairNodes leaves) else leaves)"
  by pat_completeness auto
termination
  by (relation "measure length") auto

declare buildLevels.simps [simp del]

text \<open>\<^verbatim>\<open>leaves[0]\<close> panics when the sector has no bucket.\<close>

definition buildMerkleTreeFromSnapshot :: "nat \<Rightarrow> sectorSnapshot \<Rightarrow> panic + MerkleNode" where
  "buildMerkleTreeFromSnapshot sector snap =
     (case buildLevels (map (\<lambda>bucket. makeMerkleLeafFromSnapshot sector bucket snap)
             [0..<length (keysPerBucket snap)]) of
        [] \<Rightarrow> Inl IndexOutOfRange
      | root # _ \<Rightarrow> Inr root)"

subsection \<open>Summaries\<close>

text \<open>
  The breadth-first traversal keeps the set of visited node pointers. The pointer of a node
  is its path from the root, \<open>False\<close> for the left child.
\<close>

type_synonym nodePtr = "bool list"

lemma size_child [termination_simp]:
  "Left n = Some c \<Longrightarrow> size c < size n" "Right n = Some c \<Longrightarrow> size c < size n"
  by (cases n; simp)+

lemma size_children: "Left n = Some l \<Longrightarrow> Right n = Some r \<Longrightarrow> Suc (Suc (size l + size r)) < size n"
  by (cases n) simp

function ToSummaryLoop :: "(nodePtr \<times> MerkleNode) list \<Rightarrow> nodePtr set \<Rightarrow> bytes list \<Rightarrow> bytes list" where
  "ToSummaryLoop [] visited hashes = hashes"
| "ToSummaryLoop ((p, node) # queue) visited hashes =
     (let hashes = hashes @ [Hash node];
          visited = insert p visited;
          queue = queue @ (case (Left node, Right node) of
                             (Some l, Some r) \<Rightarrow> (if p @ [False] \<notin> visited then [(p @ [False], l)] else [])
                           | _ \<Rightarrow> []);
          queue = queue @ (case (Left node, Right node) of
                             (Some l, Some r) \<Rightarrow> (if p @ [True] \<notin> visited then [(p @ [True], r)] else [])
                           | _ \<Rightarrow> [])
      in ToSummaryLoop queue visited hashes)"
  by pat_completeness auto
termination
  by (relation "measure (\<lambda>(q, _, _). sum_list (map (\<lambda>(_, n). Suc (size n)) q))")
     (auto split: option.splits dest: size_children)

definition ToSummary :: "MerkleNode \<Rightarrow> TreeSummary" where
  "ToSummary root = \<lparr>tsSector = Sector root, tsHashes = ToSummaryLoop [([], root)] {} []\<rparr>"

definition IsEmptyHash :: "bytes \<Rightarrow> bool" where
  "IsEmptyHash h \<longleftrightarrow>
     h = finalizeHash (writeString (writeString (writeUint64 [] 0) ''empty'') ''empty'')"

subsection \<open>Comparing two summaries\<close>

function findDiffLoop :: "bytes list \<Rightarrow> bytes list \<Rightarrow> nat list \<Rightarrow> nat list \<Rightarrow> panic + nat list" where
  "findDiffLoop myHashes neighborHashes [] diffBuckets = Inr diffBuckets"
| "findDiffLoop myHashes neighborHashes (currPos # queue) diffBuckets =
     (if length myHashes \<le> currPos \<or> length neighborHashes \<le> currPos then Inl IndexOutOfRange
      else if myHashes ! currPos \<noteq> neighborHashes ! currPos then
        if currPos < length myHashes div 2 then
          if length myHashes \<le> currPos * 2 + 2 then Inl IndexOutOfRange
          else let queue = (if \<not> IsEmptyHash (myHashes ! (currPos * 2 + 1)) then queue @ [currPos * 2 + 1] else queue);
                   queue = (if \<not> IsEmptyHash (myHashes ! (currPos * 2 + 2)) then queue @ [currPos * 2 + 2] else queue)
               in findDiffLoop myHashes neighborHashes queue diffBuckets
        else findDiffLoop myHashes neighborHashes queue (diffBuckets @ [currPos - length myHashes div 2])
      else findDiffLoop myHashes neighborHashes queue diffBuckets)"
  by pat_completeness auto

lemma pow3_split:
  assumes "p < n" shows "3 ^ (n - (2 * p + 1)) + 3 ^ (n - (2 * p + 2)) < (3::nat) ^ (n - p)"
proof -
  have "(3::nat) ^ (n - (2 * p + 1)) \<le> 3 ^ (n - p - 1)" "(3::nat) ^ (n - (2 * p + 2)) \<le> 3 ^ (n - p - 1)"
    by (rule power_increasing; simp)+
  moreover have "(3::nat) ^ (n - p) = 3 * 3 ^ (n - p - 1)" using assms by (simp flip: power_Suc)
  moreover have "(0::nat) < 3 ^ (n - p - 1)" by simp
  ultimately show ?thesis by linarith
qed

termination findDiffLoop
proof (relation "measure (\<lambda>(m, _, q, _). sum_list (map (\<lambda>p. 3 ^ (length m - p)) q))", goal_cases)
  case (2 m w p q d x xa)
  then show ?case using pow3_split[of p "length m"] by (auto simp: mult.commute)
qed auto

definition findDiffBuckets :: "TreeSummary \<Rightarrow> TreeSummary \<Rightarrow> panic + nat list" where
  "findDiffBuckets mySummary neighborSummary =
     findDiffLoop (tsHashes mySummary) (tsHashes neighborSummary) [0] []"

subsection \<open>What a leaf hashes determines its bucket\<close>

lemma unat_of_nat64: "n < 2 ^ 64 \<Longrightarrow> unat (of_nat n :: u64) = n"
  by (simp add: unat_of_nat take_bit_nat_eq_self)

text \<open>
  A code whose words can be told apart from what follows them. Fixed-length integers and
  length-prefixed strings are such codes, and so is a counted sequence of code words.
\<close>

locale prefix_code =
  fixes enc :: "'a \<Rightarrow> bytes" and fits :: "'a \<Rightarrow> bool"
  assumes decode: "fits x \<Longrightarrow> fits y \<Longrightarrow> enc x @ r = enc y @ s \<Longrightarrow> x = y \<and> r = s"
begin

lemma decode_list:
  "length xs = length ys \<Longrightarrow> \<forall>x \<in> set xs. fits x \<Longrightarrow> \<forall>y \<in> set ys. fits y \<Longrightarrow>
   concat (map enc xs) @ r = concat (map enc ys) @ s \<Longrightarrow> xs = ys \<and> r = s"
proof (induction xs ys rule: list_induct2)
  case (Cons x xs y ys)
  then have "enc x @ (concat (map enc xs) @ r) = enc y @ (concat (map enc ys) @ s)" by simp
  then have "x = y \<and> concat (map enc xs) @ r = concat (map enc ys) @ s"
    using Cons.prems by (intro decode) auto
  then show ?case using Cons by auto
qed simp

lemma decode_counted:
  assumes "length xs < 2 ^ 64" and "length ys < 2 ^ 64"
    and "\<forall>x \<in> set xs. fits x" and "\<forall>y \<in> set ys. fits y"
    and "put_uint64 (of_nat (length xs)) @ concat (map enc xs) @ r =
         put_uint64 (of_nat (length ys)) @ concat (map enc ys) @ s"
  shows "xs = ys \<and> r = s"
proof -
  have "put_uint64 (of_nat (length xs)) = put_uint64 (of_nat (length ys))
      \<and> concat (map enc xs) @ r = concat (map enc ys) @ s"
    using assms(5) by (simp add: append_eq_append_conv)
  moreover have "length xs = length ys" if "(of_nat (length xs) :: u64) = of_nat (length ys)"
    using that assms(1,2) by (metis unat_of_nat64)
  ultimately show ?thesis using decode_list assms(3,4) by (metis put_uint64_inj)
qed

end

definition fitsString :: "string \<Rightarrow> bool" where
  "fitsString s \<longleftrightarrow> length s < 2 ^ 64"

definition encString :: "string \<Rightarrow> bytes" where
  "encString s = put_uint64 (of_nat (length s)) @ string_bytes s"

lemma writeString_append: "writeString h s = h @ encString s"
  by (simp add: writeString_def writeUint64_def encString_def)

interpretation u64code: prefix_code put_uint64 "\<lambda>_. True"
  by unfold_locales (auto simp: append_eq_append_conv put_uint64_inj)

interpretation bytecode: prefix_code "\<lambda>c. [byte_of c]" "\<lambda>_. True"
  by unfold_locales (auto dest: injD[OF inj_byte_of])

interpretation strcode: prefix_code "encString" fitsString
proof
  fix x y r s assume "fitsString x" "fitsString y" "encString x @ r = encString y @ s"
  then show "x = y \<and> r = s"
    using bytecode.decode_counted[of x y r s]
    by (simp add: encString_def fitsString_def string_bytes_def)
qed

definition encEntry :: "vcEntry \<Rightarrow> bytes" where
  "encEntry e = encString (Node e) @ put_uint64 (Version e)"

interpretation entrycode: prefix_code encEntry "\<lambda>e. fitsString (Node e)"
proof
  fix x y r s assume "fitsString (Node x)" "fitsString (Node y)" "encEntry x @ r = encEntry y @ s"
  then have "Node x = Node y \<and> put_uint64 (Version x) @ r = put_uint64 (Version y) @ s"
    using strcode.decode[of "Node x" "Node y"] by (simp add: encEntry_def)
  then show "x = y \<and> r = s" by (simp add: append_eq_append_conv put_uint64_inj)
qed

text \<open>What is hashed of an object: its value, timestamp and clock; the tag is not.\<close>

type_synonym objData = "string \<times> u64 \<times> vcEntry list"

definition objData :: "Object \<Rightarrow> objData" where
  "objData obj = (Value obj, Timestamp (Ctx obj), ToVCEntries None (VC (Ctx obj)))"

definition encData :: "objData \<Rightarrow> bytes" where
  "encData = (\<lambda>(v, t, es). encString v @ put_uint64 t @ put_uint64 (of_nat (length es)) @ concat (map encEntry es))"

definition fitsData :: "objData \<Rightarrow> bool" where
  "fitsData = (\<lambda>(v, t, es). fitsString v \<and> length es < 2 ^ 64 \<and> (\<forall>e \<in> set es. fitsString (Node e)))"

interpretation datacode: prefix_code encData fitsData
proof
  fix x y r s assume ok: "fitsData x" "fitsData y" and eq: "encData x @ r = encData y @ s"
  obtain v t es v' t' es' where x: "x = (v, t, es)" and y: "y = (v', t', es')" by (metis prod_cases3)
  have "v = v' \<and> put_uint64 t @ put_uint64 (of_nat (length es)) @ concat (map encEntry es) @ r =
      put_uint64 t' @ put_uint64 (of_nat (length es')) @ concat (map encEntry es') @ s"
    using eq ok x y by (intro strcode.decode) (auto simp: encData_def fitsData_def)
  moreover from this have "t = t' \<and> put_uint64 (of_nat (length es)) @ concat (map encEntry es) @ r =
      put_uint64 (of_nat (length es')) @ concat (map encEntry es') @ s"
    by (intro u64code.decode) auto
  moreover from this have "es = es' \<and> r = s"
    using ok x y by (intro entrycode.decode_counted) (auto simp: fitsData_def)
  ultimately show "x = y \<and> r = s" using x y by simp
qed

lemma fold_append_map: "fold (\<lambda>x h. h @ f x) xs h = h @ concat (map f xs)"
  by (induction xs arbitrary: h) auto

lemma writeObject_enc: "writeObject h obj = h @ encData (objData obj)"
proof -
  have "(\<lambda>entry h. writeUint64 (writeString h (Node entry)) (Version entry)) = (\<lambda>e h. h @ encEntry e)"
    by (rule ext)+ (simp add: encEntry_def writeUint64_def writeString_append)
  then show ?thesis
    by (simp add: writeObject_def Let_def fold_append_map encData_def objData_def writeUint64_def writeString_append)
qed

definition hashedOrder :: "Object list \<Rightarrow> Object list" where
  "hashedOrder objs = (if \<not> IsOrdered objs None then SortObjects objs None else objs)"

type_synonym pairData = "string \<times> objData list"

definition encPair :: "pairData \<Rightarrow> bytes" where
  "encPair = (\<lambda>(k, ds). encString k @ put_uint64 (of_nat (length ds)) @ concat (map encData ds))"

definition fitsPair :: "pairData \<Rightarrow> bool" where
  "fitsPair = (\<lambda>(k, ds). fitsString k \<and> length ds < 2 ^ 64 \<and> (\<forall>d \<in> set ds. fitsData d))"

interpretation paircode: prefix_code encPair fitsPair
proof
  fix x y r s assume ok: "fitsPair x" "fitsPair y" and eq: "encPair x @ r = encPair y @ s"
  obtain k ds k' ds' where x: "x = (k, ds)" and y: "y = (k', ds')" by (metis surj_pair)
  have "k = k' \<and> put_uint64 (of_nat (length ds)) @ concat (map encData ds) @ r =
      put_uint64 (of_nat (length ds')) @ concat (map encData ds') @ s"
    using eq ok x y by (intro strcode.decode) (auto simp: encPair_def fitsPair_def)
  moreover from this have "ds = ds' \<and> r = s"
    using ok x y by (intro datacode.decode_counted) (auto simp: fitsPair_def)
  ultimately show "x = y \<and> r = s" using x y by simp
qed

definition pairData :: "(string \<Rightarrow> Object list) \<Rightarrow> string \<Rightarrow> pairData" where
  "pairData objs key = (key, map objData (hashedOrder (objs key)))"

text \<open>The contents of a bucket, as far as they are hashed.\<close>

definition bucketData :: "(string \<Rightarrow> Object list) \<Rightarrow> string list \<Rightarrow> pairData list" where
  "bucketData objs keys = map (pairData objs) (sortedKeys keys)"

definition fitsBucket :: "(string \<Rightarrow> Object list) \<Rightarrow> string list \<Rightarrow> bool" where
  "fitsBucket objs keys \<longleftrightarrow> length keys < 2 ^ 64 \<and> (\<forall>d \<in> set (bucketData objs keys). fitsPair d)"

lemma length_exchange_sort [simp]: "length (exchange_sort lt xs) = length xs"
  by (metis mset_exchange_sort size_mset)

lemma length_hashedOrder [simp]: "length (hashedOrder objs) = length objs"
  by (simp add: hashedOrder_def SortObjects_def Let_def)

lemma writeKVPair_enc: "writeKVPair h key objs = h @ encPair (pairData (\<lambda>_. objs) key)"
  by (simp add: writeKVPair_def Let_def writeObject_enc fold_append_map encPair_def pairData_def
      writeUint64_def writeString_append o_def flip: hashedOrder_def)

lemma pairData_const: "pairData (\<lambda>_. objs k) k = pairData objs k"
  by (simp add: pairData_def)

lemma length_sortedKeys [simp]: "length (sortedKeys ks) = length ks"
  by (simp add: sortedKeys_def go_sort_linorder)

lemma set_sortedKeys [simp]: "set (sortedKeys ks) = set ks"
  by (simp add: sortedKeys_def go_sort_linorder)

lemma sorted_sortedKeys [simp]: "sorted (sortedKeys ks)"
  by (simp add: sortedKeys_def go_sort_linorder)

lemma leafInput_enc:
  "leafInput objs keys = put_uint64 (of_nat (length (bucketData objs keys)))
     @ concat (map encPair (bucketData objs keys)) @ encString ''empty'' @ encString ''empty''"
proof -
  have "(\<lambda>key h. writeKVPair h key (objs key)) = (\<lambda>key h. h @ encPair (pairData objs key))"
    by (rule ext)+ (simp add: writeKVPair_enc pairData_const)
  then show ?thesis
    by (simp add: leafInput_def Let_def fold_append_map bucketData_def writeUint64_def o_def writeString_append)
qed

lemma leafInput_inj:
  assumes "fitsBucket o1 k1" and "fitsBucket o2 k2" and "leafInput o1 k1 = leafInput o2 k2"
  shows "bucketData o1 k1 = bucketData o2 k2"
proof -
  have len: "length (bucketData o1 k1) < 2 ^ 64" "length (bucketData o2 k2) < 2 ^ 64"
    using assms(1,2) by (simp_all add: fitsBucket_def bucketData_def)
  show ?thesis
    using paircode.decode_counted[OF len, of "encString ''empty'' @ encString ''empty''"
        "encString ''empty'' @ encString ''empty''"] assms
    by (simp add: fitsBucket_def leafInput_enc)
qed

subsection \<open>The summary of a tree over \<open>2 ^ k\<close> buckets is a heap\<close>

definition kids :: "nodePtr \<times> MerkleNode \<Rightarrow> (nodePtr \<times> MerkleNode) list" where
  "kids = (\<lambda>(p, n). case (Left n, Right n) of
      (Some l, Some r) \<Rightarrow> [(p @ [False], l), (p @ [True], r)] | _ \<Rightarrow> [])"

lemma ToSummaryLoop_level:
  "\<forall>(p, n) \<in> set q. length p = d \<Longrightarrow> \<forall>p \<in> vis. length p \<le> d \<Longrightarrow>
   ToSummaryLoop (q @ r) vis hs =
   ToSummaryLoop (r @ concat (map kids q)) (vis \<union> fst ` set q) (hs @ map (Hash \<circ> snd) q)"
proof (induction q arbitrary: r vis hs)
  case (Cons pn q)
  obtain p n where pn: "pn = (p, n)" by (cases pn)
  have len: "length p = d" using Cons.prems(1) pn by simp
  have "p @ [b] \<notin> insert p vis" for b using Cons.prems(2) len by fastforce
  then have "ToSummaryLoop ((pn # q) @ r) vis hs =
      ToSummaryLoop (q @ (r @ kids pn)) (insert p vis) (hs @ [Hash n])"
    by (auto simp: pn kids_def Let_def split: option.splits)
  also have "\<dots> = ToSummaryLoop ((r @ kids pn) @ concat (map kids q)) (insert p vis \<union> fst ` set q)
      ((hs @ [Hash n]) @ map (Hash \<circ> snd) q)"
    using Cons.prems len by (intro Cons.IH) auto
  finally show ?case by (simp add: pn o_def)
qed simp

lemma kids_depth: "\<forall>(p, n) \<in> set q. length p = d \<Longrightarrow> \<forall>(p, n) \<in> set (concat (map kids q)). length p = Suc d"
  by (fastforce simp: kids_def split: option.splits prod.splits)

lemma kids_internal:
  "kids (p, makeMerkleInternalNodeFromSnapshot a (Some b)) = [(p @ [False], a), (p @ [True], b)]"
  by (simp add: kids_def makeMerkleInternalNodeFromSnapshot_def)

lemma kids_pairNodes:
  "even (length ns) \<Longrightarrow> map snd q = pairNodes ns \<Longrightarrow> map snd (concat (map kids q)) = ns"
proof (induction ns arbitrary: q rule: pairNodes.induct)
  case (3 a b rest)
  then obtain p q' where "q = (p, makeMerkleInternalNodeFromSnapshot a (Some b)) # q'" "map snd q' = pairNodes rest"
    by auto
  then show ?case using 3 by (simp add: kids_internal)
qed auto

text \<open>The nodes at height \<open>j\<close> above the leaves.\<close>

definition stage :: "MerkleNode list \<Rightarrow> nat \<Rightarrow> MerkleNode list" where
  "stage leaves j = (pairNodes ^^ j) leaves"

lemma stage_simps [simp]: "stage leaves 0 = leaves" "stage leaves (Suc j) = pairNodes (stage leaves j)"
  by (simp_all add: stage_def)

lemma length_stage: "length leaves = 2 ^ K \<Longrightarrow> j \<le> K \<Longrightarrow> length (stage leaves j) = 2 ^ (K - j)"
proof (induction j)
  case (Suc j)
  then have "length (stage leaves j) = 2 * 2 ^ (K - Suc j)" by (simp flip: power_Suc add: Suc_diff_Suc)
  then show ?case by simp
qed simp

lemma buildLevels_stage:
  "length leaves = 2 ^ K \<Longrightarrow> j \<le> K \<Longrightarrow> buildLevels (stage leaves j) = stage leaves K"
proof (induction "K - j" arbitrary: j)
  case 0
  then show ?case using length_stage[of leaves K j] by (simp add: buildLevels.simps)
next
  case (Suc n)
  then have "1 < length (stage leaves j)" using length_stage[of leaves K j] one_less_power[of "2::nat" "K - j"] by simp
  then show ?case using Suc.hyps(1)[of "Suc j"] Suc by (simp add: buildLevels.simps[of "stage leaves j"])
qed

lemma ToSummaryLoop_stages:
  assumes "length leaves = 2 ^ K" and "\<forall>n \<in> set leaves. IsLeaf n"
  shows "k \<le> K \<Longrightarrow> map snd q = stage leaves k \<Longrightarrow> \<forall>(p, n) \<in> set q. length p = d \<Longrightarrow>
    \<forall>p \<in> vis. length p \<le> d \<Longrightarrow>
    ToSummaryLoop q vis hs = hs @ concat (map (\<lambda>j. map Hash (stage leaves j)) (rev [0..<Suc k]))"
proof (induction k arbitrary: q vis hs d)
  case 0
  have "Left n = None" if "(p, n) \<in> set q" for p n
  proof -
    have "n \<in> set (map snd q)" using that by force
    then show ?thesis using assms(2) 0(2) by (simp only: stage_simps IsLeaf_def)
  qed
  then have none: "concat (map kids q) = []" by (auto simp: kids_def)
  show ?case using ToSummaryLoop_level[OF 0(3,4), of "[]" hs, unfolded none] 0(2) by (simp flip: map_map)
next
  case (Suc k)
  have "even (length (stage leaves k))" using length_stage[OF assms(1), of k] Suc.prems(1) by simp
  then have kq: "map snd (concat (map kids q)) = stage leaves k"
    using kids_pairNodes Suc.prems(2) by simp
  have "ToSummaryLoop q vis hs =
      ToSummaryLoop (concat (map kids q)) (vis \<union> fst ` set q) (hs @ map Hash (map snd q))"
    using ToSummaryLoop_level[OF Suc.prems(3,4), of "[]" hs] by simp
  also have "\<dots> = (hs @ map Hash (map snd q)) @ concat (map (\<lambda>j. map Hash (stage leaves j)) (rev [0..<Suc k]))"
    using Suc.prems kq kids_depth[OF Suc.prems(3)] by (intro Suc.IH[of _ "Suc d"]) auto
  finally show ?case using Suc.prems(2) by simp
qed

text \<open>Row \<open>d\<close> of a heap starts at position \<open>2 ^ d - 1\<close>.\<close>

lemma length_rows:
  "(\<And>d. d < D \<Longrightarrow> length (g d) = 2 ^ d) \<Longrightarrow> length (concat (map g [0..<D])) = 2 ^ D - (1::nat)"
  by (induction D) simp_all

lemma nth_rows:
  assumes "\<And>d. d < D \<Longrightarrow> length (g d) = 2 ^ d" and "d < D" and "j < 2 ^ d"
  shows "concat (map g [0..<D]) ! (2 ^ d - 1 + j) = g d ! j"
proof -
  have "[0..<D] = [0..<d] @ d # [Suc d..<D]" using assms(2)     using upt_add_eq_append[of 0 d "D - d"] by (simp add: upt_conv_Cons)
  then have split: "concat (map g [0..<D]) = concat (map g [0..<d]) @ g d @ concat (map g [Suc d..<D])" by simp
  have "length (concat (map g [0..<d])) = 2 ^ d - 1" using assms by (intro length_rows) auto
  then show ?thesis
    unfolding split using assms nth_append_length_plus[of "concat (map g [0..<d])" _ j] by (simp add: nth_append)
qed

lemma rows_of_stages:
  "concat (map (\<lambda>j. f j) (rev [0..<Suc K])) = concat (map (\<lambda>d. f (K - d)) [0..<Suc K])"
proof -
  have "rev [0..<Suc K] = map (\<lambda>d. K - d) [0..<Suc K]"
    by (rule nth_equalityI) (simp_all add: rev_nth del: upt_Suc)
  then show ?thesis by (simp only: map_map o_def)
qed

lemma heap_position: "p < 2 ^ K - 1 \<Longrightarrow> \<exists>d j. d < K \<and> j < 2 ^ d \<and> p = 2 ^ d - 1 + (j::nat)"
proof (induction K)
  case (Suc K)
  show ?case
  proof (cases "p < 2 ^ K - 1")
    case False
    then show ?thesis using Suc.prems by (intro exI[of _ K] exI[of _ "p - (2 ^ K - 1)"]) auto
  qed (use Suc.IH less_SucI in blast)
qed simp

text \<open>
  The hashes of a summary, by row: the nodes of row \<open>d\<close> are those at height \<open>K - d\<close>.
\<close>

lemma summary_rows:
  assumes "length leaves = 2 ^ K" and "\<forall>n \<in> set leaves. IsLeaf n" and "buildLevels leaves = root # xs"
  shows "length (tsHashes (ToSummary root)) = 2 ^ Suc K - 1"
    and "d \<le> K \<Longrightarrow> j < 2 ^ d \<Longrightarrow> tsHashes (ToSummary root) ! (2 ^ d - 1 + j) = Hash (stage leaves (K - d) ! j)"
proof -
  let ?g = "\<lambda>d. map Hash (stage leaves (K - d))"
  have "stage leaves K = root # xs" using buildLevels_stage[OF assms(1), of 0] assms(3) by simp
  moreover have "length (stage leaves K) = 1" using length_stage[OF assms(1), of K] by simp
  ultimately have st: "stage leaves K = [root]" by simp
  have g: "\<And>d. d < Suc K \<Longrightarrow> length (?g d) = 2 ^ d" using length_stage[OF assms(1)] by simp
  have eq: "tsHashes (ToSummary root) = concat (map ?g [0..<Suc K])"
    unfolding ToSummary_def
    using ToSummaryLoop_stages[OF assms(1,2), of K "[([], root)]" 0 "{}" "[]"] st
    by (simp add: rows_of_stages del: upt_Suc)
  show "length (tsHashes (ToSummary root)) = 2 ^ Suc K - 1"
    unfolding eq using g by (rule length_rows)
  show "tsHashes (ToSummary root) ! (2 ^ d - 1 + j) = Hash (stage leaves (K - d) ! j)"
    if "d \<le> K" "j < 2 ^ d"
    unfolding eq using nth_rows[of "Suc K" ?g d j] g that length_stage[OF assms(1), of "K - d"]
    by (simp del: upt_Suc)
qed

subsection \<open>The differing buckets\<close>

text \<open>The buckets the search reports when it reaches a position.\<close>

inductive hit :: "bytes list \<Rightarrow> bytes list \<Rightarrow> nat \<Rightarrow> nat \<Rightarrow> bool" for m w where
  leaf: "length m div 2 \<le> p \<Longrightarrow> p < length m \<Longrightarrow> m ! p \<noteq> w ! p \<Longrightarrow> hit m w p (p - length m div 2)"
| child: "p < length m div 2 \<Longrightarrow> m ! p \<noteq> w ! p \<Longrightarrow> c = 2 * p + 1 \<or> c = 2 * p + 2 \<Longrightarrow>
          \<not> IsEmptyHash (m ! c) \<Longrightarrow> hit m w c b \<Longrightarrow> hit m w p b"

inductive_simps hit_iff: "hit m w p b"

definition heaps :: "bytes list \<Rightarrow> bytes list \<Rightarrow> bool" where
  "heaps m w \<longleftrightarrow> length w = length m \<and> odd (length m)"

lemma findDiffLoop_hits:
  "heaps m w \<Longrightarrow> \<forall>p \<in> set q. p < length m \<Longrightarrow>
   \<exists>res. findDiffLoop m w q d = Inr res \<and> set res = set d \<union> {b. \<exists>p \<in> set q. hit m w p b}"
proof (induction m w q d rule: findDiffLoop.induct)
  case (2 m w p q d)
  have p: "p < length m" "p < length w" using 2(5,4) by (simp_all add: heaps_def)
  consider "m ! p = w ! p" | "m ! p \<noteq> w ! p" "p < length m div 2" | "m ! p \<noteq> w ! p" "length m div 2 \<le> p"
    by linarith
  then show ?case
  proof cases
    case 1
    then show ?thesis using 2 p by (auto simp: hit_iff[of m w p])
  next
    case 3
    then show ?thesis using 2 p by (auto simp: hit_iff[of m w p])
  next
    case c: 2
    have two: "2 * p + 2 < length m" using 2(4) c(2) by (auto simp: heaps_def elim!: oddE)
    let ?q1 = "if \<not> IsEmptyHash (m ! (p * 2 + 1)) then q @ [p * 2 + 1] else q"
    let ?q2 = "if \<not> IsEmptyHash (m ! (p * 2 + 2)) then ?q1 @ [p * 2 + 2] else ?q1"
    have "\<exists>res. findDiffLoop m w ?q2 d = Inr res \<and> set res = set d \<union> {b. \<exists>p \<in> set ?q2. hit m w p b}"
      using 2(1)[of ?q1 ?q2] 2(4,5) p c two by (auto simp: mult.commute)
    moreover have "findDiffLoop m w (p # q) d = findDiffLoop m w ?q2 d"
      using p c two by (simp add: Let_def mult.commute)
    moreover have "hit m w p b \<longleftrightarrow> (\<exists>x \<in> set ?q2 - set q. hit m w x b) \<or>
        (\<exists>x \<in> {2 * p + 1, 2 * p + 2} \<inter> set q. \<not> IsEmptyHash (m ! x) \<and> hit m w x b)" for b
      using c by (subst hit_iff) (auto simp: mult.commute)
    ultimately show ?thesis by (auto split: if_splits)
  qed
qed simp

lemma hit_sound:
  "hit m w p b \<Longrightarrow> b + length m div 2 < length m \<and> m ! (b + length m div 2) \<noteq> w ! (b + length m div 2)
     \<and> (p = b + length m div 2 \<or> \<not> IsEmptyHash (m ! (b + length m div 2)))"
  by (induction rule: hit.induct) auto

text \<open>
  The parent of a differing node differs, and the hash of an inner node is never that of an
  empty bucket: this holds unless the digest collides.
\<close>

definition separated :: "bytes list \<Rightarrow> bytes list \<Rightarrow> bool" where
  "separated m w \<longleftrightarrow> (\<forall>p < length m div 2.
     (m ! p = w ! p \<longrightarrow> m ! (2 * p + 1) = w ! (2 * p + 1) \<and> m ! (2 * p + 2) = w ! (2 * p + 2))
     \<and> \<not> IsEmptyHash (m ! p))"

lemma hit_climb:
  assumes "heaps m w" and "separated m w"
  shows "q < length m \<Longrightarrow> hit m w q b \<Longrightarrow> q = 0 \<or> \<not> IsEmptyHash (m ! q) \<Longrightarrow> hit m w 0 b"
proof (induction q rule: less_induct)
  case (less q)
  show ?case
  proof (cases "q = 0")
    case False
    let ?p = "(q - 1) div 2"
    have q: "q = 2 * ?p + 1 \<or> q = 2 * ?p + 2" using False by linarith
    have p: "?p < length m div 2" "?p < q" using less.prems(1) False assms(1) by (auto simp: heaps_def elim!: oddE)
    have dq: "m ! q \<noteq> w ! q" using less.prems(2) by (auto simp: hit_iff[of m w q])
    have "m ! ?p = w ! ?p \<longrightarrow> m ! (2 * ?p + 1) = w ! (2 * ?p + 1) \<and> m ! (2 * ?p + 2) = w ! (2 * ?p + 2)"
      using assms(2) p(1) by (simp add: separated_def)
    then have "m ! ?p \<noteq> w ! ?p" using dq q by (elim disjE) auto
    then have "hit m w ?p b" using hit.child[OF p(1) _ q] less.prems False by blast
    moreover have "\<not> IsEmptyHash (m ! ?p)" using assms(2) p(1) by (simp add: separated_def)
    ultimately show ?thesis using less.IH[of ?p] p less.prems(1) by simp
  qed (use less.prems in simp)
qed

lemma findDiffLoop_exact:
  assumes "heaps m w" and "separated m w"
  shows "\<exists>res. findDiffLoop m w [0] [] = Inr res \<and>
    set res = {b. b + length m div 2 < length m \<and> m ! (b + length m div 2) \<noteq> w ! (b + length m div 2)
                  \<and> (length m = 1 \<or> \<not> IsEmptyHash (m ! (b + length m div 2)))}"
proof -
  have pos: "0 < length m" using assms(1) by (auto simp: heaps_def elim!: oddE)
  then obtain res where res: "findDiffLoop m w [0] [] = Inr res" "set res = {b. hit m w 0 b}"
    using findDiffLoop_hits[OF assms(1), of "[0]" "[]"] by (auto simp del: findDiffLoop.simps)
  have "hit m w 0 b \<longleftrightarrow> b + length m div 2 < length m \<and> m ! (b + length m div 2) \<noteq> w ! (b + length m div 2)
      \<and> (length m = 1 \<or> \<not> IsEmptyHash (m ! (b + length m div 2)))" (is "_ \<longleftrightarrow> ?R") for b
  proof
    assume "hit m w 0 b"
    from hit_sound[OF this] show ?R
    proof (elim conjE, intro conjI)
      assume "0 = b + length m div 2 \<or> \<not> IsEmptyHash (m ! (b + length m div 2))"
      moreover have "length m = 1" if "0 = b + length m div 2" using that pos by linarith
      ultimately show "length m = 1 \<or> \<not> IsEmptyHash (m ! (b + length m div 2))" by blast
    qed
  next
    assume r: ?R
    then have "hit m w (b + length m div 2) b"
      using hit.leaf[of m "b + length m div 2" w] by simp
    then show "hit m w 0 b" using r by (intro hit_climb[OF assms, of "b + length m div 2"]) auto
  qed
  then show ?thesis using res by auto
qed

text \<open>The buckets are reported in increasing order, without repetition.\<close>

lemma findDiffLoop_sorted:
  "sorted_wrt (<) (map (\<lambda>b. b + length m div 2) d @ q) \<Longrightarrow> \<forall>x \<in> set q. x \<le> 2 * hd q \<Longrightarrow>
   findDiffLoop m w q d = Inr res \<Longrightarrow> sorted_wrt (<) res"
proof (induction m w q d rule: findDiffLoop.induct)
  case (1 m w d)
  then show ?case by (simp add: sorted_wrt_map)
next
  case (2 m w p q d)
  let ?q1 = "if \<not> IsEmptyHash (m ! (p * 2 + 1)) then q @ [p * 2 + 1] else q"
  let ?q2 = "if \<not> IsEmptyHash (m ! (p * 2 + 2)) then ?q1 @ [p * 2 + 2] else ?q1"
  have lt: "\<forall>x \<in> set q. p < x" "\<forall>x \<in> set q. x \<le> 2 * p" "\<forall>b \<in> set d. b + length m div 2 < p"
    using 2(4,5) by (auto simp: sorted_wrt_append)
  have q: "sorted_wrt (<) (map (\<lambda>b. b + length m div 2) d @ q)" using 2(4) by (auto simp: sorted_wrt_append)
  have hq: "\<forall>x \<in> set q. x \<le> 2 * hd q" using lt by (cases q) auto
  consider "m ! p = w ! p" | "m ! p \<noteq> w ! p" "p < length m div 2" | "m ! p \<noteq> w ! p" "length m div 2 \<le> p" by linarith
  then show ?case
  proof cases
    case 1
    then show ?thesis using 2(3)[OF _ _ q hq] 2(6) by (auto split: if_splits)
  next
    case c: 2
    have "sorted_wrt (<) (map (\<lambda>b. b + length m div 2) d @ ?q2)"
      using q lt by (fastforce simp: sorted_wrt_append)
    moreover have "\<forall>x \<in> set ?q2. x \<le> 2 * hd ?q2"
      using lt hq by (cases q) auto
    ultimately show ?thesis using 2(1)[of ?q1 ?q2] 2(6) c by (auto simp: Let_def split: if_splits)
  next
    case c: 3
    have "sorted_wrt (<) (map (\<lambda>b. b + length m div 2) (d @ [p - length m div 2]) @ q)"
      using q lt c(2) by (auto simp: sorted_wrt_append)
    then show ?thesis using 2(2)[OF _ c(1) _ _ hq] 2(6) c by (auto split: if_splits)
  qed
qed

subsection \<open>Trees of two snapshots\<close>

fun inner_inputs :: "MerkleNode \<Rightarrow> bytes set" where
  "inner_inputs (MerkleNode _ _ _ None _ _) = {}"
| "inner_inputs (MerkleNode _ _ _ (Some l) None _) = insert (writeChild (writeChild [] (Some l)) None) (inner_inputs l)"
| "inner_inputs (MerkleNode _ _ _ (Some l) (Some r) _) =
     insert (writeChild (writeChild [] (Some l)) (Some r)) (inner_inputs l \<union> inner_inputs r)"

definition pairInput :: "MerkleNode \<Rightarrow> MerkleNode \<Rightarrow> bytes" where
  "pairInput a b = writeChild (writeChild [] (Some a)) (Some b)"

lemma pairNodes_nth:
  "even (length ns) \<Longrightarrow> j < length ns div 2 \<Longrightarrow>
   pairNodes ns ! j = makeMerkleInternalNodeFromSnapshot (ns ! (2 * j)) (Some (ns ! (2 * j + 1)))"
proof (induction ns arbitrary: j rule: pairNodes.induct)
  case (3 a b rest)
  then show ?case by (cases j) auto
qed auto

lemma inner_inputs_pair:
  "inner_inputs (makeMerkleInternalNodeFromSnapshot a (Some b)) =
     insert (pairInput a b) (inner_inputs a \<union> inner_inputs b)"
  by (simp add: makeMerkleInternalNodeFromSnapshot_def pairInput_def)

lemma Hash_pair: "Hash (makeMerkleInternalNodeFromSnapshot a (Some b)) = finalizeHash (pairInput a b)"
  by (simp add: makeMerkleInternalNodeFromSnapshot_def pairInput_def)

lemma stage_pair:
  assumes "length leaves = 2 ^ K" and "d < K" and "j < 2 ^ d"
  shows "stage leaves (K - d) ! j = makeMerkleInternalNodeFromSnapshot
      (stage leaves (K - Suc d) ! (2 * j)) (Some (stage leaves (K - Suc d) ! (2 * j + 1)))"
proof -
  have "length (stage leaves (K - Suc d)) = 2 ^ Suc d"
    using length_stage[OF assms(1), of "K - Suc d"] assms(2) by simp
  moreover have "stage leaves (K - d) = pairNodes (stage leaves (K - Suc d))"
    using assms(2) by (metis Suc_diff_Suc stage_simps(2))
  ultimately show ?thesis using assms(3) by (simp add: pairNodes_nth)
qed

lemma stage_inputs:
  assumes "length leaves = 2 ^ K" and "stage leaves K = [root]"
  shows "d \<le> K \<Longrightarrow> j < 2 ^ d \<Longrightarrow> inner_inputs (stage leaves (K - d) ! j) \<subseteq> inner_inputs root"
proof (induction d arbitrary: j)
  case (Suc d)
  let ?i = "j div 2"
  have i: "?i < 2 ^ d" using Suc.prems(2) by simp
  have "j = 2 * ?i \<or> j = 2 * ?i + 1" by linarith
  then have "inner_inputs (stage leaves (K - Suc d) ! j) \<subseteq> inner_inputs (stage leaves (K - d) ! ?i)"
    using stage_pair[OF assms(1) _ i] Suc.prems(1) by (auto simp: inner_inputs_pair)
  then show ?case using Suc.IH[OF _ i] Suc.prems(1) by simp
qed (simp add: assms(2))

lemma length_finalizeHash [simp]: "length (finalizeHash h) = 32"
  by (simp add: finalizeHash_def)

definition hashed_nodes :: "MerkleNode list \<Rightarrow> bool" where
  "hashed_nodes ns \<longleftrightarrow> (\<forall>n \<in> set ns. length (Hash n) = 32)"

lemma hashed_stage: "hashed_nodes leaves \<Longrightarrow> hashed_nodes (stage leaves j)"
proof (induction j)
  case (Suc j)
  have "hashed_nodes ns \<Longrightarrow> hashed_nodes (pairNodes ns)" for ns
    by (induction ns rule: pairNodes.induct) (auto simp: hashed_nodes_def makeMerkleInternalNodeFromSnapshot_def)
  then show ?case using Suc by simp
qed simp

lemma pairInput_inj:
  assumes "length (Hash a) = 32" "length (Hash b) = 32" "length (Hash c) = 32" "length (Hash d) = 32"
  shows "pairInput a b = pairInput c d \<longleftrightarrow> Hash a = Hash c \<and> Hash b = Hash d"
  using assms by (simp add: pairInput_def writeChild_def writeBytes_def writeUint64_def append_eq_append_conv)

definition emptyInput :: bytes where
  "emptyInput = writeString (writeString (writeUint64 [] 0) ''empty'') ''empty''"

lemma IsEmptyHash_iff: "IsEmptyHash h \<longleftrightarrow> h = finalizeHash emptyInput"
  by (simp add: IsEmptyHash_def emptyInput_def)

lemma pairInput_not_empty: "length (Hash a) = 32 \<Longrightarrow> pairInput a b \<noteq> emptyInput"
proof
  assume "length (Hash a) = 32" "pairInput a b = emptyInput"
  then have "take 8 (pairInput a b) = put_uint64 32" "take 8 emptyInput = put_uint64 0"
    by (simp_all add: pairInput_def emptyInput_def writeChild_def writeBytes_def writeUint64_def writeString_def)
  then show False using \<open>pairInput a b = emptyInput\<close> put_uint64_inj[of 32 0] by simp
qed

lemma separated_trees:
  assumes "length l1 = 2 ^ K" "length l2 = 2 ^ K" and leaf: "\<forall>n \<in> set l1. IsLeaf n" "\<forall>n \<in> set l2. IsLeaf n"
    and h: "hashed_nodes l1" "hashed_nodes l2"
    and root: "buildLevels l1 = t1 # xs" "buildLevels l2 = t2 # ys"
    and inj: "inj_on finalizeHash (inner_inputs t1 \<union> inner_inputs t2 \<union> {emptyInput})"
  shows "heaps (tsHashes (ToSummary t1)) (tsHashes (ToSummary t2))
    \<and> separated (tsHashes (ToSummary t1)) (tsHashes (ToSummary t2))"
proof -
  let ?m = "tsHashes (ToSummary t1)" and ?w = "tsHashes (ToSummary t2)"
  note len = summary_rows(1)[OF assms(1) leaf(1) root(1)] summary_rows(1)[OF assms(2) leaf(2) root(2)]
  note row = summary_rows(2)[OF assms(1) leaf(1) root(1)] summary_rows(2)[OF assms(2) leaf(2) root(2)]
  have single: "stage l K = [t]" if "length l = 2 ^ K" "buildLevels l = t # zs" for l t zs
  proof -
    have "stage l K = t # zs" using buildLevels_stage[OF that(1), of 0] that(2) by simp
    then show ?thesis using length_stage[OF that(1), of K] by simp
  qed
  note in1 = stage_inputs[OF assms(1) single[OF assms(1) root(1)]]
    and in2 = stage_inputs[OF assms(2) single[OF assms(2) root(2)]]
  have "(?m ! p = ?w ! p \<longrightarrow> ?m ! (2 * p + 1) = ?w ! (2 * p + 1) \<and> ?m ! (2 * p + 2) = ?w ! (2 * p + 2))
      \<and> \<not> IsEmptyHash (?m ! p)" if "p < length ?m div 2" for p
  proof -
    have "p < 2 ^ K - 1" using that len(1) by simp
    then obtain d j where dj: "d < K" "j < 2 ^ d" "p = 2 ^ d - 1 + j" using heap_position by blast
    let ?a = "stage l1 (K - Suc d) ! (2 * j)" and ?b = "stage l1 (K - Suc d) ! (2 * j + 1)"
    let ?c = "stage l2 (K - Suc d) ! (2 * j)" and ?e = "stage l2 (K - Suc d) ! (2 * j + 1)"
    have pos: "2 * p + 1 = 2 ^ Suc d - 1 + 2 * j" "2 * p + 2 = 2 ^ Suc d - 1 + (2 * j + 1)"
    proof -
      have "Suc p = 2 ^ d + j" unfolding dj(3) by simp
      then show "2 * p + 1 = 2 ^ Suc d - 1 + 2 * j" "2 * p + 2 = 2 ^ Suc d - 1 + (2 * j + 1)" by simp_all
    qed
    have m: "?m ! p = finalizeHash (pairInput ?a ?b)" "?w ! p = finalizeHash (pairInput ?c ?e)"
      using row(1)[of d j] row(2)[of d j] dj stage_pair[OF assms(1) dj(1,2)] stage_pair[OF assms(2) dj(1,2)]
      by (simp_all add: Hash_pair)
    have kid: "?m ! (2 * p + 1) = Hash ?a" "?m ! (2 * p + 2) = Hash ?b"
        "?w ! (2 * p + 1) = Hash ?c" "?w ! (2 * p + 2) = Hash ?e"
      unfolding pos using row(1)[of "Suc d" "2 * j"] row(1)[of "Suc d" "2 * j + 1"]
        row(2)[of "Suc d" "2 * j"] row(2)[of "Suc d" "2 * j + 1"] dj by simp_all
    have mem: "pairInput ?a ?b \<in> inner_inputs t1" "pairInput ?c ?e \<in> inner_inputs t2"
      using in1[of d j] in2[of d j] dj stage_pair[OF assms(1) dj(1,2)] stage_pair[OF assms(2) dj(1,2)]
      by (auto simp: inner_inputs_pair)
    have "2 * j + 1 < 2 ^ Suc d" using dj(2) by simp
    then have h32: "length (Hash ?a) = 32" "length (Hash ?b) = 32" "length (Hash ?c) = 32" "length (Hash ?e) = 32"
      using hashed_stage[OF h(1), of "K - Suc d"] hashed_stage[OF h(2), of "K - Suc d"] dj(1)
        length_stage[OF assms(1), of "K - Suc d"] length_stage[OF assms(2), of "K - Suc d"]
      by (simp_all add: hashed_nodes_def)
    show ?thesis
      unfolding m kid IsEmptyHash_iff
      using inj_onD[OF inj, of "pairInput ?a ?b" "pairInput ?c ?e"] inj_onD[OF inj, of "pairInput ?a ?b" emptyInput]
        mem pairInput_inj[OF h32] pairInput_not_empty[OF h32(1)] by auto
  qed
  then show ?thesis using len by (simp add: heaps_def separated_def)
qed

definition snapObjs :: "sectorSnapshot \<Rightarrow> string \<Rightarrow> Object list" where
  "snapObjs snap key = (case snapSiblings snap key of None \<Rightarrow> [] | Some objs \<Rightarrow> objs)"

definition leafIn :: "sectorSnapshot \<Rightarrow> nat \<Rightarrow> bytes" where
  "leafIn snap b = leafInput (snapObjs snap) (keysPerBucket snap ! b)"

definition contents :: "sectorSnapshot \<Rightarrow> nat \<Rightarrow> pairData list" where
  "contents snap b = bucketData (snapObjs snap) (keysPerBucket snap ! b)"

text \<open>Every input hashed while a tree is built.\<close>

definition tree_inputs :: "sectorSnapshot \<Rightarrow> MerkleNode \<Rightarrow> bytes set" where
  "tree_inputs snap t = inner_inputs t \<union> leafIn snap ` {0..<length (keysPerBucket snap)} \<union> {emptyInput}"

definition fitsSnapshot :: "sectorSnapshot \<Rightarrow> bool" where
  "fitsSnapshot snap \<longleftrightarrow> (\<forall>keys \<in> set (keysPerBucket snap). fitsBucket (snapObjs snap) keys)"

lemma Hash_leaf: "Hash (makeMerkleLeafFromSnapshot sector b snap) = finalizeHash (leafIn snap b)"
  by (simp add: makeMerkleLeafFromSnapshot_def leafIn_def snapObjs_def[abs_def])

lemma emptyInput_leaf: "emptyInput = leafInput objs []"
  by (simp add: emptyInput_def leafInput_def sortedKeys_def Let_def)

lemma leafIn_contents:
  assumes "fitsSnapshot s1" "fitsSnapshot s2" "b < length (keysPerBucket s1)" "c < length (keysPerBucket s2)"
  shows "leafIn s1 b = leafIn s2 c \<longleftrightarrow> contents s1 b = contents s2 c"
proof
  assume "leafIn s1 b = leafIn s2 c"
  then show "contents s1 b = contents s2 c"
    unfolding leafIn_def contents_def using assms by (intro leafInput_inj) (auto simp: fitsSnapshot_def)
qed (simp add: leafIn_def contents_def leafInput_enc)

lemma leafIn_empty:
  assumes "fitsSnapshot s" "b < length (keysPerBucket s)"
  shows "leafIn s b = emptyInput \<longleftrightarrow> contents s b = []"
proof
  assume "leafIn s b = emptyInput"
  then have "contents s b = bucketData (snapObjs s) []"
    unfolding leafIn_def contents_def emptyInput_leaf[of "snapObjs s"] using assms
  proof (intro leafInput_inj)
    show "fitsBucket (snapObjs s) []" by (simp add: fitsBucket_def bucketData_def sortedKeys_def)
  qed (auto simp: fitsSnapshot_def)
  then show "contents s b = []" by (simp add: bucketData_def sortedKeys_def)
next
  assume "contents s b = []"
  then have "keysPerBucket s ! b = []" by (simp add: contents_def bucketData_def flip: length_0_conv)
  then show "leafIn s b = emptyInput" by (simp add: leafIn_def emptyInput_leaf[of "snapObjs s"])
qed

lemma build_leaves:
  assumes "buildMerkleTreeFromSnapshot sector s = Inr t"
  shows "\<exists>xs. buildLevels (map (\<lambda>b. makeMerkleLeafFromSnapshot sector b s) [0..<length (keysPerBucket s)]) = t # xs"
  using assms by (auto simp: buildMerkleTreeFromSnapshot_def split: list.splits)

lemma findDiffBuckets_exact:
  assumes "length (keysPerBucket s1) = 2 ^ K" "length (keysPerBucket s2) = 2 ^ K"
    and "buildMerkleTreeFromSnapshot sector s1 = Inr t1" "buildMerkleTreeFromSnapshot sector s2 = Inr t2"
    and fit: "fitsSnapshot s1" "fitsSnapshot s2"
    and inj: "inj_on finalizeHash (tree_inputs s1 t1 \<union> tree_inputs s2 t2)"
  shows "\<exists>bs. findDiffBuckets (ToSummary t1) (ToSummary t2) = Inr bs \<and> distinct bs \<and>
    set bs = {b. b < 2 ^ K \<and> contents s1 b \<noteq> contents s2 b \<and> (K = 0 \<or> contents s1 b \<noteq> [])}"
proof -
  let ?l1 = "map (\<lambda>b. makeMerkleLeafFromSnapshot sector b s1) [0..<length (keysPerBucket s1)]"
  let ?l2 = "map (\<lambda>b. makeMerkleLeafFromSnapshot sector b s2) [0..<length (keysPerBucket s2)]"
  let ?m = "tsHashes (ToSummary t1)" and ?w = "tsHashes (ToSummary t2)"
  obtain xs ys where root: "buildLevels ?l1 = t1 # xs" "buildLevels ?l2 = t2 # ys"
    using build_leaves assms(3,4) by blast
  have l: "length ?l1 = 2 ^ K" "length ?l2 = 2 ^ K" using assms(1,2) by simp_all
  have leaf: "\<forall>n \<in> set ?l1. IsLeaf n" "\<forall>n \<in> set ?l2. IsLeaf n"
    and h: "hashed_nodes ?l1" "hashed_nodes ?l2"
    by (auto simp: IsLeaf_def makeMerkleLeafFromSnapshot_def hashed_nodes_def)
  have "inj_on finalizeHash (inner_inputs t1 \<union> inner_inputs t2 \<union> {emptyInput})"
    using inj by (rule inj_on_subset) (auto simp: tree_inputs_def)
  then have sep: "heaps ?m ?w" "separated ?m ?w"
    using separated_trees[OF l leaf h root] by simp_all
  have len: "length ?m = 2 ^ Suc K - 1" using summary_rows(1)[OF l(1) leaf(1) root(1)] .
  then have half: "length ?m div 2 = 2 ^ K - 1" by simp
  have at: "?m ! (b + length ?m div 2) = finalizeHash (leafIn s1 b)"
      "?w ! (b + length ?m div 2) = finalizeHash (leafIn s2 b)" if "b < 2 ^ K" for b
    unfolding half
    using summary_rows(2)[OF l(1) leaf(1) root(1), of K b] summary_rows(2)[OF l(2) leaf(2) root(2), of K b]
      that assms(1,2) by (simp_all add: Hash_leaf add.commute)
  have same: "finalizeHash (leafIn s1 b) = finalizeHash (leafIn s2 b) \<longleftrightarrow> contents s1 b = contents s2 b"
    if "b < 2 ^ K" for b
    using inj_on_eq_iff[OF inj, of "leafIn s1 b" "leafIn s2 b"] leafIn_contents[OF fit, of b b] that assms(1,2)
    by (simp add: tree_inputs_def)
  have emp: "IsEmptyHash (finalizeHash (leafIn s1 b)) \<longleftrightarrow> contents s1 b = []" if "b < 2 ^ K" for b
    using inj_on_eq_iff[OF inj, of "leafIn s1 b" emptyInput] leafIn_empty[OF fit(1), of b] that assms(1)
    by (simp add: tree_inputs_def IsEmptyHash_iff)
  have rng: "b + length ?m div 2 < length ?m \<longleftrightarrow> b < 2 ^ K" for b unfolding half len by auto
  have one: "length ?m = 1 \<longleftrightarrow> K = 0"
  proof (cases K)
    case (Suc n)
    have "1 \<le> (2::nat) ^ n" by simp
    then have "4 * (2::nat) ^ n - 1 \<noteq> 1" by linarith
    then show ?thesis using len Suc by simp
  qed (simp add: len)
  have "distinct bs" if "findDiffLoop ?m ?w [0] [] = Inr bs" for bs
    using findDiffLoop_sorted[OF _ _ that] by (simp add: strict_sorted_iff)
  then show ?thesis
    using findDiffLoop_exact[OF sep] unfolding findDiffBuckets_def rng one
    by (auto simp: at same emp simp del: findDiffLoop.simps cong: conj_cong)
qed

lemma ToSummaryLoop_prefix: "\<exists>zs. ToSummaryLoop q vis hs = hs @ zs"
proof (induction q vis hs rule: ToSummaryLoop.induct)
  case (2 p n q vis hs)
  obtain zs where "ToSummaryLoop ((p, n) # q) vis hs = (hs @ [Hash n]) @ zs"
    using 2[OF refl refl refl refl] unfolding ToSummaryLoop.simps Let_def prod.case by blast
  then show ?case by (simp only: append_assoc) blast
qed simp

lemma summary_head: "\<exists>zs. tsHashes (ToSummary t) = Hash t # zs"
  using ToSummaryLoop_prefix[of _ "{[]}" "[Hash t]"] by (simp add: ToSummary_def Let_def)

lemma same_root_no_diff:
  "Hash t1 = Hash t2 \<Longrightarrow> findDiffBuckets (ToSummary t1) (ToSummary t2) = Inr []"
proof -
  assume same: "Hash t1 = Hash t2"
  obtain z1 z2 where z: "tsHashes (ToSummary t1) = Hash t1 # z1" "tsHashes (ToSummary t2) = Hash t2 # z2"
    using summary_head by metis
  have "findDiffLoop (Hash t1 # z1) (Hash t2 # z2) [0] [] = findDiffLoop (Hash t1 # z1) (Hash t2 # z2) [] []"
    by (subst findDiffLoop.simps(2)) (simp add: same del: findDiffLoop.simps)
  then show ?thesis by (simp only: findDiffBuckets_def z findDiffLoop.simps(1))
qed

lemma build_total: "keysPerBucket s \<noteq> [] \<Longrightarrow> \<exists>t. buildMerkleTreeFromSnapshot sector s = Inr t"
proof -
  assume "keysPerBucket s \<noteq> []"
  have "ns \<noteq> [] \<Longrightarrow> buildLevels ns \<noteq> []" for ns
  proof (induction ns rule: buildLevels.induct)
    case (1 ns)
    then have "pairNodes ns \<noteq> []" by (cases ns rule: pairNodes.cases) auto
    then show ?case using 1 by (subst buildLevels.simps) auto
  qed
  then show ?thesis using \<open>keysPerBucket s \<noteq> []\<close>
    by (auto simp: buildMerkleTreeFromSnapshot_def split: list.splits)
qed


subsection \<open>A small sector\<close>

text \<open>
  A sector of one bucket. The two digests are those of SHA-256, computed in the logic, so
  that the collision hypothesis below is seen to hold for them.
\<close>

definition sampleSnap :: "string list \<Rightarrow> sectorSnapshot" where
  "sampleSnap keys = \<lparr>keysPerBucket = [keys], snapSiblings = (\<lambda>k. if k \<in> set keys then Some [] else None)\<rparr>"

lemma hashedOrder_Nil [simp]: "hashedOrder [] = []"
  using length_hashedOrder[of "[]"] by (simp del: length_hashedOrder)

lemma sampleSnap_contents:
  "contents (sampleSnap []) 0 = []" "contents (sampleSnap [k]) 0 = [(k, [])]"
  by (simp_all add: contents_def sampleSnap_def bucketData_def pairData_def snapObjs_def sortedKeys_def go_sort_linorder)

lemma sampleSnap_leafIn:
  "leafIn (sampleSnap []) 0 = emptyInput"
  "leafIn (sampleSnap [k]) 0 = put_uint64 1 @ encString k @ put_uint64 0 @ encString ''empty'' @ encString ''empty''"
proof -
  show "leafIn (sampleSnap []) 0 = emptyInput" by (simp add: leafIn_def sampleSnap_def flip: emptyInput_leaf)
  show "leafIn (sampleSnap [k]) 0 = put_uint64 1 @ encString k @ put_uint64 0 @ encString ''empty'' @ encString ''empty''"
    using sampleSnap_contents(2)[of k] by (simp add: leafIn_def leafInput_enc encPair_def flip: contents_def)
qed

lemma sampleSnap_tree:
  "buildMerkleTreeFromSnapshot sector (sampleSnap keys) = Inr (makeMerkleLeafFromSnapshot sector 0 (sampleSnap keys))"
  "tree_inputs (sampleSnap keys) (makeMerkleLeafFromSnapshot sector 0 (sampleSnap keys)) = {leafIn (sampleSnap keys) 0, emptyInput}"
proof -
  show "buildMerkleTreeFromSnapshot sector (sampleSnap keys) = Inr (makeMerkleLeafFromSnapshot sector 0 (sampleSnap keys))"
    by (simp add: buildMerkleTreeFromSnapshot_def sampleSnap_def buildLevels.simps)
  show "tree_inputs (sampleSnap keys) (makeMerkleLeafFromSnapshot sector 0 (sampleSnap keys)) = {leafIn (sampleSnap keys) 0, emptyInput}"
    by (simp add: tree_inputs_def makeMerkleLeafFromSnapshot_def insert_commute) (simp add: sampleSnap_def)
qed

lemma sampleSnap_fits: "fitsSnapshot (sampleSnap [])" "fitsString k \<Longrightarrow> fitsSnapshot (sampleSnap [k])"
  by (simp_all add: fitsSnapshot_def fitsBucket_def sampleSnap_def bucketData_def pairData_def snapObjs_def
      sortedKeys_def go_sort_linorder fitsPair_def)

lemma digest_empty:
  "finalizeHash (put_uint64 0 @ encString ''empty'' @ encString ''empty'') =
    [57, 58, 95, 3, 137, 104, 115, 25, 47, 211, 168, 107, 117, 249, 182, 100,
     160, 236, 59, 117, 83, 92, 184, 203, 199, 64, 218, 231, 17, 197, 1, 137]"
  by code_simp

lemma digest_x:
  "finalizeHash (put_uint64 1 @ encString ''x'' @ put_uint64 0 @ encString ''empty'' @ encString ''empty'') =
    [172, 122, 37, 222, 1, 83, 206, 122, 114, 89, 84, 154, 154, 55, 106, 144,
     244, 83, 42, 36, 120, 131, 11, 162, 112, 111, 109, 243, 244, 214, 34, 0]"
  by code_simp

lemma sample_no_collision: "inj_on finalizeHash {leafIn (sampleSnap [''x'']) 0, emptyInput}"
proof -
  have e: "emptyInput = put_uint64 0 @ encString ''empty'' @ encString ''empty''"
    by (simp add: emptyInput_def writeUint64_def writeString_append)
  have "finalizeHash (leafIn (sampleSnap [''x'']) 0) \<noteq> finalizeHash emptyInput"
    unfolding sampleSnap_leafIn(2) e digest_empty digest_x by simp
  then show ?thesis by (simp add: inj_on_def)
qed

subsection \<open>Properties\<close>

text \<open>
  C13: the input hashed for a bucket determines what the bucket holds: two buckets give the
  same bytes exactly when they hold the same keys with the same siblings (values, timestamps
  and vector clocks, in the order of the digest). The length prefixes make the encoding of
  strings, clocks, objects and keys unambiguous.
\<close>

theorem leaf_digest_injective:
  assumes "fitsBucket o1 k1" and "fitsBucket o2 k2"
  shows "leafInput o1 k1 = leafInput o2 k2 \<longleftrightarrow> bucketData o1 k1 = bucketData o2 k2"
  using leafInput_inj[OF assms] by (auto simp: leafInput_enc)

theorem leaf_digest_injective_witness:
  "leafInput (\<lambda>_. []) [''a'', ''b''] = leafInput (\<lambda>_. []) [''b'', ''a'']
   \<and> leafInput (\<lambda>_. []) [''a'', ''b''] \<noteq> leafInput (\<lambda>_. []) [''ab'']"
  using leaf_digest_injective[of "\<lambda>_. []" "[''a'', ''b'']" "\<lambda>_. []" "[''b'', ''a'']"]
    leaf_digest_injective[of "\<lambda>_. []" "[''a'', ''b'']" "\<lambda>_. []" "[''ab'']"]
  by (simp add: fitsBucket_def bucketData_def pairData_def sortedKeys_def go_sort_linorder fitsPair_def fitsString_def
      list_less_def)

text \<open>
  C12: comparing the summaries of two Merkle trees over \<open>2 ^ K\<close> buckets does not fail and
  returns, without repetition, exactly the buckets whose contents differ, except those that
  are empty on the local side when there is more than one bucket, provided SHA-256 has no
  collision among the inputs that were hashed.
\<close>

theorem merkle_diff_exact:
  assumes "length (keysPerBucket s1) = 2 ^ K" "length (keysPerBucket s2) = 2 ^ K"
    and "buildMerkleTreeFromSnapshot sector s1 = Inr t1" "buildMerkleTreeFromSnapshot sector s2 = Inr t2"
    and "fitsSnapshot s1" "fitsSnapshot s2"
    and "inj_on finalizeHash (tree_inputs s1 t1 \<union> tree_inputs s2 t2)"
  shows "\<exists>bs. findDiffBuckets (ToSummary t1) (ToSummary t2) = Inr bs \<and> distinct bs \<and>
    set bs = {b. b < 2 ^ K \<and> contents s1 b \<noteq> contents s2 b \<and> (K = 0 \<or> contents s1 b \<noteq> [])}"
  by (rule findDiffBuckets_exact[OF assms])

theorem merkle_diff_exact_witness:
  "\<exists>t1 t2 bs. buildMerkleTreeFromSnapshot 0 (sampleSnap [''x'']) = Inr t1 \<and> buildMerkleTreeFromSnapshot 0 (sampleSnap []) = Inr t2
     \<and> findDiffBuckets (ToSummary t1) (ToSummary t2) = Inr bs \<and> set bs = {0}"
proof -
  let ?t = "\<lambda>keys. makeMerkleLeafFromSnapshot 0 0 (sampleSnap keys)"
  have "\<exists>bs. findDiffBuckets (ToSummary (?t [''x''])) (ToSummary (?t [])) = Inr bs \<and> distinct bs \<and>
      set bs = {b. b < 2 ^ 0 \<and> contents (sampleSnap [''x'']) b \<noteq> contents (sampleSnap []) b
                   \<and> (0 = (0::nat) \<or> contents (sampleSnap [''x'']) b \<noteq> [])}"
  proof (rule merkle_diff_exact)
    show "inj_on finalizeHash (tree_inputs (sampleSnap [''x'']) (?t [''x'']) \<union> tree_inputs (sampleSnap []) (?t []))"
      using sample_no_collision by (simp add: sampleSnap_tree(2) sampleSnap_leafIn(1) insert_commute)
    show "fitsSnapshot (sampleSnap [''x''])" by (rule sampleSnap_fits) (simp add: fitsString_def)
  qed (simp_all add: sampleSnap_tree(1) sampleSnap_fits(1), simp_all add: sampleSnap_def)
  then show ?thesis by (auto simp: sampleSnap_tree(1) sampleSnap_contents)
qed

end
