(* ===== verification/Collector.thy ===== *)
theory Collector
  imports Objects
begin

text \<open>
  The trace collector, \<^verbatim>\<open>kvsrv_eval/pbsCollector.go\<close>: message traces and their validation,
  the four latency classes, empirical samplers, and the completed operations that are kept
  in the order of their completion by a binary search. A random generator is its sequence
  of draws with a position; the collector's mutex makes every operation atomic.
\<close>

subsection \<open>Random draws and binary search\<close>

record Rand =
  draws :: "nat \<Rightarrow> nat"
  rngPos :: nat

definition rng_Intn :: "nat \<Rightarrow> Rand \<Rightarrow> nat \<times> Rand" where
  "rng_Intn n rng = (draws rng (rngPos rng) mod n, rng\<lparr>rngPos := rngPos rng + 1\<rparr>)"

lemma rng_Intn_less: "0 < n \<Longrightarrow> fst (rng_Intn n rng) < n"
  by (simp add: rng_Intn_def)

text \<open>\<^verbatim>\<open>sort.Search\<close>: the loop of the library.\<close>

function sort_Search :: "nat \<Rightarrow> nat \<Rightarrow> (nat \<Rightarrow> bool) \<Rightarrow> nat" where
  "sort_Search i j f =
     (if i < j then let h = (i + j) div 2 in if \<not> f h then sort_Search (h + 1) j f else sort_Search i h f
      else i)"
  by pat_completeness auto
termination
  by (relation "measure (\<lambda>(i, j, f). j - i)") auto

declare sort_Search.simps [simp del]

lemma sort_Search_bounds: "i \<le> j \<Longrightarrow> i \<le> sort_Search i j f \<and> sort_Search i j f \<le> j"
proof (induction i j f rule: sort_Search.induct)
  case (1 i j f)
  show ?case
  proof (cases "i < j")
    case True
    let ?h = "(i + j) div 2"
    have "i \<le> ?h" "?h < j" using True by auto
    then show ?thesis using 1(1)[OF True refl] 1(2)[OF True refl] True
      by (subst (1 2) sort_Search.simps) (fastforce simp: Let_def)
  qed (use 1(3) in \<open>simp add: sort_Search.simps\<close>)
qed

definition upward :: "nat \<Rightarrow> (nat \<Rightarrow> bool) \<Rightarrow> bool" where
  "upward n f \<longleftrightarrow> (\<forall>a b. a \<le> b \<longrightarrow> b < n \<longrightarrow> f a \<longrightarrow> f b)"

text \<open>On a monotone predicate the search returns the first index where it holds.\<close>

lemma sort_Search_split:
  "upward n f \<Longrightarrow> j \<le> n \<Longrightarrow> i \<le> j \<Longrightarrow> \<forall>a < i. \<not> f a \<Longrightarrow> \<forall>a. j \<le> a \<longrightarrow> a < n \<longrightarrow> f a \<Longrightarrow>
    (\<forall>a < sort_Search i j f. \<not> f a) \<and> (\<forall>a. sort_Search i j f \<le> a \<longrightarrow> a < n \<longrightarrow> f a)"
proof (induction i j f rule: sort_Search.induct)
  case (1 i j f)
  show ?case
  proof (cases "i < j")
    case True
    let ?h = "(i + j) div 2"
    have h: "i \<le> ?h" "?h < j" using True by auto
    have lower: "f ?h \<Longrightarrow> sort_Search i j f = sort_Search i ?h f"
      and upper: "\<not> f ?h \<Longrightarrow> sort_Search i j f = sort_Search (?h + 1) j f"
      using True by (simp_all add: sort_Search.simps[of i j] Let_def)
    show ?thesis
    proof (cases "f ?h")
      case True
      then have up: "\<forall>a. ?h \<le> a \<longrightarrow> a < n \<longrightarrow> f a" using 1(3) by (auto simp: upward_def)
      have "\<not> \<not> f ?h" "?h \<le> n" using True h 1(4) by linarith+
      then show ?thesis
        unfolding lower[OF True] using 1(2)[OF \<open>i < j\<close> refl _ 1(3) _ h(1) 1(6) up] by blast
    next
      case False
      then have low: "\<forall>a < ?h + 1. \<not> f a" using 1(3,4) h by (auto simp: upward_def less_Suc_eq_le)
      have "?h + 1 \<le> j" using h by linarith
      then show ?thesis
        unfolding upper[OF False] using 1(1)[OF \<open>i < j\<close> refl False 1(3,4) _ low 1(7)] by blast
    qed
  qed (use 1(4-) in \<open>simp add: sort_Search.simps\<close>)
qed

text \<open>Insertion at the index the search returns: \<open>append\<close>, \<open>copy\<close> and the assignment.\<close>

definition insertAt :: "nat \<Rightarrow> 'a \<Rightarrow> 'a list \<Rightarrow> 'a list" where
  "insertAt i x xs = take i xs @ x # drop i xs"

definition insertBy :: "('a \<Rightarrow> Time) \<Rightarrow> 'a \<Rightarrow> 'a list \<Rightarrow> 'a list" where
  "insertBy at x xs = insertAt (sort_Search 0 (length xs) (\<lambda>i. at (xs ! i) > at x)) x xs"

lemma mset_insertBy: "mset (insertBy at x xs) = add_mset x (mset xs)"
  unfolding insertBy_def insertAt_def
  by (metis append_take_drop_id mset.simps(2) mset_append union_mset_add_mset_right)

lemma sorted_insertBy:
  assumes "sorted (map at xs)"
  shows "sorted (map at (insertBy at x xs))"
proof -
  let ?f = "\<lambda>i. at (xs ! i) > at x"
  define k where "k = sort_Search 0 (length xs) ?f"
  have up: "upward (length xs) ?f"
  proof (unfold upward_def, intro allI impI)
    fix a b assume ab: "a \<le> b" "b < length xs" "at x < at (xs ! a)"
    have "at (xs ! a) \<le> at (xs ! b)" using sorted_nth_mono[OF assms ab(1)] ab(1,2) by simp
    then show "at x < at (xs ! b)" using ab(3) by simp
  qed
  have "(\<forall>a < k. \<not> ?f a) \<and> (\<forall>a. k \<le> a \<longrightarrow> a < length xs \<longrightarrow> ?f a)"
    unfolding k_def by (rule sort_Search_split[OF up]) simp_all
  then have k: "\<And>a. a < k \<Longrightarrow> \<not> ?f a" "\<And>a. k \<le> a \<Longrightarrow> a < length xs \<Longrightarrow> ?f a" by blast+
  have "\<forall>y \<in> set (take k xs). at y \<le> at x" using k(1) by (auto simp: set_conv_nth not_less)
  moreover have "\<forall>y \<in> set (drop k xs). at x \<le> at y"
    using k(2) by (force simp: set_conv_nth less_diff_conv add.commute intro: less_imp_le)
  moreover have "\<forall>y \<in> set (take k xs). \<forall>z \<in> set (drop k xs). at y \<le> at z"
    using calculation order_trans by blast
  moreover have "sorted (map at (take k xs))" "sorted (map at (drop k xs))"
    using assms by (simp_all add: sorted_wrt_take sorted_wrt_drop flip: take_map drop_map)
  ultimately show ?thesis
    unfolding insertBy_def insertAt_def k_def[symmetric] by (auto simp: sorted_append)
qed

subsection \<open>Message traces\<close>

record MessageTrace =
  SentAt :: Time
  ArrivedAt :: Time
  RespondedAt :: Time
  ReceivedAt :: Time

definition NewMessageTrace :: "Time \<Rightarrow> Time \<Rightarrow> Time \<Rightarrow> Time \<Rightarrow> MessageTrace" where
  "NewMessageTrace sentAt arrivedAt respondedAt receivedAt =
     \<lparr>SentAt = sentAt, ArrivedAt = arrivedAt, RespondedAt = respondedAt, ReceivedAt = receivedAt\<rparr>"

text \<open>The value \<open>None\<close> is the \<^verbatim>\<open>nil\<close> error.\<close>

definition Validate :: "MessageTrace \<Rightarrow> string option" where
  "Validate m =
     (if SentAt m = 0 then Some ''message trace missing SentAt''
      else if ArrivedAt m = 0 then Some ''message trace missing ArrivedAt''
      else if RespondedAt m = 0 then Some ''message trace missing RespondedAt''
      else if ReceivedAt m = 0 then Some ''message trace missing ReceivedAt''
      else if ArrivedAt m < SentAt m then Some ''message trace arrived before it was sent''
      else if RespondedAt m < ArrivedAt m then Some ''message trace responded before it arrived''
      else if ReceivedAt m < RespondedAt m then Some ''message trace received before response was sent''
      else None)"

definition RequestLatency :: "MessageTrace \<Rightarrow> Duration" where
  "RequestLatency m = time_Sub (ArrivedAt m) (SentAt m)"

definition ResponseLatency :: "MessageTrace \<Rightarrow> Duration" where
  "ResponseLatency m = time_Sub (ReceivedAt m) (RespondedAt m)"

subsection \<open>Samplers\<close>

record EmpiricalSampler =
  samples :: "Duration list"

definition NewEmpiricalSampler :: "Duration list \<Rightarrow> string + EmpiricalSampler" where
  "NewEmpiricalSampler ds =
     (if length ds = 0 then Inl ''sampler requires at least one sample'' else Inr \<lparr>samples = ds\<rparr>)"

definition Len :: "EmpiricalSampler \<Rightarrow> nat" where
  "Len s = length (samples s)"

definition GetSample :: "EmpiricalSampler \<Rightarrow> Rand \<Rightarrow> panic + Duration \<times> Rand" where
  "GetSample s rng =
     (if Len s = 0 then Inl (ExplicitPanic ''sampling from empty empirical sampler'')
      else let (i, rng') = rng_Intn (Len s) rng in Inr (samples s ! i, rng'))"

record WARSTrace =
  WriteRequests :: "Duration list"
  WriteAcks :: "Duration list"
  ReadRequests :: "Duration list"
  ReadResponses :: "Duration list"

record WARSSamplers =
  WriteRequest :: EmpiricalSampler
  WriteAck :: EmpiricalSampler
  ReadRequest :: EmpiricalSampler
  ReadResponse :: EmpiricalSampler

definition NewWARSSamplers :: "WARSTrace \<Rightarrow> string + WARSSamplers" where
  "NewWARSSamplers trace =
     (case NewEmpiricalSampler (WriteRequests trace) of Inl e \<Rightarrow> Inl e | Inr writeRequest \<Rightarrow>
      (case NewEmpiricalSampler (WriteAcks trace) of Inl e \<Rightarrow> Inl e | Inr writeAck \<Rightarrow>
       (case NewEmpiricalSampler (ReadRequests trace) of Inl e \<Rightarrow> Inl e | Inr readRequest \<Rightarrow>
        (case NewEmpiricalSampler (ReadResponses trace) of Inl e \<Rightarrow> Inl e | Inr readResponse \<Rightarrow>
           Inr \<lparr>WriteRequest = writeRequest, WriteAck = writeAck, ReadRequest = readRequest,
                ReadResponse = readResponse\<rparr>))))"

subsection \<open>Completed operations and the collector\<close>

record CompletedWrite =
  cwKey :: string
  cwStartedAt :: Time
  CommittedAt :: Time
  cwObject :: Object

record CompletedRead =
  crKey :: string
  crStartedAt :: Time
  ReturnedAt :: Time
  ReturnedObjects :: "Object list"

definition NewCompletedWrite :: "string \<Rightarrow> Time \<Rightarrow> Time \<Rightarrow> Object \<Rightarrow> CompletedWrite" where
  "NewCompletedWrite key startedAt committedAt object =
     \<lparr>cwKey = key, cwStartedAt = startedAt, CommittedAt = committedAt,
      cwObject = \<lparr>Value = Value object, Ctx = CopyCtx (Ctx object)\<rparr>\<rparr>"

definition NewCompletedRead :: "string \<Rightarrow> Time \<Rightarrow> Time \<Rightarrow> Object list \<Rightarrow> CompletedRead" where
  "NewCompletedRead key startedAt returnedAt returnedObjects =
     \<lparr>crKey = key, crStartedAt = startedAt, ReturnedAt = returnedAt,
      ReturnedObjects = CopyObjects returnedObjects\<rparr>"

record PBSCollector =
  trace :: WARSTrace
  writes :: "CompletedWrite list"
  reads :: "CompletedRead list"

definition emptyTrace :: WARSTrace where
  "emptyTrace = \<lparr>WriteRequests = [], WriteAcks = [], ReadRequests = [], ReadResponses = []\<rparr>"

definition NewPBSCollector :: PBSCollector where
  "NewPBSCollector = \<lparr>trace = emptyTrace, writes = [], reads = []\<rparr>"

definition ResetCollector :: "PBSCollector \<Rightarrow> PBSCollector" where
  "ResetCollector c = c\<lparr>trace := emptyTrace, writes := [], reads := []\<rparr>"

definition GetSamplers :: "PBSCollector \<Rightarrow> panic + WARSSamplers" where
  "GetSamplers c = (case NewWARSSamplers (trace c) of Inl e \<Rightarrow> Inl (ExplicitPanic e) | Inr s \<Rightarrow> Inr s)"

definition AddWriteSample :: "Duration \<Rightarrow> Duration \<Rightarrow> PBSCollector \<Rightarrow> PBSCollector" where
  "AddWriteSample requestLatency ackLatency c =
     c\<lparr>trace := (trace c)\<lparr>WriteRequests := WriteRequests (trace c) @ [requestLatency],
                         WriteAcks := WriteAcks (trace c) @ [ackLatency]\<rparr>\<rparr>"

definition AddReadSample :: "Duration \<Rightarrow> Duration \<Rightarrow> PBSCollector \<Rightarrow> PBSCollector" where
  "AddReadSample requestLatency responseLatency c =
     c\<lparr>trace := (trace c)\<lparr>ReadRequests := ReadRequests (trace c) @ [requestLatency],
                         ReadResponses := ReadResponses (trace c) @ [responseLatency]\<rparr>\<rparr>"

definition ObserveWriteLatency :: "MessageTrace \<Rightarrow> PBSCollector \<Rightarrow> string option \<times> PBSCollector" where
  "ObserveWriteLatency m c =
     (case Validate m of
        Some e \<Rightarrow> (Some e, c)
      | None \<Rightarrow> (None, c\<lparr>trace := (trace c)\<lparr>WriteRequests := WriteRequests (trace c) @ [RequestLatency m],
                                           WriteAcks := WriteAcks (trace c) @ [ResponseLatency m]\<rparr>\<rparr>))"

definition ObserveReadLatency :: "MessageTrace \<Rightarrow> PBSCollector \<Rightarrow> string option \<times> PBSCollector" where
  "ObserveReadLatency m c =
     (case Validate m of
        Some e \<Rightarrow> (Some e, c)
      | None \<Rightarrow> (None, c\<lparr>trace := (trace c)\<lparr>ReadRequests := ReadRequests (trace c) @ [RequestLatency m],
                                           ReadResponses := ReadResponses (trace c) @ [ResponseLatency m]\<rparr>\<rparr>))"

definition ObserveCompletedWrite :: "CompletedWrite \<Rightarrow> PBSCollector \<Rightarrow> PBSCollector" where
  "ObserveCompletedWrite w c = c\<lparr>writes := insertBy CommittedAt w (writes c)\<rparr>"

definition ObserveCompletedRead :: "CompletedRead \<Rightarrow> PBSCollector \<Rightarrow> PBSCollector" where
  "ObserveCompletedRead r c = c\<lparr>reads := insertBy ReturnedAt r (reads c)\<rparr>"

subsection \<open>The collector's invariant\<close>

text \<open>
  The two sample lists of a direction have the same length, latencies are not negative, and
  completed operations are in the order of their completion.
\<close>

definition collector_ok :: "PBSCollector \<Rightarrow> bool" where
  "collector_ok c \<longleftrightarrow>
     length (WriteRequests (trace c)) = length (WriteAcks (trace c)) \<and>
     length (ReadRequests (trace c)) = length (ReadResponses (trace c)) \<and>
     (\<forall>d \<in> set (WriteRequests (trace c) @ WriteAcks (trace c) @ ReadRequests (trace c) @ ReadResponses (trace c)). 0 \<le> d) \<and>
     sorted (map CommittedAt (writes c)) \<and> sorted (map ReturnedAt (reads c))"

lemma Validate_None:
  "Validate m = None \<longleftrightarrow> SentAt m \<noteq> 0 \<and> ArrivedAt m \<noteq> 0 \<and> RespondedAt m \<noteq> 0 \<and> ReceivedAt m \<noteq> 0
     \<and> SentAt m \<le> ArrivedAt m \<and> ArrivedAt m \<le> RespondedAt m \<and> RespondedAt m \<le> ReceivedAt m"
  by (simp add: Validate_def not_less)

lemma valid_latencies:
  "Validate m = None \<Longrightarrow> 0 \<le> RequestLatency m \<and> 0 \<le> ResponseLatency m"
  by (auto simp: Validate_None RequestLatency_def ResponseLatency_def time_Sub_def minDuration_def maxDuration_def)

lemma collector_ok_New: "collector_ok NewPBSCollector"
  by (simp add: collector_ok_def NewPBSCollector_def emptyTrace_def)

lemma collector_ok_Reset: "collector_ok (ResetCollector c)"
  by (simp add: collector_ok_def ResetCollector_def emptyTrace_def)

lemma collector_ok_latencies:
  assumes "collector_ok c"
  shows "collector_ok (snd (ObserveWriteLatency m c))" and "collector_ok (snd (ObserveReadLatency m c))"
  using assms valid_latencies[of m]
  by (auto simp: collector_ok_def ObserveWriteLatency_def ObserveReadLatency_def split: option.splits)

lemma collector_ok_completed:
  assumes "collector_ok c"
  shows "collector_ok (ObserveCompletedWrite w c)" and "collector_ok (ObserveCompletedRead r c)"
  using assms by (auto simp: collector_ok_def ObserveCompletedWrite_def ObserveCompletedRead_def sorted_insertBy)

lemma GetSamplers_iff:
  "(\<exists>s. GetSamplers c = Inr s) \<longleftrightarrow> WriteRequests (trace c) \<noteq> [] \<and> WriteAcks (trace c) \<noteq> []
     \<and> ReadRequests (trace c) \<noteq> [] \<and> ReadResponses (trace c) \<noteq> []"
  by (simp add: GetSamplers_def NewWARSSamplers_def NewEmpiricalSampler_def)

subsection \<open>Properties\<close>

text \<open>
  every operation of the collector keeps its invariant: paired samples, no negative
  latency (a trace out of order is refused), and completed operations in the order of their
  completion, because the binary search inserts at the right place; nothing is dropped.
\<close>

theorem collector_keeps_order:
  assumes "collector_ok c"
  shows "collector_ok (snd (ObserveWriteLatency m c)) \<and> collector_ok (snd (ObserveReadLatency m c))
    \<and> collector_ok (ObserveCompletedWrite w c) \<and> collector_ok (ObserveCompletedRead r c)
    \<and> mset (writes (ObserveCompletedWrite w c)) = add_mset w (mset (writes c))
    \<and> mset (reads (ObserveCompletedRead r c)) = add_mset r (mset (reads c))
    \<and> (Validate m \<noteq> None \<longrightarrow> ObserveWriteLatency m c = (Validate m, c) \<and> ObserveReadLatency m c = (Validate m, c))"
  using collector_ok_latencies[OF assms] collector_ok_completed[OF assms]
  by (auto simp: mset_insertBy ObserveCompletedWrite_def ObserveCompletedRead_def ObserveWriteLatency_def ObserveReadLatency_def)

theorem collector_keeps_order_witness:
  "collector_ok (ObserveCompletedWrite (NewCompletedWrite ''k'' 1 2 (sampleObj ''v'' [] 0)) NewPBSCollector)"
  using collector_keeps_order[OF collector_ok_New] by blast

end
