(* ===== verification/ServerState.thy ===== *)
theory ServerState
  imports Ring MerkleTree Collector
begin

text \<open>
  The state of a server and its local store, \<^verbatim>\<open>kvsrv/server.go\<close> without the coordinator:
  construction, the replica handlers \<open>ReplicaGet\<close> and \<open>ReplicaPut\<close>, the installation and
  the merge of objects, and the accessors. Every operation here holds the mutex \<^verbatim>\<open>mu\<close> for
  its whole duration in the source, except \<open>mergeObjectsCore\<close>, which is modelled in the two
  critical sections it has. \<open>time.Now\<close> is an argument; index panics are values.
\<close>

subsection \<open>State\<close>

text \<open>
  A pending read repair: \<open>jobPtr\<close> is the identity of the pointer the source compares and
  \<open>jobCh\<close> the results that are still to arrive on its channel.
\<close>

record readRepairJob =
  jobPtr :: nat
  jobKey :: string
  canonicalSiblings :: "Object list"
  jobResults :: "ForwardGetResult list"
  jobCh :: "ForwardGetResult list"
  jobRemaining :: nat

record KVServer =
  srvID :: string
  kvmap :: "string \<rightharpoonup> Object list"
  ring :: ConsistentHashRing
  writeQuorum :: int
  readQuorum :: int
  ends :: "string list"
  readRepairJobCh :: "readRepairJob list"
  readRepairCoalesce :: "(string, readRepairJob) gomap"
  pipelineDrained :: bool
  merkleRoots :: "nat \<rightharpoonup> MerkleNode"
  keysInBuckets :: "string list list list"
  dirtySectors :: "nat list"
  members :: "(string, MemberInfo) gomap"
  memberLastUpdated :: "string \<rightharpoonup> Time"
  numNeighbors :: int
  heartbeatCounter :: u64
  failureTimeout :: Duration
  cleanupTimeout :: Duration
  hints :: "(string, PutArgs list) gomap"
  collector :: "PBSCollector option"
  readRepairEnabled :: bool
  hintedHandoffEnabled :: bool
  pauseGossip :: bool

definition traceTime :: "int \<Rightarrow> Time" where
  "traceTime ts = (if ts = 0 then 0 else time_Unix ts)"

definition aliveMember :: "string \<Rightarrow> MemberInfo" where
  "aliveMember nodeID = \<lparr>ServerID = nodeID, Heartbeat = 0, Status = Alive\<rparr>"

definition addMember :: "Time \<Rightarrow> string \<Rightarrow> KVServer \<Rightarrow> KVServer" where
  "addMember now nodeID kv =
     kv\<lparr>members := gm_put nodeID (aliveMember nodeID) (members kv),
        memberLastUpdated := (memberLastUpdated kv)(nodeID \<mapsto> now)\<rparr>"

definition MakeKVServer :: "string \<Rightarrow> ConsistentHashRing \<Rightarrow> int \<Rightarrow> int \<Rightarrow> string list \<Rightarrow> Time \<Rightarrow> KVServer" where
  "MakeKVServer serverID chr wq rq endNames now =
     (let kv = \<lparr>srvID = serverID, kvmap = Map.empty, ring = chr, writeQuorum = wq, readQuorum = rq,
                ends = endNames, readRepairJobCh = [], readRepairCoalesce = [], pipelineDrained = False,
                merkleRoots = Map.empty,
                keysInBuckets = replicate (numSectors chr) (replicate (bucketsPerSector chr) []),
                dirtySectors = [], members = [], memberLastUpdated = Map.empty, numNeighbors = 2,
                heartbeatCounter = 0, failureTimeout = 5000 * Millisecond, cleanupTimeout = 15000 * Millisecond,
                hints = [], collector = Some NewPBSCollector, readRepairEnabled = True,
                hintedHandoffEnabled = True, pauseGossip = False\<rparr>;
          kv = fold (addMember now) endNames kv
      in if map_of (members kv) serverID = None then addMember now serverID kv else kv)"

subsection \<open>Keys of a bucket\<close>

fun appendUniqueKey :: "string list \<Rightarrow> string \<Rightarrow> string list" where
  "appendUniqueKey keys key = (if key \<in> set keys then keys else keys @ [key])"

fun removeKey :: "string list \<Rightarrow> string \<Rightarrow> string list" where
  "removeKey [] key = []"
| "removeKey (existing # keys) key = (if existing = key then keys else existing # removeKey keys key)"

definition inBuckets :: "KVServer \<Rightarrow> nat \<Rightarrow> nat \<Rightarrow> bool" where
  "inBuckets kv sector bucket \<longleftrightarrow>
     sector < length (keysInBuckets kv) \<and> bucket < length (keysInBuckets kv ! sector)"

definition setBucket :: "nat \<Rightarrow> nat \<Rightarrow> (string list \<Rightarrow> string list) \<Rightarrow> KVServer \<Rightarrow> KVServer" where
  "setBucket sector bucket f kv =
     kv\<lparr>keysInBuckets := (keysInBuckets kv)[sector :=
        (keysInBuckets kv ! sector)[bucket := f (keysInBuckets kv ! sector ! bucket)]]\<rparr>"

definition markSectorDirty :: "nat \<Rightarrow> KVServer \<Rightarrow> KVServer" where
  "markSectorDirty sector kv = kv\<lparr>dirtySectors := gs_add sector (dirtySectors kv)\<rparr>"

subsection \<open>Replica handlers\<close>

definition ReplicaGet :: "int \<Rightarrow> int \<Rightarrow> KVServer \<Rightarrow> GetArgs \<Rightarrow> GetReply" where
  "ReplicaGet arrived responded kv args =
     (case kvmap kv (getKey args) of
        None \<Rightarrow> \<lparr>getObjects = [], getErr = ErrNoKey, getArrivedAt = arrived, getRespondedAt = responded\<rparr>
      | Some sibs \<Rightarrow> \<lparr>getObjects = CopyObjects sibs, getErr = OK, getArrivedAt = arrived,
                     getRespondedAt = responded\<rparr>)"

definition storedAt :: "KVServer \<Rightarrow> string \<Rightarrow> Object list" where
  "storedAt kv key = (case kvmap kv key of None \<Rightarrow> [] | Some sibs \<Rightarrow> sibs)"

text \<open>The part of \<open>ReplicaPut\<close> under the mutex: the error of the reply and the new state.\<close>

definition replicaPutBody :: "KVServer \<Rightarrow> PutArgs \<Rightarrow> panic + Err \<times> KVServer" where
  "replicaPutBody kv args =
     (let sibs = storedAt kv (putKey args) in
      if kvmap kv (putKey args) = None \<and> \<not> IsInitialCtx (BaseContext args) then Inr (ErrNoKey, kv)
      else if \<not> CanBeAddedTo \<lparr>Value = Value (putObject args), Ctx = BaseContext args\<rparr> sibs then Inr (ErrVersion, kv)
      else let kv' = kv\<lparr>kvmap := (kvmap kv)(putKey args \<mapsto> AddObject sibs (putObject args) None)\<rparr>
           in if IsInitialCtx (BaseContext args) then
                let (sector, bucket) = GetLocation (ring kv) (putKey args)
                in if \<not> inBuckets kv sector bucket then Inl IndexOutOfRange
                   else Inr (OK, setBucket sector bucket (\<lambda>keys. appendUniqueKey keys (putKey args)) kv')
              else Inr (OK, kv'))"

definition ReplicaPut :: "int \<Rightarrow> int \<Rightarrow> KVServer \<Rightarrow> PutArgs \<Rightarrow> panic + PutReply \<times> KVServer" where
  "ReplicaPut arrived responded kv args =
     map_sum id (\<lambda>(e, kv'). (\<lparr>putErr = e, putArrivedAt = arrived, putRespondedAt = responded\<rparr>, kv'))
       (replicaPutBody kv args)"

subsection \<open>Installing and merging\<close>

definition installObjects :: "string \<Rightarrow> Object list \<Rightarrow> KVServer \<Rightarrow> panic + KVServer" where
  "installObjects key objects kv =
     (let (sector, bucket) = GetLocation (ring kv) key in
      if length objects = 0 then
        if \<not> inBuckets kv sector bucket then Inl IndexOutOfRange
        else Inr (markSectorDirty sector
               (setBucket sector bucket (\<lambda>keys. removeKey keys key) (kv\<lparr>kvmap := (kvmap kv)(key := None)\<rparr>)))
      else
        let existed = (kvmap kv key \<noteq> None);
            kv' = kv\<lparr>kvmap := (kvmap kv)(key \<mapsto> CopyObjects objects)\<rparr>
        in if \<not> existed then
             if \<not> inBuckets kv sector bucket then Inl IndexOutOfRange
             else Inr (markSectorDirty sector (setBucket sector bucket (\<lambda>keys. appendUniqueKey keys key) kv'))
           else Inr (markSectorDirty sector kv'))"

text \<open>The first critical section of \<open>mergeObjectsCore\<close>: the merged list and whether it changed.\<close>

definition mergeStep :: "Object \<Rightarrow> Object list \<times> bool \<Rightarrow> Object list \<times> bool" where
  "mergeStep obj = (\<lambda>(merged, changed).
     if CanBeAddedTo obj merged then (AddObject merged obj None, True) else (merged, changed))"

definition mergePlan :: "string \<Rightarrow> Object list \<Rightarrow> KVServer \<Rightarrow> Object list \<times> bool" where
  "mergePlan key incoming kv = fold mergeStep incoming (storedAt kv key, False)"

text \<open>
  The whole of \<open>mergeObjectsCore\<close> when no other operation takes the mutex between its two
  critical sections.
\<close>

definition mergeObjectsCore :: "string \<Rightarrow> Object list \<Rightarrow> bool \<Rightarrow> KVServer \<Rightarrow> panic + Object list \<times> KVServer" where
  "mergeObjectsCore key incoming returnSiblings kv =
     (if length incoming = 0 then Inr ([], kv)
      else let (merged, changed) = mergePlan key incoming kv in
        if \<not> changed then Inr (if returnSiblings then CopyObjects merged else [], kv)
        else case installObjects key merged kv of
               Inl e \<Rightarrow> Inl e
             | Inr kv' \<Rightarrow> Inr (if returnSiblings then merged else [], kv'))"

definition mergeObjects :: "string \<Rightarrow> Object list \<Rightarrow> KVServer \<Rightarrow> panic + Object list \<times> KVServer" where
  "mergeObjects key incoming kv = mergeObjectsCore key incoming True kv"

definition mergeObjectsAndDiscard :: "string \<Rightarrow> Object list \<Rightarrow> KVServer \<Rightarrow> panic + KVServer" where
  "mergeObjectsAndDiscard key incoming kv = map_sum id snd (mergeObjectsCore key incoming False kv)"

subsection \<open>Accessors\<close>

definition CopyKV :: "KVServer \<Rightarrow> string \<rightharpoonup> Object list" where
  "CopyKV kv = (\<lambda>k. map_option CopyObjects (kvmap kv k))"

definition CopySectorKeys :: "KVServer \<Rightarrow> (nat, string list) gomap" where
  "CopySectorKeys kv = map (\<lambda>sectorID. (sectorID, concat (keysInBuckets kv ! sectorID))) [0..<length (keysInBuckets kv)]"

definition CopyKeysInSector :: "KVServer \<Rightarrow> nat \<Rightarrow> panic + string list list" where
  "CopyKeysInSector kv sector =
     (if sector < length (keysInBuckets kv) then Inr (keysInBuckets kv ! sector) else Inl IndexOutOfRange)"

definition GetResponsibleSectors :: "KVServer \<Rightarrow> nat list" where
  "GetResponsibleSectors kv = GetSectors (ring kv) (srvID kv)"

definition CopyPreferenceList :: "KVServer \<Rightarrow> string \<Rightarrow> (panic + string list) option" where
  "CopyPreferenceList kv key = GetPreferenceList (ring kv) key"

definition GetKeysFromSector :: "KVServer \<Rightarrow> nat \<Rightarrow> panic + string list" where
  "GetKeysFromSector kv sector =
     (if sector < length (keysInBuckets kv) then Inr (concat (keysInBuckets kv ! sector)) else Inl IndexOutOfRange)"

definition GetSiblings :: "KVServer \<Rightarrow> string \<Rightarrow> Object list" where
  "GetSiblings kv key = CopyObjects (storedAt kv key)"

definition GetKeysFromBucket :: "KVServer \<Rightarrow> nat \<Rightarrow> nat \<Rightarrow> panic + string list" where
  "GetKeysFromBucket kv sector bucket =
     (if inBuckets kv sector bucket then Inr (keysInBuckets kv ! sector ! bucket) else Inl IndexOutOfRange)"

definition GetBucketsFromSector :: "KVServer \<Rightarrow> nat \<Rightarrow> panic + nat list" where
  "GetBucketsFromSector kv sector =
     (if sector < length (keysInBuckets kv)
      then Inr (filter (\<lambda>i. length (keysInBuckets kv ! sector ! i) > 0) [0..<length (keysInBuckets kv ! sector)])
      else Inl IndexOutOfRange)"

subsection \<open>The store invariant\<close>

text \<open>
  Stored sibling lists are not empty, pairwise concurrent and sorted by timestamp, and the
  bucket index lists every stored key exactly once, in the bucket of its location.
\<close>

definition ring_located :: "ConsistentHashRing \<Rightarrow> bool" where
  "ring_located r \<longleftrightarrow> 0 < numSectors r * bucketsPerSector r \<and> numSectors r * bucketsPerSector r \<le> 2 ^ 32"

definition index_shape :: "KVServer \<Rightarrow> bool" where
  "index_shape kv \<longleftrightarrow> length (keysInBuckets kv) = numSectors (ring kv) \<and>
     (\<forall>bs \<in> set (keysInBuckets kv). length bs = bucketsPerSector (ring kv))"

definition stored_ok :: "(string \<rightharpoonup> Object list) \<Rightarrow> bool" where
  "stored_ok m \<longleftrightarrow> (\<forall>k objs. m k = Some objs \<longrightarrow> objs \<noteq> [] \<and> siblings_ok objs \<and> ts_sorted objs)"

definition indexed :: "KVServer \<Rightarrow> bool" where
  "indexed kv \<longleftrightarrow> (\<forall>s < numSectors (ring kv). \<forall>b < bucketsPerSector (ring kv).
     distinct (keysInBuckets kv ! s ! b) \<and>
     set (keysInBuckets kv ! s ! b) = {k. kvmap kv k \<noteq> None \<and> GetLocation (ring kv) k = (s, b)})"

definition server_ok :: "KVServer \<Rightarrow> bool" where
  "server_ok kv \<longleftrightarrow> ring_located (ring kv) \<and> index_shape kv \<and> stored_ok (kvmap kv) \<and> indexed kv"

lemma server_okD:
  assumes "server_ok kv"
  shows "ring_located (ring kv)" "index_shape kv" "stored_ok (kvmap kv)" "indexed kv"
  using assms by (simp_all add: server_ok_def)

lemma removeKey_remove1: "removeKey ks k = remove1 k ks"
  by (induction ks) auto

lemma fold_addMember_frame [simp]:
  "keysInBuckets (fold (addMember now) ns kv) = keysInBuckets kv"
  "kvmap (fold (addMember now) ns kv) = kvmap kv"
  "ring (fold (addMember now) ns kv) = ring kv"
  "srvID (fold (addMember now) ns kv) = srvID kv"
  "collector (fold (addMember now) ns kv) = collector kv"
  by (induction ns arbitrary: kv) (simp_all add: addMember_def)

lemma MakeKVServer_frame [simp]:
  "keysInBuckets (MakeKVServer i r wq rq es now) = replicate (numSectors r) (replicate (bucketsPerSector r) [])"
  "kvmap (MakeKVServer i r wq rq es now) = Map.empty"
  "ring (MakeKVServer i r wq rq es now) = r"
  "srvID (MakeKVServer i r wq rq es now) = i"
  "collector (MakeKVServer i r wq rq es now) = Some NewPBSCollector"
  by (simp_all add: MakeKVServer_def Let_def addMember_def)

lemma server_ok_Make: "ring_located r \<Longrightarrow> server_ok (MakeKVServer i r wq rq es now)"
  by (auto simp: server_ok_def index_shape_def stored_ok_def indexed_def)

lemma location_bounds:
  assumes "server_ok kv" and "GetLocation (ring kv) k = (s, b)"
  shows "s < numSectors (ring kv)" "b < bucketsPerSector (ring kv)"
  using GetLocation_bounds[of "ring kv" k] assms by (auto simp: server_ok_def ring_located_def)

lemma inBuckets_location:
  "server_ok kv \<Longrightarrow> GetLocation (ring kv) k = (s, b) \<Longrightarrow> inBuckets kv s b"
  using location_bounds[of kv k s b] by (auto simp: server_ok_def index_shape_def inBuckets_def)

lemma indexed_cell:
  assumes "server_ok kv" "s < numSectors (ring kv)" "b < bucketsPerSector (ring kv)"
  shows "distinct (keysInBuckets kv ! s ! b)"
    and "set (keysInBuckets kv ! s ! b) = {k. kvmap kv k \<noteq> None \<and> GetLocation (ring kv) k = (s, b)}"
  using assms by (auto simp: server_ok_def indexed_def)

lemma storedAt_ok: "server_ok kv \<Longrightarrow> siblings_ok (storedAt kv k) \<and> ts_sorted (storedAt kv k)"
  by (auto simp: storedAt_def server_ok_def stored_ok_def split: option.splits)

lemma storedAt_empty_iff: "server_ok kv \<Longrightarrow> storedAt kv k = [] \<longleftrightarrow> kvmap kv k = None"
  by (auto simp: storedAt_def server_ok_def stored_ok_def split: option.splits)

text \<open>
  A change of the store at one key: a new non-empty sibling list, the key listed in its
  bucket unless it was stored before.
\<close>

lemma setBucket_frame [simp]:
  "kvmap (setBucket s b f kv) = kvmap kv" "ring (setBucket s b f kv) = ring kv"
  "kvmap (markSectorDirty s kv) = kvmap kv" "ring (markSectorDirty s kv) = ring kv"
  "keysInBuckets (markSectorDirty s kv) = keysInBuckets kv"
  by (simp_all add: setBucket_def markSectorDirty_def)

lemma server_ok_dirty [simp]: "server_ok (markSectorDirty s kv) \<longleftrightarrow> server_ok kv"
  by (simp add: server_ok_def index_shape_def indexed_def)

lemma cell_setBucket:
  assumes "inBuckets kv s b"
  shows "keysInBuckets (setBucket s b f kv) ! s' ! b' =
    (if s' = s \<and> b' = b then f (keysInBuckets kv ! s ! b) else keysInBuckets kv ! s' ! b')"
  using assms by (auto simp: setBucket_def inBuckets_def nth_list_update)

lemma index_shape_setBucket: "index_shape kv \<Longrightarrow> inBuckets kv s b \<Longrightarrow> index_shape (setBucket s b f kv)"
  by (auto simp: index_shape_def setBucket_def inBuckets_def dest!: set_update_subset_insert[THEN subsetD])

lemma server_ok_install:
  assumes ok: "server_ok kv" and loc: "GetLocation (ring kv) k = (s, b)"
    and objs: "objs \<noteq> []" "siblings_ok objs" "ts_sorted objs"
  shows "server_ok (setBucket s b (\<lambda>keys. appendUniqueKey keys k) (kv\<lparr>kvmap := (kvmap kv)(k \<mapsto> objs)\<rparr>))"
proof -
  let ?kv = "kv\<lparr>kvmap := (kvmap kv)(k \<mapsto> objs)\<rparr>"
  have inb: "inBuckets ?kv s b" using inBuckets_location[OF ok loc] by (simp add: inBuckets_def)
  have "index_shape ?kv" using ok by (simp add: server_ok_def index_shape_def)
  then show ?thesis
    using ok objs loc index_shape_setBucket[OF _ inb] indexed_cell[OF ok]
    unfolding server_ok_def indexed_def
    by (auto simp: stored_ok_def cell_setBucket[OF inb])
qed

lemma server_ok_update:
  assumes ok: "server_ok kv" and "kvmap kv k \<noteq> None"
    and objs: "objs \<noteq> []" "siblings_ok objs" "ts_sorted objs"
  shows "server_ok (kv\<lparr>kvmap := (kvmap kv)(k \<mapsto> objs)\<rparr>)"
proof -
  have "{k'. ((kvmap kv)(k \<mapsto> objs)) k' \<noteq> None \<and> P k'} = {k'. kvmap kv k' \<noteq> None \<and> P k'}" for P
    using assms(2) by auto
  then show ?thesis
    using ok objs by (simp add: server_ok_def index_shape_def indexed_def) (simp add: stored_ok_def)
qed

lemma server_ok_delete:
  assumes ok: "server_ok kv" and loc: "GetLocation (ring kv) k = (s, b)"
  shows "server_ok (setBucket s b (\<lambda>keys. removeKey keys k) (kv\<lparr>kvmap := (kvmap kv)(k := None)\<rparr>))"
proof -
  let ?kv = "kv\<lparr>kvmap := (kvmap kv)(k := None)\<rparr>"
  have inb: "inBuckets ?kv s b" using inBuckets_location[OF ok loc] by (simp add: inBuckets_def)
  have "index_shape ?kv" using ok by (simp add: server_ok_def index_shape_def)
  then show ?thesis
    using ok loc index_shape_setBucket[OF _ inb] indexed_cell[OF ok]
    unfolding server_ok_def indexed_def
    by (auto simp: stored_ok_def cell_setBucket[OF inb] removeKey_remove1)
qed

subsection \<open>Versions held for a key\<close>

definition versionsAt :: "KVServer \<Rightarrow> string \<Rightarrow> (string \<Rightarrow> u64) set" where
  "versionsAt kv k = versions (storedAt kv k)"

lemma storedAt_upd [simp]:
  "storedAt (setBucket s b f kv) k = storedAt kv k"
  "storedAt (markSectorDirty s kv) k = storedAt kv k"
  "storedAt (kv\<lparr>kvmap := (kvmap kv)(k' \<mapsto> objs)\<rparr>) k = (if k = k' then objs else storedAt kv k)"
  "storedAt (kv\<lparr>kvmap := (kvmap kv)(k' := None)\<rparr>) k = (if k = k' then [] else storedAt kv k)"
  by (simp_all add: storedAt_def)

lemma installObjects_ok:
  assumes ok: "server_ok kv" and objs: "objs \<noteq> []" "siblings_ok objs" "ts_sorted objs"
  shows "\<exists>kv'. installObjects k objs kv = Inr kv' \<and> server_ok kv' \<and> ring kv' = ring kv
    \<and> (\<forall>k'. storedAt kv' k' = (if k' = k then objs else storedAt kv k'))"
proof -
  obtain s b where loc: "GetLocation (ring kv) k = (s, b)" by (cases "GetLocation (ring kv) k")
  have cp: "CopyObjects objs = objs" using objs(2) by auto
  show ?thesis
  proof (cases "kvmap kv k = None")
    case True
    then show ?thesis
      using server_ok_install[OF ok loc objs] inBuckets_location[OF ok loc] objs(1)
      by (simp add: installObjects_def Let_def loc cp)
  next
    case False
    then show ?thesis
      using server_ok_update[OF ok False objs] objs(1) by (simp add: installObjects_def Let_def loc cp)
  qed
qed

lemma installObjects_delete:
  assumes ok: "server_ok kv"
  shows "\<exists>kv'. installObjects k [] kv = Inr kv' \<and> server_ok kv' \<and> ring kv' = ring kv
    \<and> (\<forall>k'. storedAt kv' k' = (if k' = k then [] else storedAt kv k'))"
proof -
  obtain s b where loc: "GetLocation (ring kv) k = (s, b)" by (cases "GetLocation (ring kv) k")
  show ?thesis
    using server_ok_delete[OF ok loc] inBuckets_location[OF ok loc]
    by (simp add: installObjects_def Let_def loc)
qed

lemma mergePlan_fold:
  "fold mergeStep incoming (ss, c) = (mergeLoop ss incoming, snd (fold mergeStep incoming (ss, c)))"
  by (induction incoming arbitrary: ss c) (auto simp: mergeStep_def)

lemma mergePlan_eq: "fst (mergePlan k incoming kv) = mergeLoop (storedAt kv k) incoming"
  using mergePlan_fold[of incoming "storedAt kv k" False] by (metis fst_conv mergePlan_def)

lemma merge_unchanged: "\<not> snd (fold mergeStep incoming (ss, c)) \<Longrightarrow> mergeLoop ss incoming = ss \<and> \<not> c"
proof (induction incoming arbitrary: ss c)
  case (Cons x xs)
  then show ?case using Cons.IH[of ss c] Cons.IH[of "AddObject ss x None" True]
    by (cases "CanBeAddedTo x ss") (auto simp: mergeStep_def)
qed simp

lemma mergeObjectsCore_ok:
  assumes ok: "server_ok kv" and inc: "objs_ok incoming"
  shows "\<exists>res kv'. mergeObjectsCore k incoming ret kv = Inr (res, kv') \<and> server_ok kv' \<and> ring kv' = ring kv
    \<and> (\<forall>k'. storedAt kv' k' = (if k' = k then mergeLoop (storedAt kv k) incoming else storedAt kv k'))
    \<and> (ret \<and> incoming \<noteq> [] \<longrightarrow> res = mergeLoop (storedAt kv k) incoming)"
proof (cases "incoming = []")
  case False
  let ?m = "mergeLoop (storedAt kv k) incoming"
  have plan: "mergePlan k incoming kv = (?m, snd (mergePlan k incoming kv))"
    by (metis mergePlan_eq prod.collapse)
  have m: "?m \<noteq> []" "siblings_ok ?m" "ts_sorted ?m"
    using storedAt_ok[OF ok, of k] inc False
    by (auto intro: siblings_ok_mergeLoop ts_sorted_mergeLoop dest: mergeLoop_nonempty[OF disjI2])
  show ?thesis
  proof (cases "snd (mergePlan k incoming kv)")
    case True
    then show ?thesis
      using installObjects_ok[OF ok m, of k] False plan
      by (auto simp: mergeObjectsCore_def split: prod.splits)
  next
    case no: False
    then have same: "?m = storedAt kv k"
      using merge_unchanged[of incoming "storedAt kv k" False] by (simp add: mergePlan_def)
    have "CopyObjects (storedAt kv k) = storedAt kv k" using storedAt_ok[OF ok, of k] by auto
    then show ?thesis using ok no False plan same by (auto simp: mergeObjectsCore_def split: prod.splits)
  qed
qed (use ok in \<open>simp add: mergeObjectsCore_def\<close>)

subsection \<open>ReplicaPut\<close>

text \<open>A put whose object descends from the context it was based on, as a coordinator sends it.\<close>

definition put_descends :: "PutArgs \<Rightarrow> bool" where
  "put_descends args \<longleftrightarrow> put_ok args \<and> ctx_ver (BaseContext args) \<le> obj_ver (putObject args)"

lemma initial_ver: "ctx_ok c \<Longrightarrow> IsInitialCtx c \<Longrightarrow> ctx_ver c = (\<lambda>_. 0)"
  by (simp add: ctx_ok_def IsInitialCtx_def IsInitialVC_iff ctx_ver_def)

lemma zero_covered: "ss \<noteq> [] \<Longrightarrow> covers (versions ss) (\<lambda>_. 0)"
  by (cases ss) (auto simp: le_fun_def)

lemma base_check:
  "CanBeAddedTo \<lparr>Value = v, Ctx = base\<rparr> ss \<longleftrightarrow> \<not> covers (versions ss) (ctx_ver base)"
  by (simp add: CanBeAddedTo_iff obj_ver_def)

lemma replicaPutBody_rejects:
  "kvmap kv (putKey args) = None \<Longrightarrow> \<not> IsInitialCtx (BaseContext args) \<Longrightarrow>
     replicaPutBody kv args = Inr (ErrNoKey, kv)"
  "kvmap kv (putKey args) \<noteq> None \<or> IsInitialCtx (BaseContext args) \<Longrightarrow>
     covers (versionsAt kv (putKey args)) (ctx_ver (BaseContext args)) \<Longrightarrow>
     replicaPutBody kv args = Inr (ErrVersion, kv)"
  by (auto simp: replicaPutBody_def Let_def base_check versionsAt_def)

lemma replicaPutBody_accepts:
  assumes ok: "server_ok kv" and d: "put_descends args"
    and known: "kvmap kv (putKey args) \<noteq> None \<or> IsInitialCtx (BaseContext args)"
    and new: "\<not> covers (versionsAt kv (putKey args)) (ctx_ver (BaseContext args))"
  shows "\<exists>kv'. replicaPutBody kv args = Inr (OK, kv') \<and> server_ok kv' \<and> ring kv' = ring kv
    \<and> (\<forall>k. storedAt kv' k = (if k = putKey args then AddObject (storedAt kv k) (putObject args) None else storedAt kv k))
    \<and> CanBeAddedTo (putObject args) (storedAt kv (putKey args))"
proof -
  let ?k = "putKey args" and ?o = "putObject args"
  let ?objs = "AddObject (storedAt kv ?k) ?o None"
  have can: "CanBeAddedTo ?o (storedAt kv ?k)"
    using new d covers_below by (auto simp: CanBeAddedTo_iff versionsAt_def put_descends_def)
  have objs: "?objs \<noteq> []" "siblings_ok ?objs" "ts_sorted ?objs"
  proof -
    show "?objs \<noteq> []" using set_AddObject[OF can, of None] by (metis empty_iff insertI1 list.set(1))
    show "siblings_ok ?objs" "ts_sorted ?objs"
      using storedAt_ok[OF ok, of ?k] can d
      by (auto simp: put_descends_def put_ok_def siblings_ok_AddObject ts_sorted_AddObject)
  qed
  obtain s b where loc: "GetLocation (ring kv) ?k = (s, b)" by (cases "GetLocation (ring kv) ?k")
  show ?thesis
  proof (cases "IsInitialCtx (BaseContext args)")
    case True
    then have "storedAt kv ?k = []"
      using new d zero_covered initial_ver by (auto simp: versionsAt_def put_descends_def put_ok_def)
    then show ?thesis
      using True new can objs server_ok_install[OF ok loc objs] inBuckets_location[OF ok loc]
      by (simp add: replicaPutBody_def Let_def base_check versionsAt_def loc)
  next
    case False
    then have "kvmap kv ?k \<noteq> None" using known by simp
    then show ?thesis
      using False new can server_ok_update[OF ok _ objs]
      by (simp add: replicaPutBody_def Let_def base_check versionsAt_def)
  qed
qed

lemma replicaPutBody_total:
  assumes "server_ok kv" and "put_descends args"
  shows "\<exists>e kv'. replicaPutBody kv args = Inr (e, kv') \<and> server_ok kv' \<and> ring kv' = ring kv
    \<and> (e = OK \<or> kv' = kv) \<and> (e = OK \<longleftrightarrow> (kvmap kv (putKey args) \<noteq> None \<or> IsInitialCtx (BaseContext args))
          \<and> \<not> covers (versionsAt kv (putKey args)) (ctx_ver (BaseContext args)))
    \<and> (\<forall>k. versionsAt kv' k = (if e = OK \<and> k = putKey args
          then add_version (obj_ver (putObject args)) (versionsAt kv k) else versionsAt kv k))"
proof -
  consider "kvmap kv (putKey args) = None" "\<not> IsInitialCtx (BaseContext args)"
    | "kvmap kv (putKey args) \<noteq> None \<or> IsInitialCtx (BaseContext args)"
      "covers (versionsAt kv (putKey args)) (ctx_ver (BaseContext args))"
    | "kvmap kv (putKey args) \<noteq> None \<or> IsInitialCtx (BaseContext args)"
      "\<not> covers (versionsAt kv (putKey args)) (ctx_ver (BaseContext args))" by blast
  then show ?thesis
  proof cases
    case 3
    then show ?thesis using replicaPutBody_accepts[OF assms 3] by (auto simp: versionsAt_def versions_AddObject)
  qed (use assms(1) in \<open>simp_all add: replicaPutBody_rejects\<close>)
qed

subsection \<open>Stores that only advance\<close>

text \<open>
  The interface the coordinator and the repair protocols rely on: whatever operation a
  replica performs, its invariant is kept and no version it holds is lost except to a
  version that covers it.
\<close>

inductive run_of :: "('op \<Rightarrow> 's \<Rightarrow> 's \<Rightarrow> bool) \<Rightarrow> 'op list \<Rightarrow> 's \<Rightarrow> 's \<Rightarrow> bool" for step where
  stop: "run_of step [] s s"
| more: "step a s s' \<Longrightarrow> run_of step as s' s'' \<Longrightarrow> run_of step (a # as) s s''"

locale advancing_store =
  fixes inv :: "'s \<Rightarrow> bool" and step :: "'op \<Rightarrow> 's \<Rightarrow> 's \<Rightarrow> bool"
    and vers :: "'s \<Rightarrow> 'k \<Rightarrow> 'v::order set"
  assumes step_inv: "inv s \<Longrightarrow> step a s s' \<Longrightarrow> inv s'"
    and step_advances: "inv s \<Longrightarrow> step a s s' \<Longrightarrow> advances (vers s k) (vers s' k)"
begin

lemma run_inv: "run_of step as s s' \<Longrightarrow> inv s \<Longrightarrow> inv s'"
  by (induction rule: run_of.induct) (auto intro: step_inv)

lemma run_advances: "run_of step as s s' \<Longrightarrow> inv s \<Longrightarrow> advances (vers s k) (vers s' k)"
proof (induction rule: run_of.induct)
  case (more a s s' as s'')
  then show ?case using step_advances[of s a s' k] step_inv[of s a s'] advances_trans by blast
qed simp

lemma never_lost: "run_of step as s s' \<Longrightarrow> inv s \<Longrightarrow> covers (vers s k) v \<Longrightarrow> covers (vers s' k) v"
  using covers_advances run_advances by blast

end

text \<open>The operations that change the stored objects of a replica, apart from deletion.\<close>

datatype StoreOp = OpPut PutArgs | OpMerge string "Object list"

inductive store_step :: "StoreOp \<Rightarrow> KVServer \<Rightarrow> KVServer \<Rightarrow> bool" where
  put: "put_descends args \<Longrightarrow> replicaPutBody kv args = Inr (e, kv') \<Longrightarrow> store_step (OpPut args) kv kv'"
| merge: "objs_ok objs \<Longrightarrow> mergeObjectsCore k objs ret kv = Inr (res, kv') \<Longrightarrow> store_step (OpMerge k objs) kv kv'"

inductive_cases putStepE: "store_step (OpPut args) kv kv'"

interpretation store: advancing_store server_ok store_step versionsAt
proof
  fix kv kv' a k assume ok: "server_ok kv" and st: "store_step a kv kv'"
  have "server_ok kv' \<and> advances (versionsAt kv k) (versionsAt kv' k)"
    using st
  proof cases
    case (put args e)
    then show ?thesis using replicaPutBody_total[OF ok put(2)] by (auto intro: advances_add)
  next
    case (merge objs key ret res)
    then show ?thesis
      using mergeObjectsCore_ok[OF ok merge(2), of key ret] by (auto simp: versionsAt_def intro: mergeLoop_advances)
  qed
  then show "server_ok kv'" "advances (versionsAt kv k) (versionsAt kv' k)" by blast+
qed

subsection \<open>A small server\<close>

definition sampleServer :: "string \<Rightarrow> KVServer" where
  "sampleServer i = MakeKVServer i sampleRing 1 1 [''a'', ''b''] 0"

definition samplePut :: "VClock \<Rightarrow> Object \<Rightarrow> PutArgs" where
  "samplePut vc obj = \<lparr>putKey = ''k'', putObject = obj, BaseContext = \<lparr>VC = vc, Timestamp = 0, ETag = ''''\<rparr>\<rparr>"

lemma sampleServer_ok: "server_ok (sampleServer i)"
  by (simp add: sampleServer_def server_ok_Make ring_located_def)

lemma sampleServer_empty [simp]:
  "kvmap (sampleServer i) k = None" "storedAt (sampleServer i) k = []" "versionsAt (sampleServer i) k = {}"
  by (simp_all add: sampleServer_def storedAt_def versionsAt_def)

lemma samplePut_fields [simp]: "putKey (samplePut vc obj) = ''k''" "putObject (samplePut vc obj) = obj"
  "VC (BaseContext (samplePut vc obj)) = vc"
  by (simp_all add: samplePut_def)

lemma samplePut_descends:
  assumes "gomap_ok vc" and "gomap_ok vc'" and "vc_fun vc \<le> vc_fun vc'"
  shows "put_descends (samplePut vc (sampleObj v vc' ts))"
  using assms by (simp add: put_descends_def put_ok_def samplePut_def sampleObj_def ctx_ok_def ctx_ver_def obj_ver_def)

lemma sampleFirst_descends: "gomap_ok vc \<Longrightarrow> put_descends (samplePut [] (sampleObj v vc ts))"
  by (rule samplePut_descends) (simp_all add: le_fun_def vc_fun_def del: vc_fun_apply)

lemma sampleFirst_initial: "IsInitialCtx (BaseContext (samplePut [] obj))"
  by (simp add: samplePut_def IsInitialCtx_def)

subsection \<open>Properties\<close>



text \<open>
  a put whose base context equals the context of a stored sibling is refused with
  \<open>ErrVersion\<close>: reading an object and writing back with the context that was read fails.
\<close>

theorem matching_context_refused:
  assumes "kvmap kv (putKey args) = Some sibs" and "s \<in> set sibs" and "CompareCtx (BaseContext args) (Ctx s) = Equal"
  shows "\<exists>reply. ReplicaPut t t' kv args = Inr (reply, kv) \<and> putErr reply = ErrVersion"
proof -
  have "ctx_ver (BaseContext args) = obj_ver s" using assms(3) by (simp add: ctx.cmp_equal obj_ver_def)
  then have "covers (versionsAt kv (putKey args)) (ctx_ver (BaseContext args))"
    using assms(1,2) by (auto simp: versionsAt_def storedAt_def versions_def intro: covers_member)
  then show ?thesis using assms(1) replicaPutBody_rejects(2)[of kv args] by (simp add: ReplicaPut_def)
qed

theorem matching_context_refused_witness:
  "\<exists>reply. ReplicaPut 1 2 ((sampleServer ''a'')\<lparr>kvmap := [''k'' \<mapsto> [sampleObj ''v'' [(''a'', 1)] 5]]\<rparr>)
       (samplePut [(''a'', 1)] (sampleObj ''w'' [(''a'', 2)] 6)) =
     Inr (reply, (sampleServer ''a'')\<lparr>kvmap := [''k'' \<mapsto> [sampleObj ''v'' [(''a'', 1)] 5]]\<rparr>) \<and> putErr reply = ErrVersion"
  by (rule matching_context_refused[where s = "sampleObj ''v'' [(''a'', 1)] 5" and sibs = "[sampleObj ''v'' [(''a'', 1)] 5]"])
     (simp_all add: samplePut_def sampleObj_def ctx.cmp_equal ctx_ver_def)



text \<open>
  a merge of incoming objects into a key, when no other operation intervenes, does not
  panic, returns and stores the siblings merged with the incoming objects, keeps the server
  well formed, and touches no other key.
\<close>

theorem merge_objects_outcome:
  assumes "server_ok kv" and "objs_ok incoming" and "incoming \<noteq> []"
  shows "\<exists>kv'. mergeObjects k incoming kv = Inr (mergeLoop (storedAt kv k) incoming, kv') \<and> server_ok kv'
    \<and> versionsAt kv' k = maxima (versionsAt kv k \<union> versions incoming)
    \<and> (\<forall>k'. k' \<noteq> k \<longrightarrow> storedAt kv' k' = storedAt kv k')"
proof -
  obtain kv' where "mergeObjects k incoming kv = Inr (mergeLoop (storedAt kv k) incoming, kv')" "server_ok kv'"
      "\<forall>k'. storedAt kv' k' = (if k' = k then mergeLoop (storedAt kv k) incoming else storedAt kv k')"
    using mergeObjectsCore_ok[OF assms(1,2), of k True] assms(3) by (auto simp: mergeObjects_def)
  then show ?thesis
    using mergeLoop_maxima[of "storedAt kv k" incoming] storedAt_ok[OF assms(1), of k] by (auto simp: versionsAt_def)
qed

theorem merge_objects_outcome_witness:
  "\<exists>kv'. mergeObjects ''k'' [sampleObj ''v'' [(''a'', 1)] 5] (sampleServer ''a'') =
     Inr ([sampleObj ''v'' [(''a'', 1)] 5], kv') \<and> server_ok kv'"
  using merge_objects_outcome[OF sampleServer_ok, of "[sampleObj ''v'' [(''a'', 1)] 5]" "''k''" "''a''"]
  by (auto simp: objs_ok_def sample_ok AddObject_def)

end
