(* ===== verification/Membership.thy ===== *)
theory Membership
  imports ServerState "HOL-Library.Product_Lexorder" "HOL-Library.Option_ord"
begin

text \<open>
  Gossip membership, \<^verbatim>\<open>kvsrv/membership.go\<close>: heartbeats, the merge of member tables, failure
  detection by timeout, the choice of gossip partners, and the routing predicates. A member
  entry is ordered by heartbeat, then by status; merging two tables takes the larger entry
  of every server, so repeated and reordered gossip gives the same table.
\<close>

definition memberOf :: "KVServer \<Rightarrow> string \<Rightarrow> MemberInfo" where
  "memberOf kv serverID = gm_get \<lparr>ServerID = '''', Heartbeat = 0, Status = Alive\<rparr> (members kv) serverID"

definition UpdateMemberInfo :: "Time \<Rightarrow> string \<Rightarrow> u64 \<Rightarrow> NodeStatus \<Rightarrow> KVServer \<Rightarrow> KVServer" where
  "UpdateMemberInfo now serverID heartbeat status kv =
     kv\<lparr>members := gm_put serverID (UpdateMember heartbeat status (memberOf kv serverID)) (members kv),
        memberLastUpdated := (memberLastUpdated kv)(serverID \<mapsto> now)\<rparr>"

definition bumpLocalHeartbeat :: "Time \<Rightarrow> KVServer \<Rightarrow> KVServer" where
  "bumpLocalHeartbeat now kv =
     (let kv' = kv\<lparr>heartbeatCounter := heartbeatCounter kv + 1\<rparr>
      in UpdateMemberInfo now (srvID kv') (heartbeatCounter kv') Alive kv')"

text \<open>One iteration of \<open>mergeMembers\<close>, with the clock reading of that iteration.\<close>

definition mergeMember :: "MemberInfo \<times> Time \<Rightarrow> KVServer \<Rightarrow> KVServer" where
  "mergeMember = (\<lambda>(member, now) kv.
     let serverID = ServerID member in
     case map_of (members kv) serverID of
       None \<Rightarrow> kv\<lparr>members := gm_put serverID member (members kv),
                  memberLastUpdated := (memberLastUpdated kv)(serverID \<mapsto> now)\<rparr>
     | Some myMember \<Rightarrow>
         if Heartbeat member > Heartbeat myMember
            \<or> (Heartbeat member = Heartbeat myMember \<and> IsWorse member myMember)
         then UpdateMemberInfo now serverID (Heartbeat member) (Status member) kv
         else kv)"

definition mergeMembers :: "(MemberInfo \<times> Time) list \<Rightarrow> KVServer \<Rightarrow> KVServer" where
  "mergeMembers memberInfos kv = fold mergeMember memberInfos kv"

definition GetAllMembers :: "KVServer \<Rightarrow> MemberInfo list" where
  "GetAllMembers kv = map snd (members kv)"

definition GossipSyncMembers :: "(MemberInfo \<times> Time) list \<Rightarrow> KVServer \<Rightarrow> MemberInfo list \<times> KVServer" where
  "GossipSyncMembers memberInfos kv =
     (let kv' = mergeMembers memberInfos kv in (GetAllMembers kv', kv'))"

text \<open>
  One iteration of \<open>detectMemberFailures\<close>: \<open>now\<close> is read once before the loop, \<open>clk\<close> gives
  the reading inside \<open>UpdateMemberInfo\<close>.
\<close>

definition detectMember :: "Time \<Rightarrow> (string \<Rightarrow> Time) \<Rightarrow> string \<times> MemberInfo \<Rightarrow> KVServer \<Rightarrow> KVServer" where
  "detectMember now clk = (\<lambda>(serverID, member) kv.
     if serverID = srvID kv then kv
     else let (lastUpdated, kv) = (case memberLastUpdated kv serverID of
                Some t \<Rightarrow> (t, kv)
              | None \<Rightarrow> (now, kv\<lparr>memberLastUpdated := (memberLastUpdated kv)(serverID \<mapsto> now)\<rparr>));
              since = time_Sub now lastUpdated
          in if since \<ge> cleanupTimeout kv then
               if Status member \<noteq> Dead
               then UpdateMemberInfo (clk serverID) serverID (Heartbeat member) Dead kv else kv
             else if since \<ge> failureTimeout kv then
               if Status member = Alive
               then UpdateMemberInfo (clk serverID) serverID (Heartbeat member) Suspect kv else kv
             else kv)"

definition detectMemberFailures :: "Time \<Rightarrow> (string \<Rightarrow> Time) \<Rightarrow> KVServer \<Rightarrow> KVServer" where
  "detectMemberFailures now clk kv = fold (detectMember now clk) (members kv) kv"

text \<open>\<^verbatim>\<open>rand.Shuffle\<close>: the Fisher-Yates loop of the library.\<close>

fun shuffleLoop :: "nat \<Rightarrow> Rand \<Rightarrow> 'a list \<Rightarrow> 'a list" where
  "shuffleLoop 0 rng xs = xs"
| "shuffleLoop (Suc i) rng xs =
     (let (j, rng') = rng_Intn (Suc i + 1) rng in shuffleLoop i rng' (swap (Suc i) j xs))"

definition rand_Shuffle :: "Rand \<Rightarrow> 'a list \<Rightarrow> 'a list" where
  "rand_Shuffle rng xs = shuffleLoop (length xs - 1) rng xs"

definition GetRandomNeighbors :: "Rand \<Rightarrow> KVServer \<Rightarrow> MemberInfo list" where
  "GetRandomNeighbors rng kv =
     (let candidates = filter (\<lambda>member. ServerID member \<noteq> srvID kv) (map snd (members kv))
      in if length candidates = 0 then []
         else let candidates = rand_Shuffle rng candidates;
                  n = (if numNeighbors kv \<le> 0 \<or> numNeighbors kv > int (length candidates)
                       then length candidates else nat (numNeighbors kv))
              in take n candidates)"

text \<open>
  \<open>SyncMembers\<close>: the partners and the table it sends them; each successful reply is merged.
\<close>

definition SyncMembers :: "Rand \<Rightarrow> KVServer \<Rightarrow> (string \<times> MemberInfo list) list" where
  "SyncMembers rng kv = map (\<lambda>member. (ServerID member, GetAllMembers kv)) (GetRandomNeighbors rng kv)"

definition SyncMembersReply :: "(MemberInfo \<times> Time) list option \<Rightarrow> KVServer \<Rightarrow> KVServer" where
  "SyncMembersReply reply kv = (case reply of None \<Rightarrow> kv | Some ms \<Rightarrow> mergeMembers ms kv)"

text \<open>The tick of \<open>StartSyncMembers\<close>.\<close>

definition syncTick :: "Time \<Rightarrow> Rand \<Rightarrow> KVServer \<Rightarrow> (string \<times> MemberInfo list) list \<times> KVServer" where
  "syncTick now rng kv =
     (if pauseGossip kv then ([], kv)
      else let kv' = bumpLocalHeartbeat now kv in (SyncMembers rng kv', kv'))"

definition SetPBSDemoPauseMembershipGoss :: "bool \<Rightarrow> KVServer \<Rightarrow> KVServer" where
  "SetPBSDemoPauseMembershipGoss pause kv = kv\<lparr>pauseGossip := pause\<rparr>"

definition isInPreferenceList :: "KVServer \<Rightarrow> string \<Rightarrow> (panic + bool) option" where
  "isInPreferenceList kv key =
     map_option (map_sum id (\<lambda>prefList. srvID kv \<in> set prefList)) (GetPreferenceList (ring kv) key)"

definition filterDeadMembers :: "KVServer \<Rightarrow> string list \<Rightarrow> string list" where
  "filterDeadMembers kv serverIDs =
     filter (\<lambda>serverID. case map_of (members kv) serverID of None \<Rightarrow> False | Some m \<Rightarrow> Status m \<noteq> Dead) serverIDs"

definition isAlive :: "KVServer \<Rightarrow> string \<Rightarrow> bool" where
  "isAlive kv serverID = (case map_of (members kv) serverID of None \<Rightarrow> False | Some m \<Rightarrow> Status m = Alive)"

definition isDead :: "KVServer \<Rightarrow> string \<Rightarrow> bool" where
  "isDead kv serverID = (case map_of (members kv) serverID of None \<Rightarrow> False | Some m \<Rightarrow> Status m = Dead)"

subsection \<open>Tables that join\<close>

text \<open>
  What gossip relies on: merging a list of entries raises the entry of every key to the
  maximum of what was there and what is received.
\<close>

locale join_table =
  fixes merge :: "'m list \<Rightarrow> 's \<Rightarrow> 's" and key :: "'m \<Rightarrow> 'k" and rank :: "'m \<Rightarrow> 'r::linorder"
    and look :: "'s \<Rightarrow> 'k \<Rightarrow> 'r option" and inv :: "'s \<Rightarrow> bool"
  assumes look_merge: "inv s \<Longrightarrow> look (merge ms s) k = fold max (map (Some \<circ> rank) (filter (\<lambda>m. key m = k) ms)) (look s k)"
    and inv_merge: "inv s \<Longrightarrow> inv (merge ms s)"
begin

lemma fold_max_Max: "fold max xs (x :: 'r option) = Max (insert x (set xs))"
  by (metis Max.set_eq_fold list.simps(15))

lemma look_Max: "inv s \<Longrightarrow> look (merge ms s) k = Max (insert (look s k) ((Some \<circ> rank) ` {m \<in> set ms. key m = k}))"
  by (simp add: look_merge fold_max_Max)

lemma merge_increases: "inv s \<Longrightarrow> look s k \<le> look (merge ms s) k"
  by (simp add: look_Max)

lemma merge_set: "inv s \<Longrightarrow> set ms = set ns \<Longrightarrow> look (merge ms s) k = look (merge ns s) k"
  by (simp add: look_Max)

lemma merge_two: "inv s \<Longrightarrow> look (merge ns (merge ms s)) k = look (merge (ms @ ns) s) k"
  by (simp add: look_merge inv_merge)

lemma merge_comm: "inv s \<Longrightarrow> look (merge ns (merge ms s)) k = look (merge ms (merge ns s)) k"
  by (simp add: merge_two) (rule merge_set, auto)

lemma merge_idem: "inv s \<Longrightarrow> look (merge ms (merge ms s)) k = look (merge ms s) k"
  by (simp add: merge_two) (rule merge_set, auto)

end

definition memberRank :: "MemberInfo \<Rightarrow> u64 \<times> NodeStatus" where
  "memberRank m = (Heartbeat m, Status m)"

definition rankOf :: "KVServer \<Rightarrow> string \<Rightarrow> (u64 \<times> NodeStatus) option" where
  "rankOf kv serverID = map_option memberRank (map_of (members kv) serverID)"

text \<open>Every entry is filed under its own server identifier.\<close>

definition members_ok :: "KVServer \<Rightarrow> bool" where
  "members_ok kv \<longleftrightarrow> gomap_ok (members kv) \<and> (\<forall>(k, m) \<in> set (members kv). ServerID m = k)"

lemma rankOf_UpdateMemberInfo:
  "rankOf (UpdateMemberInfo now i h st kv) k = (if k = i then Some (h, st) else rankOf kv k)"
  by (simp add: rankOf_def UpdateMemberInfo_def memberRank_def UpdateMember_def)

lemma rank_newer: "(Heartbeat a > Heartbeat b \<or> Heartbeat a = Heartbeat b \<and> IsWorse a b) \<longleftrightarrow> memberRank b < memberRank a"
  by (auto simp: memberRank_def IsWorse_def)

lemma rankOf_mergeMember:
  "rankOf (mergeMember (m, now) kv) k = (if k = ServerID m then max (rankOf kv k) (Some (memberRank m)) else rankOf kv k)"
proof (cases "map_of (members kv) (ServerID m)")
  case None
  then show ?thesis by (auto simp: mergeMember_def Let_def rankOf_def)
next
  case (Some my)
  then show ?thesis
    unfolding mergeMember_def
    by (auto simp: rank_newer Let_def rankOf_UpdateMemberInfo max_def)
       (auto simp: rankOf_def memberRank_def less_le)
qed

lemma members_ok_UpdateMemberInfo:
  assumes "members_ok kv" and "map_of (members kv) i \<noteq> None"
  shows "members_ok (UpdateMemberInfo now i h st kv)"
proof -
  obtain m where m: "map_of (members kv) i = Some m" using assms(2) by blast
  then have "ServerID m = i" using assms(1) map_of_SomeD[OF m] by (auto simp: members_ok_def)
  moreover have "(k, x) \<in> set (gm_put i y (members kv)) \<longleftrightarrow> map_of (gm_put i y (members kv)) k = Some x" for k x y
    using assms(1) by (simp add: members_ok_def del: map_of_gm_put)
  ultimately show ?thesis
    using assms(1) m by (auto simp: members_ok_def UpdateMemberInfo_def memberOf_def gm_get_def UpdateMember_def
        split: if_splits)
qed

lemma members_ok_mergeMember: "members_ok kv \<Longrightarrow> members_ok (mergeMember (m, now) kv)"
proof (cases "map_of (members kv) (ServerID m)")
  case None
  assume "members_ok kv"
  then show ?thesis
    using None set_gm_put[of "ServerID m" m "members kv"] by (auto simp: mergeMember_def Let_def members_ok_def)
next
  case (Some my)
  assume "members_ok kv"
  then show ?thesis using Some members_ok_UpdateMemberInfo[of kv "ServerID m"] by (auto simp: mergeMember_def Let_def)
qed

interpretation gossip: join_table mergeMembers "ServerID \<circ> fst" "memberRank \<circ> fst" rankOf members_ok
proof
  fix s :: KVServer and ms :: "(MemberInfo \<times> Time) list" and k
  show "rankOf (mergeMembers ms s) k =
      fold max (map (Some \<circ> (memberRank \<circ> fst)) (filter (\<lambda>m. (ServerID \<circ> fst) m = k) ms)) (rankOf s k)"
    unfolding mergeMembers_def by (induction ms arbitrary: s) (auto simp: rankOf_mergeMember max.commute)
  assume "members_ok s"
  then show "members_ok (mergeMembers ms s)"
    unfolding mergeMembers_def by (induction ms arbitrary: s) (auto simp: members_ok_mergeMember)
qed

subsection \<open>Failure detection\<close>

text \<open>What one sweep of the detector makes of an entry that was last updated \<open>since\<close> ago.\<close>

definition detectedStatus :: "KVServer \<Rightarrow> Time \<Rightarrow> string \<Rightarrow> NodeStatus \<Rightarrow> NodeStatus" where
  "detectedStatus kv now i st =
     (let since = time_Sub now (case memberLastUpdated kv i of None \<Rightarrow> now | Some t \<Rightarrow> t)
      in if i = srvID kv then st
         else if since \<ge> cleanupTimeout kv then Dead
         else if since \<ge> failureTimeout kv \<and> st = Alive then Suspect
         else st)"

lemma detectMember_frame [simp]:
  "srvID (detectMember now clk e kv) = srvID kv"
  "cleanupTimeout (detectMember now clk e kv) = cleanupTimeout kv"
  "failureTimeout (detectMember now clk e kv) = failureTimeout kv"
  by (auto simp: detectMember_def Let_def UpdateMemberInfo_def split: prod.splits option.splits)

lemma detectMember_other:
  "k \<noteq> i \<Longrightarrow> map_of (members (detectMember now clk (i, m) kv)) k = map_of (members kv) k"
  "k \<noteq> i \<Longrightarrow> memberLastUpdated (detectMember now clk (i, m) kv) k = memberLastUpdated kv k"
  by (auto simp: detectMember_def Let_def UpdateMemberInfo_def split: option.splits)

lemma detectMember_self:
  assumes "map_of (members kv) i = Some m"
  shows "map_of (members (detectMember now clk (i, m) kv)) i = Some (m\<lparr>Status := detectedStatus kv now i (Status m)\<rparr>)"
proof -
  have "m\<lparr>Heartbeat := Heartbeat m, Status := st\<rparr> = m\<lparr>Status := st\<rparr>" for st by simp
  then show ?thesis
    using assms
    by (auto simp: detectMember_def Let_def UpdateMemberInfo_def detectedStatus_def memberOf_def gm_get_def
        UpdateMember_def split: option.splits)
qed

lemma detect_fold:
  assumes "gomap_ok es" and "\<forall>(i, m) \<in> set es. map_of (members kv) i = Some m"
  shows "map_of (members (fold (detectMember now clk) es kv)) k =
    (if k \<in> fst ` set es then map_option (\<lambda>m. m\<lparr>Status := detectedStatus kv now k (Status m)\<rparr>) (map_of (members kv) k)
     else map_of (members kv) k)"
  using assms
proof (induction es arbitrary: kv)
  case (Cons e es)
  obtain i m where e: "e = (i, m)" by (cases e)
  let ?kv = "detectMember now clk (i, m) kv"
  have pre: "\<forall>(j, n) \<in> set es. map_of (members ?kv) j = Some n"
  proof (intro ballI, clarify)
    fix j n assume jn: "(j, n) \<in> set es"
    then have "j \<noteq> i" using Cons.prems(1) e by (auto simp: image_iff)
    then show "map_of (members ?kv) j = Some n" using Cons.prems(2) jn by (auto simp: detectMember_other)
  qed
  have same: "detectedStatus ?kv now k = detectedStatus kv now k" if "k \<noteq> i"
    using that by (simp add: detectedStatus_def Let_def detectMember_other(2) fun_eq_iff)
  have "map_of (members (fold (detectMember now clk) es ?kv)) k =
    (if k \<in> fst ` set es then map_option (\<lambda>m. m\<lparr>Status := detectedStatus ?kv now k (Status m)\<rparr>) (map_of (members ?kv) k)
     else map_of (members ?kv) k)"
    using Cons.IH[OF _ pre] Cons.prems(1) e by simp
  then show ?case
    using Cons.prems e same detectMember_self[of kv i m] detectMember_other(1)[of k i]
    by (cases "k = i") auto
qed simp

lemma detectMemberFailures_status:
  assumes "gomap_ok (members kv)"
  shows "map_of (members (detectMemberFailures now clk kv)) k =
    map_option (\<lambda>m. m\<lparr>Status := detectedStatus kv now k (Status m)\<rparr>) (map_of (members kv) k)"
proof -
  have "\<forall>(i, m) \<in> set (members kv). map_of (members kv) i = Some m" using assms by auto
  then show ?thesis
    using detect_fold[OF assms, of kv now clk k] map_of_eq_None_iff[of "members kv" k]
    unfolding detectMemberFailures_def by (cases "map_of (members kv) k") (auto simp: case_prod_unfold)
qed

lemma detectedStatus_worse: "st \<le> detectedStatus kv now i st"
  by (cases st) (auto simp: detectedStatus_def Let_def less_eq_NodeStatus_def)

lemma detect_increases: "gomap_ok (members kv) \<Longrightarrow> rankOf kv k \<le> rankOf (detectMemberFailures now clk kv) k"
  using detectedStatus_worse
  by (cases "map_of (members kv) k") (auto simp: rankOf_def detectMemberFailures_status memberRank_def)

lemma bump_increases:
  assumes "rankOf kv (srvID kv) = Some (h, st)" and "h \<le> heartbeatCounter kv" and "heartbeatCounter kv \<noteq> - 1"
  shows "rankOf kv k \<le> rankOf (bumpLocalHeartbeat now kv) k"
proof -
  have "heartbeatCounter kv < heartbeatCounter kv + 1" using word_less_plus_one[OF assms(3)] .
  then have "h < heartbeatCounter kv + 1" using assms(2) by simp
  moreover have "rankOf (kv\<lparr>heartbeatCounter := c\<rparr>) j = rankOf kv j" for c j by (simp add: rankOf_def)
  ultimately show ?thesis
    using assms(1) by (simp add: bumpLocalHeartbeat_def Let_def rankOf_UpdateMemberInfo)
qed

subsection \<open>Gossip partners\<close>

lemma mset_shuffleLoop: "i < length xs \<or> xs = [] \<and> i = 0 \<Longrightarrow> mset (shuffleLoop i rng xs) = mset xs"
proof (induction i rng xs rule: shuffleLoop.induct)
  case (2 i rng xs)
  obtain j rng' where j: "rng_Intn (Suc i + 1) rng = (j, rng')" by (cases "rng_Intn (Suc i + 1) rng")
  then have "j < Suc i + 1" using rng_Intn_less[of "Suc i + 1" rng] by simp
  then show ?case using 2 j by (simp add: mset_swap_idx)
qed simp

lemma mset_rand_Shuffle [simp]: "mset (rand_Shuffle rng xs) = mset xs"
  unfolding rand_Shuffle_def by (rule mset_shuffleLoop) (cases xs; simp)

lemma GetRandomNeighbors_props:
  assumes "members_ok kv"
  shows "\<forall>m \<in> set (GetRandomNeighbors rng kv). m \<in> set (GetAllMembers kv) \<and> ServerID m \<noteq> srvID kv"
    and "distinct (map ServerID (GetRandomNeighbors rng kv))"
    and "GetRandomNeighbors rng kv = [] \<longleftrightarrow> (\<forall>m \<in> set (GetAllMembers kv). ServerID m = srvID kv)"
proof -
  let ?c = "filter (\<lambda>m. ServerID m \<noteq> srvID kv) (map snd (members kv))"
  have "map (ServerID \<circ> snd) (members kv) = map fst (members kv)"
    using assms by (auto simp: members_ok_def)
  then have d: "distinct (map ServerID ?c)"
    using assms by (metis (no_types, lifting) distinct_map_filter list.map_comp members_ok_def)
  have ms: "mset (rand_Shuffle rng ?c) = mset ?c" by simp
  then have st: "set (rand_Shuffle rng ?c) = set ?c" by (rule mset_eq_setD)
  have "distinct (map ServerID (rand_Shuffle rng ?c))"
    using d mset_eq_imp_distinct_iff[of "map ServerID (rand_Shuffle rng ?c)" "map ServerID ?c"] ms by simp
  then show "distinct (map ServerID (GetRandomNeighbors rng kv))"
    by (simp add: GetRandomNeighbors_def Let_def take_map[symmetric] del: filter_map)
  show "\<forall>m \<in> set (GetRandomNeighbors rng kv). m \<in> set (GetAllMembers kv) \<and> ServerID m \<noteq> srvID kv"
    using st by (auto simp: GetRandomNeighbors_def Let_def GetAllMembers_def dest!: in_set_takeD)
  have "length (rand_Shuffle rng ?c) = length ?c" using ms by (metis size_mset)
  then have "rand_Shuffle rng ?c = [] \<longleftrightarrow> ?c = []" by (metis length_0_conv)
  then have "GetRandomNeighbors rng kv = [] \<longleftrightarrow> ?c = []"
    unfolding GetRandomNeighbors_def Let_def
    by (smt (verit, best) length_0_conv nat_0_iff take_eq_Nil)
  then show "GetRandomNeighbors rng kv = [] \<longleftrightarrow> (\<forall>m \<in> set (GetAllMembers kv). ServerID m = srvID kv)"
    by (auto simp: GetAllMembers_def filter_empty_conv)
qed

lemma set_filterDeadMembers:
  "set (filterDeadMembers kv ids) = {i \<in> set ids. \<exists>m. map_of (members kv) i = Some m \<and> Status m \<noteq> Dead}"
  by (auto simp: filterDeadMembers_def split: option.splits)

subsection \<open>The clock of a suspicion\<close>

lemma detect_fold_frame [simp]:
  "srvID (fold (detectMember now clk) es kv) = srvID kv"
  "cleanupTimeout (fold (detectMember now clk) es kv) = cleanupTimeout kv"
  "failureTimeout (fold (detectMember now clk) es kv) = failureTimeout kv"
  by (induction es arbitrary: kv) auto

lemma detect_fold_untouched:
  "k \<notin> fst ` set es \<Longrightarrow> memberLastUpdated (fold (detectMember now clk) es kv) k = memberLastUpdated kv k"
  by (induction es arbitrary: kv) (auto simp: detectMember_other)

lemma detectMember_gomap_ok: "gomap_ok (members kv) \<Longrightarrow> gomap_ok (members (detectMember now clk e kv))"
  by (cases e; cases "memberLastUpdated kv (fst e)") (simp_all add: detectMember_def UpdateMemberInfo_def Let_def)

lemma detect_gomap_ok: "gomap_ok (members kv) \<Longrightarrow> gomap_ok (members (detectMemberFailures now clk kv))"
proof -
  have "gomap_ok (members kv) \<Longrightarrow> gomap_ok (members (fold (detectMember now clk) es kv))" for es
    by (induction es arbitrary: kv) (auto simp: detectMember_gomap_ok)
  then show "gomap_ok (members kv) \<Longrightarrow> gomap_ok (members (detectMemberFailures now clk kv))"
    by (simp add: detectMemberFailures_def)
qed

lemma detectMember_suspects:
  assumes "k \<noteq> srvID kv" and "Status m = Alive" and "memberLastUpdated kv k = Some t"
    and "failureTimeout kv \<le> time_Sub now t" and "time_Sub now t < cleanupTimeout kv"
  shows "memberLastUpdated (detectMember now clk (k, m) kv) k = Some (clk k)"
  using assms by (simp add: detectMember_def UpdateMemberInfo_def Let_def)

lemma detect_suspects:
  assumes "gomap_ok (members kv)" and "map_of (members kv) k = Some m" and "k \<noteq> srvID kv" and "Status m = Alive"
    and "memberLastUpdated kv k = Some t" and "failureTimeout kv \<le> time_Sub now t" and "time_Sub now t < cleanupTimeout kv"
  shows "memberLastUpdated (detectMemberFailures now clk kv) k = Some (clk k)"
proof -
  obtain es fs where es: "members kv = es @ (k, m) # fs" using map_of_SomeD[OF assms(2)] by (auto dest: split_list)
  then have new: "k \<notin> fst ` set es" "k \<notin> fst ` set fs" using assms(1) by auto
  let ?kv = "fold (detectMember now clk) es kv"
  have t: "memberLastUpdated ?kv k = Some t" using detect_fold_untouched[OF new(1)] assms(5) by simp
  have "memberLastUpdated (detectMember now clk (k, m) ?kv) k = Some (clk k)"
    using assms(3,4,6,7) t by (intro detectMember_suspects) simp_all
  then show ?thesis using detect_fold_untouched[OF new(2)] by (simp add: detectMemberFailures_def es)
qed

definition sampleMembers :: "KVServer" where
  "sampleMembers = (sampleServer ''a'')\<lparr>memberLastUpdated := [''a'' \<mapsto> 0, ''b'' \<mapsto> 0],
     failureTimeout := 2, cleanupTimeout := 5\<rparr>"

lemma sampleMembers_table:
  "members sampleMembers = [(''a'', \<lparr>ServerID = ''a'', Heartbeat = 0, Status = Alive\<rparr>),
     (''b'', \<lparr>ServerID = ''b'', Heartbeat = 0, Status = Alive\<rparr>)]"
  "srvID sampleMembers = ''a''"
  by (simp_all add: sampleMembers_def sampleServer_def MakeKVServer_def addMember_def gm_put_def aliveMember_def)

lemma sampleMembers_ok: "members_ok sampleMembers"
  by (simp add: members_ok_def sampleMembers_table)

subsection \<open>Properties\<close>

text \<open>
  C14: merging a received member table raises the entry of every server to the largest, by
  heartbeat and then status, of its own and the received ones; so the result does not
  depend on the order in which tables arrive, and receiving a table twice changes nothing.
  Every entry stays filed under its own server.
\<close>

theorem gossip_merge_joins:
  assumes "members_ok kv"
  shows "members_ok (mergeMembers ms kv)
    \<and> rankOf (mergeMembers ms kv) k = Max (insert (rankOf kv k) ((\<lambda>m. Some (memberRank (fst m))) ` {m \<in> set ms. ServerID (fst m) = k}))
    \<and> rankOf (mergeMembers ns (mergeMembers ms kv)) k = rankOf (mergeMembers ms (mergeMembers ns kv)) k
    \<and> rankOf (mergeMembers ms (mergeMembers ms kv)) k = rankOf (mergeMembers ms kv) k"
  using gossip.inv_merge[OF assms] gossip.look_Max[OF assms] gossip.merge_comm[OF assms] gossip.merge_idem[OF assms]
  by (simp add: o_def)

theorem gossip_merge_joins_witness:
  "rankOf (mergeMembers [(\<lparr>ServerID = ''b'', Heartbeat = 3, Status = Suspect\<rparr>, 9), (\<lparr>ServerID = ''b'', Heartbeat = 2, Status = Dead\<rparr>, 9)]
     sampleMembers) ''b'' = Some (3, Suspect)"
proof -
  let ?x = "(\<lparr>ServerID = ''b'', Heartbeat = 3, Status = Suspect\<rparr>, 9::Time)" and ?y = "(\<lparr>ServerID = ''b'', Heartbeat = 2, Status = Dead\<rparr>, 9::Time)"
  have ms: "{m \<in> set [?x, ?y]. ServerID (fst m) = ''b''} = {?x, ?y}" by auto
  have own: "rankOf sampleMembers ''b'' = Some (0, Alive)" by (simp add: rankOf_def sampleMembers_table memberRank_def)
  have "rankOf (mergeMembers [?x, ?y] sampleMembers) ''b'' =
      Max (insert (Some (0, Alive)) ((\<lambda>m. Some (memberRank (fst m))) ` {?x, ?y}))"
    using gossip_merge_joins[OF sampleMembers_ok, of "[?x, ?y]" "''b''" "[]"] unfolding ms own by blast
  then show ?thesis by (simp add: memberRank_def max_def)
qed

text \<open>
  one sweep of the failure detector leaves the own entry alone and marks every other
  member that has been silent for the cleanup timeout dead, one silent for the failure
  timeout suspect, in one pass over the table; an entry never becomes better by it.
\<close>

theorem failure_detection_outcome:
  assumes "members_ok kv" and "map_of (members kv) k = Some m"
  shows "\<exists>m'. map_of (members (detectMemberFailures now clk kv)) k = Some m' \<and> Heartbeat m' = Heartbeat m
    \<and> Status m' = detectedStatus kv now k (Status m) \<and> rankOf kv k \<le> rankOf (detectMemberFailures now clk kv) k"
proof -
  have "gomap_ok (members kv)" using assms(1) by (simp add: members_ok_def)
  then show ?thesis using detect_increases assms(2) by (simp add: detectMemberFailures_status)
qed

theorem failure_detection_outcome_witness:
  "\<exists>m'. map_of (members (detectMemberFailures 3 (\<lambda>_. 4) sampleMembers)) ''b'' = Some m' \<and> Status m' = Suspect"
  using failure_detection_outcome[OF sampleMembers_ok, of "''b''" "\<lparr>ServerID = ''b'', Heartbeat = 0, Status = Alive\<rparr>" 3 "\<lambda>_. 4"]
  by (auto simp: sampleMembers_table detectedStatus_def time_Sub_def minDuration_def maxDuration_def)
     (simp_all add: sampleMembers_def)

text \<open>
  suspecting a member restarts its clock: a member suspected by a sweep is not marked
  dead by the next sweep before the cleanup timeout has passed since the suspicion, however
  long it has been silent.
\<close>

theorem suspicion_restarts_clock:
  assumes "members_ok kv" and "map_of (members kv) k = Some m" and "k \<noteq> srvID kv" and "Status m = Alive"
    and "memberLastUpdated kv k = Some t" and "failureTimeout kv \<le> time_Sub now t" and "time_Sub now t < cleanupTimeout kv"
    and "time_Sub later (clk k) < cleanupTimeout kv"
  shows "map_option Status (map_of (members (detectMemberFailures later clk' (detectMemberFailures now clk kv))) k) = Some Suspect"
proof -
  let ?kv = "detectMemberFailures now clk kv"
  have ok: "gomap_ok (members kv)" using assms(1) by (simp add: members_ok_def)
  have "map_of (members ?kv) k = Some (m\<lparr>Status := Suspect\<rparr>)"
    using assms(2-7) by (simp add: detectMemberFailures_status[OF ok] detectedStatus_def)
  moreover have "memberLastUpdated ?kv k = Some (clk k)" using detect_suspects[OF ok assms(2-7)] .
  moreover have "srvID ?kv = srvID kv" "cleanupTimeout ?kv = cleanupTimeout kv" by (simp_all add: detectMemberFailures_def)
  moreover have "gomap_ok (members ?kv)" using ok by (rule detect_gomap_ok)
  ultimately show ?thesis using assms(3,8) by (simp add: detectMemberFailures_status detectedStatus_def)
qed

theorem suspicion_restarts_clock_witness:
  "map_option Status (map_of (members (detectMemberFailures 7 (\<lambda>_. 7) (detectMemberFailures 3 (\<lambda>_. 4) sampleMembers))) ''b'') = Some Suspect"
  by (rule suspicion_restarts_clock[where m = "\<lparr>ServerID = ''b'', Heartbeat = 0, Status = Alive\<rparr>" and t = 0])
     (simp_all add: sampleMembers_ok sampleMembers_table time_Sub_def minDuration_def maxDuration_def, simp_all add: sampleMembers_def)

end
