(* ===== verification/HintedHandoff.thy ===== *)
theory HintedHandoff
  imports Membership
begin

text \<open>
  Hinted handoff, \<^verbatim>\<open>kvsrv/hinted_handoff.go\<close>: a put for a dead replica is kept by a handoff
  server, which replays it to the replica once that is alive. The remote call is a function
  on the state of the remote side that returns the error of the reply, or \<open>None\<close> when the
  network loses the call.
\<close>

definition hintsFor :: "KVServer \<Rightarrow> string \<Rightarrow> PutArgs list" where
  "hintsFor kv target = gm_get [] (hints kv) target"

definition HintedPut :: "KVServer \<Rightarrow> HintedPutArgs \<Rightarrow> HintedPutReply \<times> KVServer" where
  "HintedPut kv args =
     (\<lparr>hintErr = OK, hintArrivedAt = 0, hintRespondedAt = 0\<rparr>,
      kv\<lparr>hints := gm_put (TargetServer args)
           (hintsFor kv (TargetServer args) @ [CopyPutArgs (hintedPutArgs args)]) (hints kv)\<rparr>)"

definition GetHints :: "KVServer \<Rightarrow> string \<Rightarrow> PutArgs list" where
  "GetHints kv target = map CopyPutArgs (hintsFor kv target)"

definition GetAllTargets :: "KVServer \<Rightarrow> string list" where
  "GetAllTargets kv = map fst (hints kv)"

definition sameHint :: "PutArgs \<Rightarrow> PutArgs \<Rightarrow> bool" where
  "sameHint hint matched \<longleftrightarrow>
     putKey hint = putKey matched \<and> Value (putObject hint) = Value (putObject matched)
     \<and> IsEqualCtx (Ctx (putObject hint)) (Ctx (putObject matched))
     \<and> IsEqualCtx (BaseContext hint) (BaseContext matched)"

fun dropHint :: "PutArgs \<Rightarrow> PutArgs list \<Rightarrow> PutArgs list option" where
  "dropHint matched [] = None"
| "dropHint matched (hint # rest) =
     (if sameHint hint matched then Some rest else map_option (\<lambda>r. hint # r) (dropHint matched rest))"

definition removeHint :: "string \<Rightarrow> PutArgs \<Rightarrow> KVServer \<Rightarrow> KVServer" where
  "removeHint target matched kv =
     (case dropHint matched (hintsFor kv target) of
        None \<Rightarrow> kv
      | Some rest \<Rightarrow> if length rest = 0 then kv\<lparr>hints := gm_del target (hints kv)\<rparr>
                     else kv\<lparr>hints := gm_put target rest (hints kv)\<rparr>)"

text \<open>The loop of \<open>replayHints\<close> over the copied hints.\<close>

fun replayLoop :: "('w \<Rightarrow> PutArgs \<Rightarrow> Err option \<times> 'w) \<Rightarrow> string \<Rightarrow> PutArgs list \<Rightarrow> KVServer \<times> 'w \<Rightarrow> KVServer \<times> 'w" where
  "replayLoop call target [] (kv, w) = (kv, w)"
| "replayLoop call target (hint # rest) (kv, w) =
     (let (res, w') = call w hint
      in replayLoop call target rest (if res = Some OK then removeHint target hint kv else kv, w'))"

definition replayHints :: "('w \<Rightarrow> PutArgs \<Rightarrow> Err option \<times> 'w) \<Rightarrow> string \<Rightarrow> KVServer \<times> 'w \<Rightarrow> KVServer \<times> 'w" where
  "replayHints call target st =
     (if \<not> isAlive (fst st) target then st else replayLoop call target (GetHints (fst st) target) st)"

definition replayAllHints :: "(string \<Rightarrow> 'w \<Rightarrow> PutArgs \<Rightarrow> Err option \<times> 'w) \<Rightarrow> KVServer \<times> 'w \<Rightarrow> KVServer \<times> 'w" where
  "replayAllHints call st = fold (\<lambda>target. replayHints (call target) target) (GetAllTargets (fst st)) st"

definition chooseHandoffNode :: "string list \<Rightarrow> KVServer \<Rightarrow> string option" where
  "chooseHandoffNode exclude kv =
     (let candidates = map fst (filter (\<lambda>(serverID, member). \<not> (serverID \<in> set exclude \<or> Status member = Dead)) (members kv))
      in if length candidates = 0 then None else Some (hd (go_sort (<) candidates)))"

subsection \<open>Choosing a handoff server\<close>

definition handoff_candidate :: "string list \<Rightarrow> KVServer \<Rightarrow> string \<Rightarrow> bool" where
  "handoff_candidate exclude kv i \<longleftrightarrow>
     i \<notin> set exclude \<and> (\<exists>m. map_of (members kv) i = Some m \<and> Status m \<noteq> Dead)"

lemma candidates_set:
  assumes "gomap_ok (members kv)"
  shows "set (map fst (filter (\<lambda>(i, m). \<not> (i \<in> set exclude \<or> Status m = Dead)) (members kv))) =
    {i. handoff_candidate exclude kv i}"
  using assms by (auto simp: handoff_candidate_def image_iff map_of_eq_Some_iff)

lemma finite_candidates: "gomap_ok (members kv) \<Longrightarrow> finite {i. handoff_candidate exclude kv i}"
  by (simp only: candidates_set[symmetric] List.finite_set)

lemma chooseHandoffNode_least:
  assumes "gomap_ok (members kv)"
  shows "chooseHandoffNode exclude kv =
    (if \<exists>i. handoff_candidate exclude kv i then Some (Min {i. handoff_candidate exclude kv i}) else None)"
proof -
  let ?c = "map fst (filter (\<lambda>(i, m). \<not> (i \<in> set exclude \<or> Status m = Dead)) (members kv))"
  have c: "set ?c = {i. handoff_candidate exclude kv i}" by (rule candidates_set[OF assms])
  show ?thesis
  proof (cases "?c = []")
    case True
    then have "\<not> (\<exists>i. handoff_candidate exclude kv i)" using c by auto
    then show ?thesis using True by (simp add: chooseHandoffNode_def Let_def)
  next
    case False
    then have hd: "hd (sort ?c) = Min (set ?c)" by (rule hd_sort)
    have "set ?c \<noteq> {}" using False by (simp only: set_empty) simp
    then have ex: "\<exists>i. handoff_candidate exclude kv i" unfolding c by blast
    have "chooseHandoffNode exclude kv = Some (hd (sort ?c))"
      using False by (simp add: chooseHandoffNode_def Let_def go_sort_linorder)
    then show ?thesis using ex unfolding hd c by simp
  qed
qed

lemma chooseHandoffNode_candidate:
  assumes "gomap_ok (members kv)" and "chooseHandoffNode exclude kv = Some h"
  shows "handoff_candidate exclude kv h"
  using assms(2) Min_in[OF finite_candidates[OF assms(1), of exclude]]
  unfolding chooseHandoffNode_least[OF assms(1)] by (auto split: if_splits)

subsection \<open>Keeping and replaying hints\<close>

definition hints_ok :: "KVServer \<Rightarrow> bool" where
  "hints_ok kv \<longleftrightarrow> gomap_ok (hints kv) \<and> (\<forall>(t, hs) \<in> set (hints kv). hs \<noteq> [] \<and> (\<forall>h \<in> set hs. put_ok h))"

lemma hintsFor_ok: "hints_ok kv \<Longrightarrow> h \<in> set (hintsFor kv t) \<Longrightarrow> put_ok h"
  by (auto simp: hints_ok_def hintsFor_def gm_get_def split: option.splits dest!: map_of_SomeD)

lemma hintsFor_HintedPut:
  "hintsFor (snd (HintedPut kv args)) t =
     (if t = TargetServer args then hintsFor kv t @ [CopyPutArgs (hintedPutArgs args)] else hintsFor kv t)"
  by (simp add: HintedPut_def hintsFor_def)

lemma hints_ok_HintedPut: "hints_ok kv \<Longrightarrow> put_ok (hintedPutArgs args) \<Longrightarrow> hints_ok (snd (HintedPut kv args))"
proof -
  assume ok: "hints_ok kv" and p: "put_ok (hintedPutArgs args)"
  have "\<forall>h \<in> set (hintsFor kv (TargetServer args)). put_ok h" using hintsFor_ok[OF ok] by blast
  then show ?thesis
    using ok p set_gm_put[of "TargetServer args" _ "hints kv"] by (fastforce simp: HintedPut_def hints_ok_def)
qed

lemma GetHints_ok: "hints_ok kv \<Longrightarrow> GetHints kv t = hintsFor kv t"
  unfolding GetHints_def using hintsFor_ok by (metis CopyPutArgs_id map_idI)

lemma sameHint_refl: "sameHint h h"
  by (simp add: sameHint_def IsEqualCtx_def ctx.cmp_self)

lemma dropHint_member: "h \<in> set hs \<Longrightarrow> \<exists>rest. dropHint h hs = Some rest"
  by (induction hs) (auto simp: sameHint_refl)

lemma dropHint_mset: "dropHint h hs = Some rest \<Longrightarrow> \<exists>g. sameHint g h \<and> mset hs = add_mset g (mset rest)"
  by (induction hs arbitrary: rest) (auto split: if_splits)

lemma dropHint_none: "dropHint h hs = None \<Longrightarrow> \<not> (\<exists>g \<in> set hs. sameHint g h)"
  by (induction hs) (auto split: if_splits)

lemma hintsFor_removeHint:
  "hintsFor (removeHint t h kv) t' =
     (if t' = t then (case dropHint h (hintsFor kv t) of None \<Rightarrow> hintsFor kv t | Some rest \<Rightarrow> rest) else hintsFor kv t')"
  by (auto simp: removeHint_def hintsFor_def gm_get_def split: option.splits)

lemma removeHint_frame [simp]: "members (removeHint t h kv) = members kv"
  by (simp add: removeHint_def split: option.splits)

lemma hints_ok_removeHint: "hints_ok kv \<Longrightarrow> hints_ok (removeHint t h kv)"
proof -
  assume ok: "hints_ok kv"
  have del: "set (gm_del t (hints kv)) \<subseteq> set (hints kv)" by (auto simp: gm_del_def AList.delete_eq)
  have keep: "\<forall>g \<in> set rest. put_ok g" if "dropHint h (hintsFor kv t) = Some rest" for rest
    using dropHint_mset[OF that] hintsFor_ok[OF ok, of _ t] by (metis insertCI set_mset_add_mset_insert set_mset_mset)
  show ?thesis
  proof (cases "dropHint h (hintsFor kv t)")
    case (Some rest)
    then have "\<forall>g \<in> set rest. put_ok g" using keep by simp
    then show ?thesis
      using ok Some del set_gm_put[of t rest "hints kv"]
      by (cases "rest = []") (fastforce simp: removeHint_def hints_ok_def)+
  qed (use ok in \<open>simp add: removeHint_def\<close>)
qed

text \<open>
  Replaying: a hint leaves the list only when the remote side answered \<open>OK\<close> to a call with
  an equal put, the calls are the hints that were pending, in order, and hints for other
  servers stay.
\<close>

fun callLog :: "('w \<Rightarrow> PutArgs \<Rightarrow> Err option \<times> 'w) \<Rightarrow> PutArgs list \<Rightarrow> 'w \<Rightarrow> Err option list" where
  "callLog call [] w = []"
| "callLog call (h # hs) w = fst (call w h) # callLog call hs (snd (call w h))"

lemma replayLoop_other: "t' \<noteq> t \<Longrightarrow> hintsFor (fst (replayLoop call t hs (kv, w))) t' = hintsFor kv t'"
  by (induction hs arbitrary: kv w) (auto simp: hintsFor_removeHint split: prod.splits)

lemma replayLoop_world: "snd (replayLoop call t hs (kv, w)) = fold (\<lambda>h w. snd (call w h)) hs w"
  by (induction hs arbitrary: kv w) (auto split: prod.splits)

lemma replayLoop_kept:
  "mset (hintsFor (fst (replayLoop call t hs (kv, w))) t) \<subseteq># mset (hintsFor kv t)"
proof (induction hs arbitrary: kv w)
  case (Cons h hs)
  have "mset (hintsFor (removeHint t h kv) t) \<subseteq># mset (hintsFor kv t)"
    using dropHint_mset by (fastforce simp: hintsFor_removeHint split: option.splits)
  then show ?case
    using Cons[of "if fst (call w h) = Some OK then removeHint t h kv else kv" "snd (call w h)"]
    by (auto split: prod.splits if_splits intro: subset_mset.order_trans)
qed simp

lemma replayLoop_unacknowledged:
  "\<forall>r \<in> set (callLog call hs w). r \<noteq> Some OK \<Longrightarrow> fst (replayLoop call t hs (kv, w)) = kv"
  by (induction hs arbitrary: kv w) (auto split: prod.splits)

lemma sameHint_iff:
  "sameHint g h \<longleftrightarrow> putKey g = putKey h \<and> Value (putObject g) = Value (putObject h)
     \<and> obj_ver (putObject g) = obj_ver (putObject h) \<and> Timestamp (Ctx (putObject g)) = Timestamp (Ctx (putObject h))
     \<and> ETag (Ctx (putObject g)) = ETag (Ctx (putObject h)) \<and> ctx_ver (BaseContext g) = ctx_ver (BaseContext h)
     \<and> Timestamp (BaseContext g) = Timestamp (BaseContext h) \<and> ETag (BaseContext g) = ETag (BaseContext h)"
  by (auto simp: sameHint_def IsEqualCtx_def ctx.cmp_iff obj_ver_def)

text \<open>What \<open>removeHint\<close> compares of a hint.\<close>

definition hintClass :: "PutArgs \<Rightarrow> string \<times> string \<times> (string \<Rightarrow> u64) \<times> u64 \<times> string \<times> (string \<Rightarrow> u64) \<times> u64 \<times> string" where
  "hintClass h = (putKey h, Value (putObject h), obj_ver (putObject h), Timestamp (Ctx (putObject h)),
     ETag (Ctx (putObject h)), ctx_ver (BaseContext h), Timestamp (BaseContext h), ETag (BaseContext h))"

lemma sameHint_class: "sameHint g h \<longleftrightarrow> hintClass g = hintClass h"
  by (auto simp: sameHint_iff hintClass_def)

definition acknowledged :: "PutArgs list \<Rightarrow> Err option list \<Rightarrow> PutArgs list" where
  "acknowledged hs rs = map fst (filter (\<lambda>(h, r). r = Some OK) (zip hs rs))"

lemma hintClass_removeHint:
  assumes "hintClass h \<in># mset (map hintClass (hintsFor kv t))"
  shows "mset (map hintClass (hintsFor kv t)) =
    add_mset (hintClass h) (mset (map hintClass (hintsFor (removeHint t h kv) t)))"
proof -
  have "dropHint h (hintsFor kv t) \<noteq> None"
    using assms dropHint_none[of h "hintsFor kv t"] by (fastforce simp: sameHint_class)
  then obtain rest where r: "dropHint h (hintsFor kv t) = Some rest" by blast
  then obtain g where "sameHint g h" "mset (hintsFor kv t) = add_mset g (mset rest)" using dropHint_mset by blast
  then show ?thesis using r by (simp add: hintsFor_removeHint sameHint_class)
qed

lemma replayLoop_exact:
  "mset (map hintClass hs) \<subseteq># mset (map hintClass (hintsFor kv t)) \<Longrightarrow>
   mset (map hintClass (hintsFor kv t)) =
   mset (map hintClass (hintsFor (fst (replayLoop call t hs (kv, w))) t))
     + mset (map hintClass (acknowledged hs (callLog call hs w)))"
proof (induction hs arbitrary: kv w)
  case (Cons h hs)
  obtain r w' where c: "call w h = (r, w')" by (cases "call w h")
  let ?kv = "if r = Some OK then removeHint t h kv else kv"
  have h: "hintClass h \<in># mset (map hintClass (hintsFor kv t))"
    using mset_subset_eqD[OF Cons.prems, of "hintClass h"] by simp
  let ?m = "\<lambda>kv. mset (map hintClass (hintsFor kv t))"
  have pre: "add_mset (hintClass h) (mset (map hintClass hs)) \<subseteq># ?m kv" using Cons.prems by simp
  have rm: "?m kv = add_mset (hintClass h) (?m (removeHint t h kv))" by (rule hintClass_removeHint[OF h])
  have "mset (map hintClass hs) \<subseteq># ?m ?kv"
  proof (cases "r = Some OK")
    case True
    then show ?thesis using pre unfolding rm by simp
  next
    case False
    have "mset (map hintClass hs) \<subseteq># add_mset (hintClass h) (mset (map hintClass hs))" by simp
    then show ?thesis using pre False subset_mset.order_trans by (simp only: if_False)
  qed
  from Cons.IH[OF this, of w'] have ih: "?m ?kv = ?m (fst (replayLoop call t (h # hs) (kv, w)))
      + mset (map hintClass (acknowledged hs (callLog call hs w')))" by (simp add: c)
  have "mset (map hintClass (acknowledged (h # hs) (callLog call (h # hs) w))) =
      (if r = Some OK then {#hintClass h#} else {#}) + mset (map hintClass (acknowledged hs (callLog call hs w')))"
    by (simp add: acknowledged_def c)
  then show ?case
  proof (cases "r = Some OK")
    case True
    then show ?thesis
      using ih rm union_mset_add_mset_right[of "?m (fst (replayLoop call t (h # hs) (kv, w)))" "hintClass h"]
      by (simp only: if_True simp_thms acknowledged_def c callLog.simps zip_Cons_Cons filter.simps fst_conv snd_conv
          prod.case list.map mset.simps)
  qed (use ih in \<open>simp add: acknowledged_def c\<close>)
qed (simp add: acknowledged_def)

subsection \<open>Delivery to a replica\<close>

text \<open>
  The call when the network delivers it; a panic of the handler makes the call fail.
\<close>

definition deliverPut :: "KVServer \<Rightarrow> PutArgs \<Rightarrow> Err option \<times> KVServer" where
  "deliverPut w args = (case replicaPutBody w args of Inl p \<Rightarrow> (None, w) | Inr (e, w') \<Rightarrow> (Some e, w'))"

lemma deliverPut_total:
  assumes "server_ok w" and "put_descends args"
  shows "\<exists>e w'. deliverPut w args = (Some e, w') \<and> server_ok w' \<and> (\<forall>k. advances (versionsAt w k) (versionsAt w' k))
    \<and> (e = OK \<longrightarrow> covers (versionsAt w' (putKey args)) (obj_ver (putObject args)))"
proof -
  obtain e w' where w: "replicaPutBody w args = Inr (e, w')" "server_ok w'"
      "\<And>k. versionsAt w' k = (if e = OK \<and> k = putKey args
          then add_version (obj_ver (putObject args)) (versionsAt w k) else versionsAt w k)"
    using replicaPutBody_total[OF assms] by blast
  then show ?thesis by (simp add: deliverPut_def advances_add covers_add_self)
qed

lemma replay_delivers:
  "\<forall>h \<in> set hs. put_descends h \<Longrightarrow> server_ok w \<Longrightarrow>
   server_ok (snd (replayLoop deliverPut t hs (kv, w)))
   \<and> (\<forall>k. advances (versionsAt w k) (versionsAt (snd (replayLoop deliverPut t hs (kv, w))) k))
   \<and> (\<forall>h \<in> set (acknowledged hs (callLog deliverPut hs w)).
        covers (versionsAt (snd (replayLoop deliverPut t hs (kv, w))) (putKey h)) (obj_ver (putObject h)))"
proof (induction hs arbitrary: kv w)
  case (Cons h hs)
  obtain e w' where d: "deliverPut w h = (Some e, w')" "server_ok w'"
      "\<And>k. advances (versionsAt w k) (versionsAt w' k)"
      "e = OK \<longrightarrow> covers (versionsAt w' (putKey h)) (obj_ver (putObject h))"
    using deliverPut_total[of w h] Cons.prems by auto
  let ?kv = "if Some e = Some OK then removeHint t h kv else kv"
  let ?last = "snd (replayLoop deliverPut t hs (?kv, w'))"
  have ih: "server_ok ?last" "\<And>k. advances (versionsAt w' k) (versionsAt ?last k)"
      "\<forall>g \<in> set (acknowledged hs (callLog deliverPut hs w')). covers (versionsAt ?last (putKey g)) (obj_ver (putObject g))"
    using Cons.IH[of w' ?kv] Cons.prems(1) d(2) by auto
  have "replayLoop deliverPut t (h # hs) (kv, w) = replayLoop deliverPut t hs (?kv, w')" using d(1) by simp
  moreover have "acknowledged (h # hs) (callLog deliverPut (h # hs) w) =
      (if e = OK then [h] else []) @ acknowledged hs (callLog deliverPut hs w')"
    by (simp add: acknowledged_def d(1))
  ultimately show ?case
    using ih d(3,4) covers_advances[OF _ ih(2)] advances_trans[OF d(3) ih(2)] by (auto split: if_splits)
qed (simp add: acknowledged_def)

text \<open>
  A hint whose base context the target already covers is refused with \<open>ErrVersion\<close> by every
  replay, so it stays pending although the target has moved on.
\<close>

lemma covered_hint_stays:
  assumes "\<forall>h \<in> set hs. kvmap w (putKey h) \<noteq> None \<and> covers (versionsAt w (putKey h)) (ctx_ver (BaseContext h))"
  shows "replayLoop deliverPut t hs (kv, w) = (kv, w)"
  using assms
proof (induction hs)
  case (Cons h hs)
  then have "deliverPut w h = (Some ErrVersion, w)" by (simp add: deliverPut_def replicaPutBody_rejects)
  then show ?case using Cons by simp
qed simp

subsection \<open>A server that keeps a hint\<close>

definition sampleHint :: PutArgs where
  "sampleHint = samplePut [] (sampleObj ''v'' [(''a'', 1)] 5)"

definition sampleKeeper :: KVServer where
  "sampleKeeper = snd (HintedPut sampleMembers \<lparr>TargetServer = ''b'', hintedPutArgs = sampleHint\<rparr>)"

lemma sampleHint_descends: "put_descends sampleHint"
  unfolding sampleHint_def by (rule sampleFirst_descends) simp

lemma sampleKeeper_hints: "hintsFor sampleKeeper ''b'' = [sampleHint]" "hints_ok sampleKeeper" "isAlive sampleKeeper ''b''"
proof -
  have empty: "hints sampleMembers = []" by (simp add: sampleMembers_def sampleServer_def MakeKVServer_def addMember_def Let_def)
  then have ok: "hints_ok sampleMembers" by (simp add: hints_ok_def)
  have h: "put_ok sampleHint" using sampleHint_descends by (simp add: put_descends_def)
  then show "hintsFor sampleKeeper ''b'' = [sampleHint]"
    unfolding sampleKeeper_def hintsFor_HintedPut using empty by (simp add: hintsFor_def gm_get_def CopyPutArgs_id)
  show "hints_ok sampleKeeper" unfolding sampleKeeper_def using ok h by (simp add: hints_ok_HintedPut)
  show "isAlive sampleKeeper ''b''" by (simp add: sampleKeeper_def HintedPut_def isAlive_def sampleMembers_table)
qed

subsection \<open>Properties\<close>

text \<open>
  the handoff server chosen for a dead replica is the smallest identifier among the
  known members that are neither excluded nor dead; there is none exactly when no such
  member exists.
\<close>

theorem handoff_choice_least:
  assumes "members_ok kv"
  shows "(chooseHandoffNode exclude kv = None \<longleftrightarrow> \<not> (\<exists>i. handoff_candidate exclude kv i))
    \<and> (chooseHandoffNode exclude kv = Some h \<longleftrightarrow>
         handoff_candidate exclude kv h \<and> (\<forall>i. handoff_candidate exclude kv i \<longrightarrow> h \<le> i))"
proof -
  have ok: "gomap_ok (members kv)" using assms by (simp add: members_ok_def)
  note fin = finite_candidates[OF ok, of exclude]
  have "Min {i. handoff_candidate exclude kv i} = h \<longleftrightarrow>
      handoff_candidate exclude kv h \<and> (\<forall>i. handoff_candidate exclude kv i \<longrightarrow> h \<le> i)" if "handoff_candidate exclude kv j" for j
    using that by (subst eq_commute, subst Min_eq_iff[OF fin]) auto
  then show ?thesis unfolding chooseHandoffNode_least[OF ok] by auto
qed

theorem handoff_choice_least_witness: "chooseHandoffNode [''a''] sampleMembers = Some ''b''"
  using handoff_choice_least[OF sampleMembers_ok, of "[''a'']" "''b''"]
  by (auto simp: handoff_candidate_def sampleMembers_table split: if_splits)

text \<open>
  C11: a replay to a live target sends every pending hint once; the hints that remain and
  the ones the target acknowledged are together exactly the hints that were pending, hints
  for other targets are untouched, and whatever the target acknowledged it holds or
  supersedes when the replay ends.
\<close>

theorem hint_replay_exact:
  assumes "hints_ok kv" and "isAlive kv t" and "server_ok w" and "\<forall>h \<in> set (hintsFor kv t). put_descends h"
    and "replayHints deliverPut t (kv, w) = (kv', w')"
    and "acked = acknowledged (hintsFor kv t) (callLog deliverPut (hintsFor kv t) w)"
  shows "mset (map hintClass (hintsFor kv t)) = mset (map hintClass (hintsFor kv' t)) + mset (map hintClass acked)
    \<and> (\<forall>t'. t' \<noteq> t \<longrightarrow> hintsFor kv' t' = hintsFor kv t')
    \<and> server_ok w' \<and> (\<forall>k. advances (versionsAt w k) (versionsAt w' k))
    \<and> (\<forall>h \<in> set acked. covers (versionsAt w' (putKey h)) (obj_ver (putObject h)))"
proof -
  have "replayLoop deliverPut t (hintsFor kv t) (kv, w) = (kv', w')"
    using assms(1,2,5) by (simp add: replayHints_def GetHints_ok)
  then show ?thesis
    using replayLoop_exact[of "hintsFor kv t" kv t deliverPut w] replayLoop_other[of _ t deliverPut "hintsFor kv t" kv w]
      replay_delivers[OF assms(4,3), of t kv] assms(6) by simp
qed

theorem hint_replay_exact_witness:
  "\<exists>kv' w'. replayHints deliverPut ''b'' (sampleKeeper, sampleServer ''b'') = (kv', w') \<and> hintsFor kv' ''b'' = []
     \<and> covers (versionsAt w' ''k'') (obj_ver (putObject sampleHint))"
proof -
  obtain e s where put: "replicaPutBody (sampleServer ''b'') sampleHint = Inr (e, s)" "e = OK"
    using replicaPutBody_total[OF sampleServer_ok sampleHint_descends, of "''b''"]
    by (auto simp: sampleHint_def sampleFirst_initial)
  obtain kv' w' where r: "replayHints deliverPut ''b'' (sampleKeeper, sampleServer ''b'') = (kv', w')" by fastforce
  have d: "\<forall>h \<in> set (hintsFor sampleKeeper ''b''). put_descends h"
    by (simp add: sampleKeeper_hints sampleHint_descends)
  have "acknowledged [sampleHint] (callLog deliverPut [sampleHint] (sampleServer ''b'')) = [sampleHint]"
    by (simp add: acknowledged_def deliverPut_def put)
  then show ?thesis
    using hint_replay_exact[OF sampleKeeper_hints(2,3) sampleServer_ok d r refl] r
    by (simp add: sampleKeeper_hints(1)) (simp add: sampleHint_def)
qed

text \<open>
  a hint whose base context the target already covers is refused with \<open>ErrVersion\<close> by
  every replay, so a replay of such hints changes neither side: the hints stay pending.
\<close>

theorem covered_hint_never_removed:
  assumes "hints_ok kv" and "\<forall>h \<in> set (hintsFor kv t). kvmap w (putKey h) \<noteq> None \<and> covers (versionsAt w (putKey h)) (ctx_ver (BaseContext h))"
  shows "replayHints deliverPut t (kv, w) = (kv, w)"
  using covered_hint_stays[OF assms(2)] assms(1) by (simp add: replayHints_def GetHints_ok)

theorem covered_hint_never_removed_witness:
  "replayHints deliverPut ''b'' (sampleKeeper, (sampleServer ''b'')\<lparr>kvmap := [''k'' \<mapsto> [sampleObj ''v'' [(''a'', 1)] 5]]\<rparr>) =
     (sampleKeeper, (sampleServer ''b'')\<lparr>kvmap := [''k'' \<mapsto> [sampleObj ''v'' [(''a'', 1)] 5]]\<rparr>)"
  by (rule covered_hint_never_removed[OF sampleKeeper_hints(2)])
     (simp add: sampleKeeper_hints(1) sampleHint_def versionsAt_def storedAt_def versions_def covers_def ctx_ver_def
        samplePut_def le_fun_def vc_fun_def del: vc_fun_apply)

end
