(* ===== verification/AntiEntropy.thy ===== *)
theory AntiEntropy
  imports GoFloat HintedHandoff
begin

text \<open>
  Merkle trees of a server and anti-entropy: the server part of \<^verbatim>\<open>kvsrv/merkle.go\<close>,
  \<^verbatim>\<open>kvsrv/anti_entropy.go\<close> and \<open>RepairPut\<close> of \<^verbatim>\<open>kvsrv/readrepair.go\<close>. Remote calls are
  functions on the state of the remote side. Floating-point factors are rational numbers:
  the rounding of \<^verbatim>\<open>float64\<close> is not modelled.
\<close>

subsection \<open>Trees of a server\<close>

text \<open>\<open>GetNodeDigest\<close>, with the fields of the node it reads as arguments.\<close>

definition GetNodeDigest :: "KVServer \<Rightarrow> nat \<Rightarrow> int \<Rightarrow> MerkleNode option \<Rightarrow> MerkleNode option \<Rightarrow> panic + bytes" where
  "GetNodeDigest kv sector bucket left right =
     (if left = None \<and> right = None then
        (if bucket < 0 then Inl IndexOutOfRange
         else case GetKeysFromBucket kv sector (nat bucket) of
                Inl e \<Rightarrow> Inl e
              | Inr keys \<Rightarrow> Inr (finalizeHash (leafInput (GetSiblings kv) keys)))
      else Inr (finalizeHash (writeChild (writeChild [] left) right)))"

definition MakeMerkleNode :: "KVServer \<Rightarrow> int \<Rightarrow> nat \<Rightarrow> int \<Rightarrow> MerkleNode option \<Rightarrow> MerkleNode option \<Rightarrow> panic + MerkleNode" where
  "MakeMerkleNode kv level sector bucket left right =
     map_sum id (\<lambda>h. MerkleNode level sector bucket left right h) (GetNodeDigest kv sector bucket left right)"

definition MakeMerkleLeaf :: "KVServer \<Rightarrow> nat \<Rightarrow> nat \<Rightarrow> panic + MerkleNode" where
  "MakeMerkleLeaf kv sector bucket = MakeMerkleNode kv 0 sector (int bucket) None None"

definition MakeMerkleInternalNode :: "KVServer \<Rightarrow> MerkleNode \<Rightarrow> MerkleNode option \<Rightarrow> panic + MerkleNode" where
  "MakeMerkleInternalNode kv left right = MakeMerkleNode kv (Level left + 1) (Sector left) (- 1) (Some left) right"

definition snapshotSector :: "KVServer \<Rightarrow> nat \<Rightarrow> panic + sectorSnapshot" where
  "snapshotSector kv sector =
     (if length (keysInBuckets kv) \<le> sector then Inl IndexOutOfRange
      else let bucketKeys = keysInBuckets kv ! sector
           in Inr \<lparr>keysPerBucket = bucketKeys,
                   snapSiblings = fold (\<lambda>k m. m(k \<mapsto> CopyObjects (storedAt kv k))) (concat bucketKeys) Map.empty\<rparr>)"

definition BuildMerkleTree :: "KVServer \<Rightarrow> nat \<Rightarrow> panic + MerkleNode" where
  "BuildMerkleTree kv sector =
     (case snapshotSector kv sector of Inl e \<Rightarrow> Inl e | Inr snap \<Rightarrow> buildMerkleTreeFromSnapshot sector snap)"

definition rebuildMerkleTreeForSector :: "nat \<Rightarrow> KVServer \<Rightarrow> panic + KVServer" where
  "rebuildMerkleTreeForSector sector kv =
     map_sum id (\<lambda>newRoot. kv\<lparr>merkleRoots := (merkleRoots kv)(sector \<mapsto> newRoot)\<rparr>) (BuildMerkleTree kv sector)"

fun rebuildSectors :: "nat list \<Rightarrow> KVServer \<Rightarrow> panic + KVServer" where
  "rebuildSectors [] kv = Inr kv"
| "rebuildSectors (sector # rest) kv =
     (case rebuildMerkleTreeForSector sector kv of Inl e \<Rightarrow> Inl e | Inr kv' \<Rightarrow> rebuildSectors rest kv')"

definition BuildAllMerkleTrees :: "KVServer \<Rightarrow> panic + KVServer" where
  "BuildAllMerkleTrees kv = rebuildSectors [0..<length (keysInBuckets kv)] kv"

definition GetMerkleRoot :: "KVServer \<Rightarrow> nat \<Rightarrow> MerkleNode option" where
  "GetMerkleRoot kv sector = merkleRoots kv sector"

definition drainDirtySectors :: "KVServer \<Rightarrow> nat list \<times> KVServer" where
  "drainDirtySectors kv =
     (if length (dirtySectors kv) = 0 then ([], kv) else (dirtySectors kv, kv\<lparr>dirtySectors := []\<rparr>))"

definition flushDirtyMerkle :: "KVServer \<Rightarrow> panic + KVServer" where
  "flushDirtyMerkle kv = (let (sectors, kv') = drainDirtySectors kv in rebuildSectors sectors kv')"

subsection \<open>Timers\<close>

text \<open>\<open>r\<close> is the draw of \<^verbatim>\<open>rng.Float64\<close>, between 0 and 1.\<close>

definition jitterOnce :: "Duration \<Rightarrow> rat \<Rightarrow> rat \<Rightarrow> Duration" where
  "jitterOnce base ratio r =
     (if base \<le> 0 then 0
      else if ratio \<le> 0 then base
      else let ratio = (if ratio > 1 then 1 else ratio);
               scale = 1 + ratio * (2 * r - 1);
               d = goTruncate (of_int base * scale)
           in if d < 0 then 0 else d)"

definition jitteredAntiEntropyDelay :: "Duration \<Rightarrow> rat \<Rightarrow> rat \<Rightarrow> Duration" where
  "jitteredAntiEntropyDelay base jitterRatio r =
     (if base \<le> 0 then 0
      else if jitterRatio \<le> 0 then base
      else let jitterRatio = (if jitterRatio > 1 then 1 else jitterRatio);
               factor = 1 + (r * 2 - 1) * jitterRatio;
               delay = goTruncate (of_int base * factor)
           in if delay < Millisecond then Millisecond else delay)"

subsection \<open>Repair\<close>

definition RepairPut :: "KVServer \<Rightarrow> RepairArgs \<Rightarrow> panic + KVServer" where
  "RepairPut kv args =
     (if repDelete args then installObjects (repKey args) [] kv
      else mergeObjectsAndDiscard (repKey args) (repObjects args) kv)"

fun collectDiff :: "KVServer \<Rightarrow> nat \<Rightarrow> nat list \<Rightarrow> KeyInfo list \<Rightarrow> panic + KeyInfo list" where
  "collectDiff kv sector [] acc = Inr acc"
| "collectDiff kv sector (bucket # rest) acc =
     (case GetKeysFromBucket kv sector bucket of
        Inl e \<Rightarrow> Inl e
      | Inr keys \<Rightarrow> collectDiff kv sector rest
          (acc @ map (\<lambda>key. \<lparr>kiKey = key, kiObjects = GetSiblings kv key\<rparr>) keys))"

definition RepairGetDiff :: "KVServer \<Rightarrow> RepairGetDiffArgs \<Rightarrow> panic + RepairGetDiffReply" where
  "RepairGetDiff kv args =
     (case GetMerkleRoot kv (rgdSector args) of
        None \<Rightarrow> Inr \<lparr>DiffKeyInfos = [], rgdErr = ErrNoHashValue\<rparr>
      | Some myRoot \<Rightarrow>
          (case tsHashes (rgdSummary args) of
             [] \<Rightarrow> Inl IndexOutOfRange
           | h # _ \<Rightarrow>
               if Hash myRoot = h then Inr \<lparr>DiffKeyInfos = [], rgdErr = OK\<rparr>
               else case findDiffBuckets (ToSummary myRoot) (rgdSummary args) of
                      Inl e \<Rightarrow> Inl e
                    | Inr diffBuckets \<Rightarrow>
                        map_sum id (\<lambda>infos. \<lparr>DiffKeyInfos = infos, rgdErr = OK\<rparr>)
                          (collectDiff kv (rgdSector args) diffBuckets [])))"

fun ApplyDiff :: "('w \<Rightarrow> RepairArgs \<Rightarrow> 'w) \<Rightarrow> KeyInfo list \<Rightarrow> KVServer \<times> 'w \<Rightarrow> panic + KVServer \<times> 'w" where
  "ApplyDiff repairPut [] st = Inr st"
| "ApplyDiff repairPut (keyInfo # rest) (kv, w) =
     (case mergeObjects (kiKey keyInfo) (kiObjects keyInfo) kv of
        Inl e \<Rightarrow> Inl e
      | Inr (merged, kv') \<Rightarrow>
          if length merged = 0 then ApplyDiff repairPut rest (kv', w)
          else ApplyDiff repairPut rest
                 (kv', repairPut w \<lparr>repKey = kiKey keyInfo, repObjects = merged, repDelete = False\<rparr>))"

text \<open>
  \<open>Reconcile\<close>; the call to the neighbour named \<^verbatim>\<open>ring.GetNodeID(neighborSector)\<close> is
  \<open>getDiff\<close>, with \<open>None\<close> for a network error.
\<close>

definition Reconcile :: "('w \<Rightarrow> RepairGetDiffArgs \<Rightarrow> RepairGetDiffReply option) \<Rightarrow> ('w \<Rightarrow> RepairArgs \<Rightarrow> 'w)
    \<Rightarrow> nat \<Rightarrow> KVServer \<times> 'w \<Rightarrow> panic + KVServer \<times> 'w" where
  "Reconcile getDiff repairPut sector = (\<lambda>(kv, w).
     case GetMerkleRoot kv sector of
       None \<Rightarrow> Inr (kv, w)
     | Some mroot \<Rightarrow>
         (case getDiff w \<lparr>rgdSector = sector, rgdSummary = ToSummary mroot\<rparr> of
            None \<Rightarrow> Inr (kv, w)
          | Some reply \<Rightarrow>
              if rgdErr reply = ErrNoHashValue then Inr (kv, w)
              else if rgdErr reply = OK \<and> length (DiffKeyInfos reply) = 0 then Inr (kv, w)
              else ApplyDiff repairPut (DiffKeyInfos reply) (kv, w)))"

text \<open>The sector and neighbour sector a tick of \<open>StartAntiEntropy\<close> chooses, if any.\<close>

definition antiEntropyChoice :: "Rand \<Rightarrow> KVServer \<Rightarrow> (panic + (nat \<times> nat) option) option" where
  "antiEntropyChoice rng kv =
     (let sectors = GetResponsibleSectors kv in
      if length sectors > 0 then
        let (i, rng) = rng_Intn (length sectors) rng;
            randSector = sectors ! i
        in map_option (map_sum id (\<lambda>(_, neighborSectors).
             if length neighborSectors > 1
             then Some (randSector, neighborSectors ! (fst (rng_Intn (length neighborSectors - 1) rng) + 1))
             else None)) (GetNeighbors (ring kv) randSector)
      else Some (Inr None))"

subsection \<open>The two ways of building a tree agree\<close>

lemma fold_snap:
  "fold (\<lambda>k m. m(k \<mapsto> f k)) ks m = (\<lambda>k. if k \<in> set ks then Some (f k) else m k)"
  by (induction ks arbitrary: m) auto

lemma snapshot_objs:
  assumes "snapshotSector kv sector = Inr snap" and "bs \<in> set (keysPerBucket snap)" and "k \<in> set bs"
  shows "snapObjs snap k = GetSiblings kv k"
  using assms by (auto simp: snapshotSector_def Let_def fold_snap snapObjs_def GetSiblings_def split: if_splits)

lemma leafInput_cong: "(\<And>k. k \<in> set keys \<Longrightarrow> f k = g k) \<Longrightarrow> leafInput f keys = leafInput g keys"
proof -
  assume eq: "\<And>k. k \<in> set keys \<Longrightarrow> f k = g k"
  have "bucketData f keys = bucketData g keys"
    unfolding bucketData_def by (rule map_cong[OF refl]) (simp add: pairData_def eq)
  then show ?thesis by (simp only: leafInput_enc)
qed

lemma leaf_agrees:
  assumes "snapshotSector kv sector = Inr snap" and "bucket < length (keysPerBucket snap)"
  shows "MakeMerkleLeaf kv sector bucket = Inr (makeMerkleLeafFromSnapshot sector bucket snap)"
proof -
  have b: "inBuckets kv sector bucket" "keysPerBucket snap ! bucket = keysInBuckets kv ! sector ! bucket"
    using assms by (auto simp: snapshotSector_def Let_def inBuckets_def split: if_splits)
  have "leafInput (GetSiblings kv) (keysPerBucket snap ! bucket) = leafInput (snapObjs snap) (keysPerBucket snap ! bucket)"
    using snapshot_objs[OF assms(1)] assms(2) by (intro leafInput_cong) (metis nth_mem)
  then show ?thesis
    using b by (simp add: MakeMerkleLeaf_def MakeMerkleNode_def GetNodeDigest_def GetKeysFromBucket_def
        makeMerkleLeafFromSnapshot_def snapObjs_def[abs_def])
qed

lemma internal_agrees:
  "MakeMerkleInternalNode kv left right = Inr (makeMerkleInternalNodeFromSnapshot left right)"
  by (simp add: MakeMerkleInternalNode_def MakeMerkleNode_def GetNodeDigest_def makeMerkleInternalNodeFromSnapshot_def)

subsection \<open>Reconciling two replicas\<close>

text \<open>The calls when the network delivers them to the neighbour's handlers.\<close>

definition deliverGetDiff :: "KVServer \<Rightarrow> RepairGetDiffArgs \<Rightarrow> RepairGetDiffReply option" where
  "deliverGetDiff w args = (case RepairGetDiff w args of Inl p \<Rightarrow> None | Inr reply \<Rightarrow> Some reply)"

definition deliverRepairPut :: "KVServer \<Rightarrow> RepairArgs \<Rightarrow> KVServer" where
  "deliverRepairPut w args = (case RepairPut w args of Inl p \<Rightarrow> w | Inr w' \<Rightarrow> w')"

lemma deliverRepairPut_merge:
  assumes "server_ok w" and "objs_ok objs"
  shows "server_ok (deliverRepairPut w \<lparr>repKey = k, repObjects = objs, repDelete = False\<rparr>)
    \<and> ring (deliverRepairPut w \<lparr>repKey = k, repObjects = objs, repDelete = False\<rparr>) = ring w
    \<and> (\<forall>k'. storedAt (deliverRepairPut w \<lparr>repKey = k, repObjects = objs, repDelete = False\<rparr>) k' =
          (if k' = k then mergeLoop (storedAt w k) objs else storedAt w k'))"
  using mergeObjectsCore_ok[OF assms, of k False]
  by (auto simp: deliverRepairPut_def RepairPut_def mergeObjectsAndDiscard_def)

lemma versionsAt_merge:
  "server_ok kv \<Longrightarrow> versions (mergeLoop (storedAt kv k) objs) = maxima (versionsAt kv k \<union> versions objs)"
  using storedAt_ok[of kv k] by (simp add: mergeLoop_maxima versionsAt_def)

definition infos_ok :: "KeyInfo list \<Rightarrow> bool" where
  "infos_ok infos \<longleftrightarrow> distinct (map kiKey infos) \<and> (\<forall>i \<in> set infos. kiObjects i \<noteq> [] \<and> objs_ok (kiObjects i))"

lemma maxima_idem: "finite S \<Longrightarrow> finite T \<Longrightarrow> maxima (T \<union> maxima (S \<union> T)) = maxima (S \<union> T)"
  by (rule antichain_covers_unique) (auto simp: covers_maxima finite_maxima)

lemma ApplyDiff_ok:
  "infos_ok infos \<Longrightarrow> server_ok kv \<Longrightarrow> server_ok w \<Longrightarrow>
   \<exists>kv' w'. ApplyDiff deliverRepairPut infos (kv, w) = Inr (kv', w') \<and> server_ok kv' \<and> server_ok w'
    \<and> (\<forall>i \<in> set infos. versionsAt kv' (kiKey i) = maxima (versionsAt kv (kiKey i) \<union> versions (kiObjects i))
         \<and> versionsAt w' (kiKey i) = maxima (versionsAt w (kiKey i) \<union> versionsAt kv' (kiKey i)))
    \<and> (\<forall>k. k \<notin> kiKey ` set infos \<longrightarrow> storedAt kv' k = storedAt kv k \<and> storedAt w' k = storedAt w k)"
proof (induction infos arbitrary: kv w)
  case (Cons i infos)
  let ?k = "kiKey i" and ?m = "mergeLoop (storedAt kv (kiKey i)) (kiObjects i)"
  have i: "kiObjects i \<noteq> []" "objs_ok (kiObjects i)" and inf: "infos_ok infos" and fresh: "?k \<notin> kiKey ` set infos"
    using Cons.prems(1) by (auto simp: infos_ok_def)
  obtain kv1 where kv1: "mergeObjects ?k (kiObjects i) kv = Inr (?m, kv1)" "server_ok kv1"
      "\<And>k. storedAt kv1 k = (if k = ?k then ?m else storedAt kv k)"
    using mergeObjectsCore_ok[OF Cons.prems(2) i(2), of ?k True] i(1) by (auto simp: mergeObjects_def)
  have m: "?m \<noteq> []" "objs_ok ?m"
    using mergeLoop_nonempty[of "storedAt kv ?k"] i siblings_ok_mergeLoop storedAt_ok[OF Cons.prems(2), of ?k] by blast+
  let ?w1 = "deliverRepairPut w \<lparr>repKey = ?k, repObjects = ?m, repDelete = False\<rparr>"
  note w1 = deliverRepairPut_merge[OF Cons.prems(3) m(2), of ?k]
  have step: "ApplyDiff deliverRepairPut (i # infos) (kv, w) = ApplyDiff deliverRepairPut infos (kv1, ?w1)"
    using kv1(1) m(1) by simp
  obtain kv' w' where ih: "ApplyDiff deliverRepairPut infos (kv1, ?w1) = Inr (kv', w')" "server_ok kv'" "server_ok w'"
      "\<And>j. j \<in> set infos \<Longrightarrow> versionsAt kv' (kiKey j) = maxima (versionsAt kv1 (kiKey j) \<union> versions (kiObjects j))
         \<and> versionsAt w' (kiKey j) = maxima (versionsAt ?w1 (kiKey j) \<union> versionsAt kv' (kiKey j))"
      "\<And>k. k \<notin> kiKey ` set infos \<Longrightarrow> storedAt kv' k = storedAt kv1 k \<and> storedAt w' k = storedAt ?w1 k"
    using Cons.IH[OF inf kv1(2), of ?w1] w1 by blast
  have head: "versionsAt kv' ?k = maxima (versionsAt kv ?k \<union> versions (kiObjects i))"
      "versionsAt w' ?k = maxima (versionsAt w ?k \<union> versionsAt kv' ?k)"
    using ih(5)[OF fresh] kv1(3)[of ?k] w1 versionsAt_merge[OF Cons.prems(2)] versionsAt_merge[OF Cons.prems(3)]
    by (simp_all add: versionsAt_def)
  have tail: "versionsAt kv1 (kiKey j) = versionsAt kv (kiKey j) \<and> versionsAt ?w1 (kiKey j) = versionsAt w (kiKey j)"
    if "j \<in> set infos" for j
  proof -
    have "kiKey j \<noteq> ?k" using that fresh by (metis imageI)
    then show ?thesis using kv1(3)[of "kiKey j"] w1 by (simp add: versionsAt_def)
  qed
  show ?case
    unfolding step using ih head tail kv1(3) w1 by (intro exI[of _ kv'] exI[of _ w']) auto
qed simp

lemma collectDiff_ok:
  assumes "\<forall>b \<in> set bs. inBuckets kv sector b"
  shows "collectDiff kv sector bs acc = Inr (acc @ map (\<lambda>key. \<lparr>kiKey = key, kiObjects = GetSiblings kv key\<rparr>)
     (concat (map (\<lambda>b. keysInBuckets kv ! sector ! b) bs)))"
  using assms by (induction bs arbitrary: acc) (auto simp: GetKeysFromBucket_def)

text \<open>Equal hashed contents of a bucket mean the same keys with the same versions.\<close>

lemma entries_determine:
  assumes "gomap_ok v" and "gomap_ok w" and "ToVCEntries None v = ToVCEntries None w"
  shows "vc_fun v = vc_fun w"
proof -
  let ?e = "\<lambda>(node, version). \<lparr>Node = node, Version = version\<rparr>"
  have "inj ?e" by (auto simp: inj_def)
  moreover have "set (map ?e v) = set (map ?e w)"
    using assms(3) unfolding ToVCEntries_sort_key by (metis set_sort)
  ultimately have "set v = set w" by (simp add: inj_image_eq_iff)
  then have "map_of v = map_of w" using assms(1,2) map_of_inject_set by blast
  then show ?thesis by (simp add: vc_fun_def gm_get_def del: vc_fun_apply)
qed

lemma objData_ver:
  "ctx_ok (Ctx a) \<Longrightarrow> ctx_ok (Ctx b) \<Longrightarrow> objData a = objData b \<Longrightarrow> obj_ver a = obj_ver b"
  using entries_determine[of "VC (Ctx a)" "VC (Ctx b)"]
  by (simp add: objData_def obj_ver_def ctx_ver_def ctx_ok_def)

lemma objData_versions:
  "objs_ok xs \<Longrightarrow> objs_ok ys \<Longrightarrow> map objData xs = map objData ys \<Longrightarrow> versions xs = versions ys"
proof (induction xs arbitrary: ys)
  case (Cons x xs)
  then obtain y ys' where ys: "ys = y # ys'" by (cases ys) auto
  then have "versions xs = versions ys'" using Cons.prems by (intro Cons.IH) (auto simp: objs_ok_def)
  then show ?case using Cons.prems ys objData_ver[of x y] by (simp add: objs_ok_def)
qed simp

lemma hashedOrder_perm: "siblings_ok xs \<Longrightarrow> mset (hashedOrder xs) = mset xs"
  by (simp add: hashedOrder_def SortObjects_perm)

lemma hashedOrder_versions: "siblings_ok xs \<Longrightarrow> versions (hashedOrder xs) = versions xs \<and> objs_ok (hashedOrder xs)"
  using hashedOrder_perm[of xs] by (metis mset_eq_setD objs_ok_def siblings_ok_def versions_def)

lemma snapshot_contents:
  assumes "server_ok kv" and "snapshotSector kv sector = Inr snap" and "b < length (keysPerBucket snap)"
  shows "contents snap b = map (pairData (storedAt kv)) (sortedKeys (keysInBuckets kv ! sector ! b))"
proof -
  have "keysPerBucket snap ! b = keysInBuckets kv ! sector ! b"
    using assms(2) by (auto simp: snapshotSector_def Let_def split: if_splits)
  moreover have "snapObjs snap k = storedAt kv k" if "k \<in> set (keysPerBucket snap ! b)" for k
    using snapshot_objs[OF assms(2) nth_mem[OF assms(3)] that] siblings_ok_objs_ok storedAt_ok[OF assms(1), of k]
    by (simp add: GetSiblings_def)
  ultimately show ?thesis
    unfolding contents_def bucketData_def by (intro map_cong) (simp_all add: pairData_def)
qed

lemma equal_contents_versions:
  assumes "server_ok A" and "server_ok B" and "snapshotSector A s = Inr sa" and "snapshotSector B s = Inr sb"
    and "b < length (keysPerBucket sa)" and "b < length (keysPerBucket sb)"
    and "contents sa b = contents sb b" and "k \<in> set (keysInBuckets B ! s ! b)"
  shows "versionsAt A k = versionsAt B k"
proof -
  have eq: "map (pairData (storedAt A)) (sortedKeys (keysInBuckets A ! s ! b)) =
      map (pairData (storedAt B)) (sortedKeys (keysInBuckets B ! s ! b))"
    using assms(7) snapshot_contents[OF assms(1,3,5)] snapshot_contents[OF assms(2,4,6)] by simp
  then have "map fst (map (pairData (storedAt A)) (sortedKeys (keysInBuckets A ! s ! b))) =
      map fst (map (pairData (storedAt B)) (sortedKeys (keysInBuckets B ! s ! b)))" by simp
  then have keys: "sortedKeys (keysInBuckets A ! s ! b) = sortedKeys (keysInBuckets B ! s ! b)"
    by (simp add: o_def pairData_def)
  have "k \<in> set (sortedKeys (keysInBuckets B ! s ! b))" using assms(8) by simp
  then have "pairData (storedAt A) k = pairData (storedAt B) k" using eq keys by simp
  then have "map objData (hashedOrder (storedAt A k)) = map objData (hashedOrder (storedAt B k))"
    by (simp add: pairData_def)
  moreover note hashedOrder_versions[of "storedAt A k"] hashedOrder_versions[of "storedAt B k"]
    storedAt_ok[OF assms(1), of k] storedAt_ok[OF assms(2), of k]
  ultimately show ?thesis using objData_versions by (metis versionsAt_def)
qed

lemma versionsAt_antichain: "server_ok kv \<Longrightarrow> antichain (versionsAt kv k) \<and> finite (versionsAt kv k)"
  using storedAt_ok[of kv k] by (simp add: versionsAt_def siblings_ok_def)

lemma maxima_same: "antichain S \<Longrightarrow> finite S \<Longrightarrow> maxima (S \<union> S) = S"
  by (auto simp: maxima_def antichain_def order.order_iff_strict)

subsection \<open>Reconciliation converges\<close>

definition fresh_tree :: "KVServer \<Rightarrow> nat \<Rightarrow> sectorSnapshot \<Rightarrow> MerkleNode \<Rightarrow> bool" where
  "fresh_tree kv sector snap t \<longleftrightarrow> snapshotSector kv sector = Inr snap
     \<and> buildMerkleTreeFromSnapshot sector snap = Inr t \<and> merkleRoots kv sector = Some t"

definition listedKeys :: "KVServer \<Rightarrow> nat \<Rightarrow> nat list \<Rightarrow> string list" where
  "listedKeys kv sector bs = concat (map (\<lambda>b. keysInBuckets kv ! sector ! b) bs)"

definition infosOf :: "KVServer \<Rightarrow> string list \<Rightarrow> KeyInfo list" where
  "infosOf kv ks = map (\<lambda>key. \<lparr>kiKey = key, kiObjects = GetSiblings kv key\<rparr>) ks"

lemma listedKeys_ok:
  assumes ok: "server_ok kv" and s: "sector < numSectors (ring kv)" and bs: "distinct bs"
    "\<forall>b \<in> set bs. b < bucketsPerSector (ring kv)"
  shows "distinct (listedKeys kv sector bs)"
    and "set (listedKeys kv sector bs) = {k. kvmap kv k \<noteq> None \<and> (\<exists>b \<in> set bs. GetLocation (ring kv) k = (sector, b))}"
proof -
  show st: "set (listedKeys kv sector bs) = {k. kvmap kv k \<noteq> None \<and> (\<exists>b \<in> set bs. GetLocation (ring kv) k = (sector, b))}"
    using indexed_cell(2)[OF ok s] bs(2) by (auto simp: listedKeys_def)
  show "distinct (listedKeys kv sector bs)"
    unfolding listedKeys_def using bs
  proof (induction bs)
    case (Cons b bs)
    then show ?case using indexed_cell[OF ok s] by auto
  qed simp
qed

lemma infosOf_ok:
  assumes "server_ok kv" and "distinct ks" and "\<forall>k \<in> set ks. kvmap kv k \<noteq> None"
  shows "infos_ok (infosOf kv ks)" and "\<And>k. k \<in> set ks \<Longrightarrow> versions (GetSiblings kv k) = versionsAt kv k"
proof -
  have cp: "GetSiblings kv k = storedAt kv k" for k
    using storedAt_ok[OF assms(1), of k] by (auto simp: GetSiblings_def)
  show "infos_ok (infosOf kv ks)"
    using assms storedAt_ok[OF assms(1)] storedAt_empty_iff[OF assms(1)]
    by (auto simp: infos_ok_def infosOf_def cp o_def)
  show "\<And>k. k \<in> set ks \<Longrightarrow> versions (GetSiblings kv k) = versionsAt kv k" by (simp add: cp versionsAt_def)
qed

lemma RepairGetDiff_fresh:
  assumes ok: "server_ok A" "server_ok B" and ring: "ring B = ring A"
    and sec: "sector < numSectors (ring A)" and pow: "bucketsPerSector (ring A) = 2 ^ K"
    and fa: "fresh_tree A sector sa ta" and fb: "fresh_tree B sector sb tb"
    and fit: "fitsSnapshot sa" "fitsSnapshot sb"
    and inj: "inj_on finalizeHash (tree_inputs sb tb \<union> tree_inputs sa ta)"
  shows "\<exists>bs. RepairGetDiff B \<lparr>rgdSector = sector, rgdSummary = ToSummary ta\<rparr> =
           Inr \<lparr>DiffKeyInfos = infosOf B (listedKeys B sector bs), rgdErr = OK\<rparr>
         \<and> distinct bs \<and> (\<forall>b \<in> set bs. b < 2 ^ K)
         \<and> (\<forall>b < 2 ^ K. b \<notin> set bs \<longrightarrow> contents sb b = contents sa b \<or> keysInBuckets B ! sector ! b = [])"
proof -
  have len: "length (keysPerBucket sa) = 2 ^ K" "length (keysPerBucket sb) = 2 ^ K"
    using ok fa fb ring sec pow
    by (auto simp: fresh_tree_def snapshotSector_def Let_def server_ok_def index_shape_def split: if_splits)
  obtain bs where bs: "findDiffBuckets (ToSummary tb) (ToSummary ta) = Inr bs" "distinct bs"
      "set bs = {b. b < 2 ^ K \<and> contents sb b \<noteq> contents sa b \<and> (K = 0 \<or> contents sb b \<noteq> [])}"
    using findDiffBuckets_exact[OF len(2,1) _ _ fit(2,1) inj] fa fb by (auto simp: fresh_tree_def)
  have inb: "\<forall>b \<in> set bs. inBuckets B sector b"
    using bs(3) ok(2) ring sec pow by (auto simp: inBuckets_def server_ok_def index_shape_def)
  have "b \<notin> set bs \<Longrightarrow> contents sb b = contents sa b \<or> keysInBuckets B ! sector ! b = []" if "b < 2 ^ K" for b
  proof -
    have "contents sb b = [] \<longleftrightarrow> keysInBuckets B ! sector ! b = []"
      using snapshot_contents[OF ok(2), of sector sb b] fb len(2) that
      by (simp add: fresh_tree_def flip: length_0_conv)
    then show "b \<notin> set bs \<Longrightarrow> contents sb b = contents sa b \<or> keysInBuckets B ! sector ! b = []"
      using bs(3) that by blast
  qed
  moreover obtain h hs where h: "tsHashes (ToSummary ta) = Hash ta # hs" using summary_head by metis
  moreover have "bs = []" if "Hash tb = Hash ta" using same_root_no_diff[OF that] bs(1) by simp
  moreover have "collectDiff B sector bs [] = Inr (infosOf B (listedKeys B sector bs))"
    using collectDiff_ok[OF inb, of "[]"] by (simp add: infosOf_def listedKeys_def)
  ultimately show ?thesis
    using bs fb by (intro exI[of _ bs])
      (auto simp: RepairGetDiff_def GetMerkleRoot_def fresh_tree_def infosOf_def listedKeys_def)
qed

lemma Reconcile_converges:
  assumes ok: "server_ok A" "server_ok B" and ring: "ring B = ring A"
    and sec: "sector < numSectors (ring A)" and pow: "bucketsPerSector (ring A) = 2 ^ K"
    and fa: "fresh_tree A sector sa ta" and fb: "fresh_tree B sector sb tb"
    and fit: "fitsSnapshot sa" "fitsSnapshot sb"
    and inj: "inj_on finalizeHash (tree_inputs sb tb \<union> tree_inputs sa ta)"
  shows "\<exists>A' B'. Reconcile deliverGetDiff deliverRepairPut sector (A, B) = Inr (A', B')
    \<and> server_ok A' \<and> server_ok B'
    \<and> (\<forall>k. if fst (GetLocation (ring A) k) = sector \<and> kvmap B k \<noteq> None
           then versionsAt A' k = maxima (versionsAt A k \<union> versionsAt B k) \<and> versionsAt B' k = versionsAt A' k
           else storedAt A' k = storedAt A k \<and> storedAt B' k = storedAt B k)"
proof -
  obtain bs where bs: "RepairGetDiff B \<lparr>rgdSector = sector, rgdSummary = ToSummary ta\<rparr> =
        Inr \<lparr>DiffKeyInfos = infosOf B (listedKeys B sector bs), rgdErr = OK\<rparr>"
      "distinct bs" "\<forall>b \<in> set bs. b < 2 ^ K"
      "\<And>b. b < 2 ^ K \<Longrightarrow> b \<notin> set bs \<Longrightarrow> contents sb b = contents sa b \<or> keysInBuckets B ! sector ! b = []"
    using RepairGetDiff_fresh[OF assms] by blast
  let ?ks = "listedKeys B sector bs"
  have "\<forall>b \<in> set bs. b < bucketsPerSector (ring B)" using bs(3) ring pow by simp
  note ks = listedKeys_ok[OF ok(2) _ bs(2) this, of sector, unfolded ring, OF sec]
  have held: "\<forall>k \<in> set ?ks. kvmap B k \<noteq> None" using ks(2) by blast
  note info = infosOf_ok[OF ok(2) ks(1) held]
  obtain A' B' where st: "ApplyDiff deliverRepairPut (infosOf B ?ks) (A, B) = Inr (A', B')" "server_ok A'" "server_ok B'"
      "\<And>i. i \<in> set (infosOf B ?ks) \<Longrightarrow> versionsAt A' (kiKey i) = maxima (versionsAt A (kiKey i) \<union> versions (kiObjects i))
         \<and> versionsAt B' (kiKey i) = maxima (versionsAt B (kiKey i) \<union> versionsAt A' (kiKey i))"
      "\<And>k. k \<notin> kiKey ` set (infosOf B ?ks) \<Longrightarrow> storedAt A' k = storedAt A k \<and> storedAt B' k = storedAt B k"
    using ApplyDiff_ok[OF info(1) ok] by blast
  have keys: "kiKey ` set (infosOf B ?ks) = set ?ks" by (force simp: infosOf_def)
  have rec: "Reconcile deliverGetDiff deliverRepairPut sector (A, B) = Inr (A', B')"
  proof (cases "infosOf B ?ks = []")
    case True
    then show ?thesis using fa bs(1) st(1) by (simp add: Reconcile_def GetMerkleRoot_def fresh_tree_def deliverGetDiff_def)
  next
    case False
    then show ?thesis using fa bs(1) st(1) by (simp add: Reconcile_def GetMerkleRoot_def fresh_tree_def deliverGetDiff_def)
  qed
  have listed: "versionsAt A' k = maxima (versionsAt A k \<union> versionsAt B k) \<and> versionsAt B' k = versionsAt A' k"
    if k: "k \<in> set ?ks" for k
  proof -
    have "\<lparr>kiKey = k, kiObjects = GetSiblings B k\<rparr> \<in> set (infosOf B ?ks)" using k by (simp add: infosOf_def)
    from st(4)[OF this] have v: "versionsAt A' k = maxima (versionsAt A k \<union> versionsAt B k)"
        "versionsAt B' k = maxima (versionsAt B k \<union> versionsAt A' k)"
      using info(2)[OF k] by simp_all
    then show ?thesis
      using maxima_idem[of "versionsAt A k" "versionsAt B k"] versionsAt_antichain[OF ok(1)] versionsAt_antichain[OF ok(2)]
      by simp
  qed
  have other: "versionsAt A k = versionsAt B k"
    if k: "fst (GetLocation (ring A) k) = sector" "kvmap B k \<noteq> None" "k \<notin> set ?ks" for k
  proof -
    obtain b where loc: "GetLocation (ring A) k = (sector, b)" using k(1) by (cases "GetLocation (ring A) k") auto
    then have b: "b < 2 ^ K" "b \<notin> set bs" "k \<in> set (keysInBuckets B ! sector ! b)"
      using location_bounds[OF ok(1) loc] pow ks(2) k indexed_cell(2)[OF ok(2), of sector b] ring by auto
    then have eq: "contents sa b = contents sb b" using bs(4)[OF b(1,2)] by auto
    have len: "b < length (keysPerBucket sa)" "b < length (keysPerBucket sb)"
      using b(1) ok fa fb ring sec pow
      by (auto simp: fresh_tree_def snapshotSector_def Let_def server_ok_def index_shape_def split: if_splits)
    show ?thesis
      using equal_contents_versions[OF ok _ _ len eq b(3)] fa fb by (simp add: fresh_tree_def)
  qed
  have "if fst (GetLocation (ring A) k) = sector \<and> kvmap B k \<noteq> None
      then versionsAt A' k = maxima (versionsAt A k \<union> versionsAt B k) \<and> versionsAt B' k = versionsAt A' k
      else storedAt A' k = storedAt A k \<and> storedAt B' k = storedAt B k" for k
  proof (cases "k \<in> set ?ks")
    case True
    then show ?thesis using listed ks(2) ring by auto
  next
    case False
    then have "storedAt A' k = storedAt A k \<and> storedAt B' k = storedAt B k" using st(5) keys by blast
    then show ?thesis
      using other[OF _ _ False] maxima_same[of "versionsAt B k"] versionsAt_antichain[OF ok(2), of k]
      by (auto simp: versionsAt_def)
  qed
  then show ?thesis using rec st(2,3) by blast
qed


subsection \<open>Two small replicas\<close>

text \<open>
  A ring of one sector with one bucket, a replica that holds nothing and one that holds one
  key, each with its tree built.
\<close>

definition tinyRing :: ConsistentHashRing where
  "tinyRing = sampleRing\<lparr>numSectors := 1, bucketsPerSector := 1, nodes := [''a'' \<mapsto> [0]], sectorMap := [0 \<mapsto> ''a'']\<rparr>"

definition tinySnap :: "Object list \<Rightarrow> sectorSnapshot" where
  "tinySnap objs = (if objs = [] then sampleSnap [] else \<lparr>keysPerBucket = [[''k'']], snapSiblings = [''k'' \<mapsto> objs]\<rparr>)"

definition tinyTree :: "Object list \<Rightarrow> MerkleNode" where
  "tinyTree objs = makeMerkleLeafFromSnapshot 0 0 (tinySnap objs)"

definition tinyServer :: "string \<Rightarrow> Object list \<Rightarrow> KVServer" where
  "tinyServer i objs = (MakeKVServer i tinyRing 1 1 [''a'', ''b''] 0)
     \<lparr>kvmap := (if objs = [] then Map.empty else [''k'' \<mapsto> objs]),
      keysInBuckets := [[if objs = [] then [] else [''k'']]], merkleRoots := [0 \<mapsto> tinyTree objs]\<rparr>"

abbreviation "tinyObj \<equiv> sampleObj ''v'' [(''a'', 1)] 5"

lemma tinyServer_fields [simp]: "ring (tinyServer i objs) = tinyRing" "kvmap (tinyServer i objs) k = (if k = ''k'' \<and> objs \<noteq> [] then Some objs else None)"
  "numSectors tinyRing = 1" "bucketsPerSector tinyRing = 1" "dirtySectors (tinyServer i objs) = []"
  "merkleRoots (tinyServer i objs) 0 = Some (tinyTree objs)" "GetLocation tinyRing k = (0, 0)"
  by (simp_all add: tinyServer_def tinyRing_def MakeKVServer_def addMember_def Let_def GetLocation_def sampleRing_def)

lemma tinyServer_ok: "objs = [] \<or> siblings_ok objs \<and> ts_sorted objs \<Longrightarrow> server_ok (tinyServer i objs)"
  by (auto simp: server_ok_def ring_located_def index_shape_def stored_ok_def indexed_def) (auto simp: tinyServer_def split: if_splits)

lemma tinyServer_fresh:
  assumes "objs = [] \<or> siblings_ok objs"
  shows "fresh_tree (tinyServer i objs) 0 (tinySnap objs) (tinyTree objs)"
proof -
  have one: "length (keysPerBucket (tinySnap objs)) = 1" by (simp add: tinySnap_def sampleSnap_def)
  have "snapshotSector (tinyServer i objs) 0 = Inr (tinySnap objs)"
    using assms siblings_ok_objs_ok[of objs]
    by (auto simp: snapshotSector_def tinyServer_def storedAt_def tinySnap_def sampleSnap_def)
  moreover have "buildMerkleTreeFromSnapshot 0 (tinySnap objs) = Inr (tinyTree objs)"
    unfolding buildMerkleTreeFromSnapshot_def one by (simp add: buildLevels.simps tinyTree_def)
  ultimately show ?thesis by (simp add: fresh_tree_def)
qed

lemma tinyTree_inputs: "tree_inputs (tinySnap objs) (tinyTree objs) = {leafIn (tinySnap objs) 0, emptyInput}"
proof -
  have "length (keysPerBucket (tinySnap objs)) = 1" by (simp add: tinySnap_def sampleSnap_def)
  then show ?thesis by (simp add: tree_inputs_def tinyTree_def makeMerkleLeafFromSnapshot_def insert_commute)
qed

lemma tinyObj_siblings: "siblings_ok [tinyObj]" "ts_sorted [tinyObj]"
  by (simp_all add: sample_single_ok ts_sorted_def)

lemma tinyObj_data: "pairData (snapObjs (tinySnap [tinyObj])) ''k'' = (''k'', [(''v'', 5, [\<lparr>Node = ''a'', Version = 1\<rparr>])])"
proof -
  have "hashedOrder [tinyObj] = [tinyObj]" using hashedOrder_perm[OF tinyObj_siblings(1)] by simp
  then show ?thesis
    by (simp add: pairData_def snapObjs_def tinySnap_def objData_def sampleObj_def ToVCEntries_sort_key)
qed

lemma tinyObj_leaf:
  "leafIn (tinySnap [tinyObj]) 0 = put_uint64 1 @ encPair (''k'', [(''v'', 5, [\<lparr>Node = ''a'', Version = 1\<rparr>])])
     @ encString ''empty'' @ encString ''empty''"
  using tinyObj_data
  by (simp add: leafIn_def leafInput_enc bucketData_def sortedKeys_def go_sort_linorder) (simp add: tinySnap_def go_sort_linorder)

lemma tinySnap_fits: "fitsSnapshot (tinySnap [tinyObj])" "fitsSnapshot (tinySnap [])"
proof -
  show "fitsSnapshot (tinySnap [])" by (simp add: tinySnap_def sampleSnap_fits)
  have "keysPerBucket (tinySnap [tinyObj]) = [[''k'']]" by (simp add: tinySnap_def)
  then show "fitsSnapshot (tinySnap [tinyObj])"
    by (simp add: fitsSnapshot_def fitsBucket_def bucketData_def sortedKeys_def go_sort_linorder tinyObj_data fitsPair_def
        fitsString_def fitsData_def)
qed

lemma digest_k:
  "finalizeHash (put_uint64 1 @ encPair (''k'', [(''v'', 5, [\<lparr>Node = ''a'', Version = 1\<rparr>])]) @ encString ''empty'' @ encString ''empty'') =
    [48, 46, 137, 197, 160, 44, 228, 105, 196, 57, 31, 111, 245, 115, 75, 30,
     16, 197, 59, 158, 224, 142, 63, 150, 152, 83, 43, 38, 22, 92, 249, 193]"
  by code_simp

lemma tiny_no_collision:
  "inj_on finalizeHash (tree_inputs (tinySnap [tinyObj]) (tinyTree [tinyObj]) \<union> tree_inputs (tinySnap []) (tinyTree []))"
proof -
  have e: "emptyInput = put_uint64 0 @ encString ''empty'' @ encString ''empty''"
    by (simp add: emptyInput_def writeUint64_def writeString_append)
  have "finalizeHash (leafIn (tinySnap [tinyObj]) 0) \<noteq> finalizeHash emptyInput"
    unfolding tinyObj_leaf e digest_empty digest_k by simp
  moreover have "leafIn (tinySnap []) 0 = emptyInput" by (simp add: tinySnap_def sampleSnap_leafIn)
  ultimately show ?thesis unfolding tinyTree_inputs by (simp add: inj_on_def)
qed

subsection \<open>Properties\<close>



text \<open>
  the nodes made directly from the live store (\<open>MakeMerkleLeaf\<close>, \<open>MakeMerkleInternalNode\<close>)
  and those made from a snapshot of the sector are the same nodes, for every bucket and
  every pair of children.
\<close>

theorem node_builders_agree:
  assumes "sector < length (keysInBuckets kv)"
  shows "\<exists>snap. snapshotSector kv sector = Inr snap
    \<and> (\<forall>bucket < length (keysPerBucket snap). MakeMerkleLeaf kv sector bucket = Inr (makeMerkleLeafFromSnapshot sector bucket snap))
    \<and> (\<forall>left right. MakeMerkleInternalNode kv left right = Inr (makeMerkleInternalNodeFromSnapshot left right))"
proof -
  obtain snap where "snapshotSector kv sector = Inr snap" using assms by (auto simp: snapshotSector_def Let_def)
  then show ?thesis using leaf_agrees internal_agrees by blast
qed

theorem node_builders_agree_witness:
  "\<exists>snap. snapshotSector (tinyServer ''b'' [tinyObj]) 0 = Inr snap
     \<and> (\<forall>bucket < length (keysPerBucket snap). MakeMerkleLeaf (tinyServer ''b'' [tinyObj]) 0 bucket = Inr (makeMerkleLeafFromSnapshot 0 bucket snap))"
  using node_builders_agree[of 0 "tinyServer ''b'' [tinyObj]"] by (auto simp: tinyServer_def)

text \<open>
  C40: a put does not mark its sector dirty: when the trees of two replicas have equal roots
  and one of them then accepts a put, its refresher leaves the tree as it is and
  anti-entropy between the two exchanges nothing, although the replicas differ.
\<close>

theorem put_hidden_from_anti_entropy:
  assumes "merkleRoots A sector = Some ta" and "merkleRoots B sector = Some tb" and "Hash ta = Hash tb"
    and "dirtySectors B = []" and "replicaPutBody B args = Inr (e, B')"
  shows "flushDirtyMerkle B' = Inr B' \<and> Reconcile deliverGetDiff deliverRepairPut sector (A, B') = Inr (A, B')"
proof -
  have same: "merkleRoots B' = merkleRoots B" "dirtySectors B' = dirtySectors B"
    using assms(5) by (auto simp: replicaPutBody_def Let_def setBucket_def split: if_splits prod.splits)
  obtain hs where "tsHashes (ToSummary ta) = Hash ta # hs" using summary_head by metis
  then have "RepairGetDiff B' \<lparr>rgdSector = sector, rgdSummary = ToSummary ta\<rparr> = Inr \<lparr>DiffKeyInfos = [], rgdErr = OK\<rparr>"
    using assms(2,3) same by (simp add: RepairGetDiff_def GetMerkleRoot_def)
  then show ?thesis
    using assms(1,4) same
    by (simp add: flushDirtyMerkle_def drainDirtySectors_def Reconcile_def GetMerkleRoot_def deliverGetDiff_def)
qed

theorem put_hidden_from_anti_entropy_witness:
  "\<exists>B'. replicaPutBody (tinyServer ''b'' []) (samplePut [] tinyObj) = Inr (OK, B') \<and> versionsAt B' ''k'' \<noteq> versionsAt (tinyServer ''a'' []) ''k''
     \<and> Reconcile deliverGetDiff deliverRepairPut 0 (tinyServer ''a'' [], B') = Inr (tinyServer ''a'' [], B')"
proof -
  have d: "put_descends (samplePut [] tinyObj)" by (simp add: sampleFirst_descends)
  have empty: "versionsAt (tinyServer i []) ''k'' = {}" for i by (simp add: versionsAt_def storedAt_def)
  obtain e B' where put: "replicaPutBody (tinyServer ''b'' []) (samplePut [] tinyObj) = Inr (e, B')" "e = OK"
      "versionsAt B' ''k'' = add_version (obj_ver tinyObj) {}"
    using replicaPutBody_total[OF tinyServer_ok d, of "[]" "''b''"] empty by (auto simp: sampleFirst_initial)
  have "covers (versionsAt B' ''k'') (obj_ver tinyObj)" by (simp add: put(3) covers_add_self)
  then have "versionsAt B' ''k'' \<noteq> {}" by (auto simp: covers_def)
  then show ?thesis
    using put_hidden_from_anti_entropy[of "tinyServer ''a'' []" 0 "tinyTree []" "tinyServer ''b'' []" "tinyTree []", OF _ _ _ _ put(1)]
      put empty by simp
qed

end
