(* ===== verification/ReadRepair.thy ===== *)
theory ReadRepair
  imports AntiEntropy
begin

text \<open>
  Read repair, \<^verbatim>\<open>kvsrv/readrepair.go\<close>: jobs are coalesced per key, queued in a bounded
  channel and finished by merging the replies that arrive late, comparing every reply with
  the merged siblings and sending the merged siblings to the replicas that differ. A timer
  stands for the later call of \<open>tryFlushReadRepairCoalesceKey\<close>; draining a channel has no
  effect on the state.
\<close>

definition readRepairQueueCapacity :: nat where
  "readRepairQueueCapacity = 128"

definition scheduleReadRepair :: "readRepairJob \<Rightarrow> KVServer \<Rightarrow> KVServer" where
  "scheduleReadRepair job kv =
     (let m = (if map_of (readRepairCoalesce kv) (jobKey job) \<noteq> None
               then gm_del (jobKey job) (readRepairCoalesce kv) else readRepairCoalesce kv)
      in kv\<lparr>readRepairCoalesce := gm_put (jobKey job) job m\<rparr>)"

definition tryFlushReadRepairCoalesceKey :: "string \<Rightarrow> nat \<Rightarrow> KVServer \<Rightarrow> bool \<times> KVServer" where
  "tryFlushReadRepairCoalesceKey key expectJob kv =
     (case map_of (readRepairCoalesce kv) key of
        None \<Rightarrow> (False, kv)
      | Some job \<Rightarrow>
          if jobPtr job \<noteq> expectJob then (False, kv)
          else if length (readRepairJobCh kv) < readRepairQueueCapacity
          then (True, kv\<lparr>readRepairJobCh := readRepairJobCh kv @ [job],
                         readRepairCoalesce := gm_del key (readRepairCoalesce kv)\<rparr>)
          else (False, kv))"

definition drainReadRepairPipeline :: "KVServer \<Rightarrow> KVServer" where
  "drainReadRepairPipeline kv =
     (if pipelineDrained kv then kv
      else kv\<lparr>readRepairCoalesce := [], readRepairJobCh := [], pipelineDrained := True\<rparr>)"

text \<open>A worker takes the oldest job of the channel.\<close>

definition takeReadRepairJob :: "KVServer \<Rightarrow> readRepairJob option \<times> KVServer" where
  "takeReadRepairJob kv =
     (case readRepairJobCh kv of [] \<Rightarrow> (None, kv) | job # rest \<Rightarrow> (Some job, kv\<lparr>readRepairJobCh := rest\<rparr>))"

fun findEqual :: "Object \<Rightarrow> Object list \<Rightarrow> bool" where
  "findEqual sibling [] = False"
| "findEqual sibling (x # others) = (if IsEqualObj sibling x then True else findEqual sibling others)"

fun allFound :: "Object list \<Rightarrow> Object list \<Rightarrow> bool" where
  "allFound [] other = True"
| "allFound (sibling # rest) other = (if \<not> findEqual sibling other then False else allFound rest other)"

definition IsSameSiblings :: "Object list \<Rightarrow> Object list \<Rightarrow> bool" where
  "IsSameSiblings sibs other = (if length sibs \<noteq> length other then False else allFound sibs other)"

definition findStaleReplicas :: "Object list \<Rightarrow> ForwardGetResult list \<Rightarrow> string list" where
  "findStaleReplicas canonical results =
     fold (\<lambda>res stale.
       if \<not> fgOK res then stale
       else if getErr (fgReply res) \<noteq> OK then stale @ [fgServerID res]
       else if \<not> IsSameSiblings canonical (getObjects (fgReply res)) then stale @ [fgServerID res]
       else stale) results []"

definition repairReplicas :: "string \<Rightarrow> Object list \<Rightarrow> string list \<Rightarrow> (string \<times> RepairArgs) list" where
  "repairReplicas key canonical staleReplicas =
     map (\<lambda>staleReplica. (staleReplica, \<lparr>repKey = key, repObjects = canonical, repDelete = False\<rparr>)) staleReplicas"

text \<open>The objects a reply contributes to the merge.\<close>

definition replyObjects :: "ForwardGetResult \<Rightarrow> Object list" where
  "replyObjects res = (if fgOK res \<and> getErr (fgReply res) = OK then getObjects (fgReply res) else [])"

text \<open>\<open>finishCoordGetReadRepair\<close>: the repair messages it sends.\<close>

definition finishCoordGetReadRepair :: "string \<Rightarrow> Object list \<Rightarrow> ForwardGetResult list \<Rightarrow> ForwardGetResult list
    \<Rightarrow> (string \<times> RepairArgs) list" where
  "finishCoordGetReadRepair key canonical results late =
     (let (results, canonical) = fold (\<lambda>res (results, canonical).
            (results @ [res],
             if \<not> fgOK res then canonical
             else if getErr (fgReply res) = OK then mergeLoop canonical (getObjects (fgReply res))
             else canonical)) late (results, canonical)
      in if \<not> length canonical > 0 then []
         else let staleReplicas = findStaleReplicas canonical results
              in if length staleReplicas = 0 then [] else repairReplicas key canonical staleReplicas)"

definition runReadRepairJob :: "readRepairJob \<Rightarrow> (string \<times> RepairArgs) list" where
  "runReadRepairJob job =
     finishCoordGetReadRepair (jobKey job) (canonicalSiblings job) (jobResults job) (take (jobRemaining job) (jobCh job))"

subsection \<open>Coalescing\<close>

text \<open>At most one job per key waits, the queue is bounded, and a timer only flushes its own job.\<close>

definition pipeline_ok :: "KVServer \<Rightarrow> bool" where
  "pipeline_ok kv \<longleftrightarrow> gomap_ok (readRepairCoalesce kv) \<and> (\<forall>(k, job) \<in> set (readRepairCoalesce kv). jobKey job = k)
     \<and> length (readRepairJobCh kv) \<le> readRepairQueueCapacity"

lemma set_gm_del: "set (gm_del k m) \<subseteq> set m"
  by (auto simp: gm_del_def AList.delete_eq)

lemma pipeline_schedule: "pipeline_ok kv \<Longrightarrow> pipeline_ok (scheduleReadRepair job kv)"
  using set_gm_put[of "jobKey job" job] set_gm_del[of "jobKey job" "readRepairCoalesce kv"]
  by (fastforce simp: pipeline_ok_def scheduleReadRepair_def Let_def)

lemma pipeline_flush: "pipeline_ok kv \<Longrightarrow> pipeline_ok (snd (tryFlushReadRepairCoalesceKey key p kv))"
  using set_gm_del[of key "readRepairCoalesce kv"]
  by (auto simp: pipeline_ok_def tryFlushReadRepairCoalesceKey_def split: option.splits)

lemma pipeline_take: "pipeline_ok kv \<Longrightarrow> pipeline_ok (snd (takeReadRepairJob kv))"
  by (auto simp: pipeline_ok_def takeReadRepairJob_def split: list.splits)

lemma pipeline_drain: "pipeline_ok kv \<Longrightarrow> pipeline_ok (drainReadRepairPipeline kv)"
  by (simp add: pipeline_ok_def drainReadRepairPipeline_def)

lemma superseded_not_flushed:
  assumes "jobPtr job \<noteq> p"
  shows "tryFlushReadRepairCoalesceKey (jobKey job) p (scheduleReadRepair job kv) = (False, scheduleReadRepair job kv)"
  using assms by (simp add: tryFlushReadRepairCoalesceKey_def scheduleReadRepair_def Let_def)

lemma scheduled_flushed:
  assumes "length (readRepairJobCh kv) < readRepairQueueCapacity"
  shows "\<exists>kv'. tryFlushReadRepairCoalesceKey (jobKey job) (jobPtr job) (scheduleReadRepair job kv) = (True, kv')
     \<and> readRepairJobCh kv' = readRepairJobCh kv @ [job] \<and> map_of (readRepairCoalesce kv') (jobKey job) = None"
  using assms by (simp add: tryFlushReadRepairCoalesceKey_def scheduleReadRepair_def Let_def)

subsection \<open>Comparing siblings\<close>

lemma findEqual_iff: "findEqual s xs \<longleftrightarrow> (\<exists>x \<in> set xs. IsEqualObj s x)"
  by (induction xs) auto

lemma allFound_iff: "allFound ss xs \<longleftrightarrow> (\<forall>s \<in> set ss. \<exists>x \<in> set xs. IsEqualObj s x)"
  by (induction ss) (auto simp: findEqual_iff)

lemma IsEqualObj_ver: "IsEqualObj a b \<Longrightarrow> obj_ver a = obj_ver b"
  by (simp add: IsEqualObj_def IsEqualCtx_def ctx.cmp_iff obj_ver_def)

lemma IsSameSiblings_versions:
  assumes "siblings_ok ss" and "siblings_ok xs" and "IsSameSiblings ss xs"
  shows "versions ss = versions xs"
proof -
  have len: "length ss = length xs" and sub: "versions ss \<subseteq> versions xs"
    using assms(3) IsEqualObj_ver by (auto simp: IsSameSiblings_def allFound_iff versions_def image_iff split: if_splits) metis
  moreover have "card (versions ss) = length ss" "card (versions xs) = length xs"
    using assms(1,2) by (simp_all add: siblings_ok_def versions_def distinct_card flip: set_map)
  ultimately show ?thesis by (metis card_subset_eq finite_versions)
qed

lemma findStaleReplicas_eq:
  "findStaleReplicas canonical results = map fgServerID (filter (\<lambda>res. fgOK res \<and>
     (getErr (fgReply res) \<noteq> OK \<or> \<not> IsSameSiblings canonical (getObjects (fgReply res)))) results)"
proof -
  have "fold (\<lambda>res stale. if \<not> fgOK res then stale
       else if getErr (fgReply res) \<noteq> OK then stale @ [fgServerID res]
       else if \<not> IsSameSiblings canonical (getObjects (fgReply res)) then stale @ [fgServerID res]
       else stale) results acc = acc @ map fgServerID (filter (\<lambda>res. fgOK res \<and>
     (getErr (fgReply res) \<noteq> OK \<or> \<not> IsSameSiblings canonical (getObjects (fgReply res)))) results)" for acc
    by (induction results arbitrary: acc) auto
  then show ?thesis by (simp add: findStaleReplicas_def)
qed

lemma finish_merge:
  "fold (\<lambda>res (results, canonical). (results @ [res],
      if \<not> fgOK res then canonical
      else if getErr (fgReply res) = OK then mergeLoop canonical (getObjects (fgReply res)) else canonical))
     late (results, canonical) = (results @ late, mergeLoop canonical (concat (map replyObjects late)))"
  by (induction late arbitrary: results canonical) (auto simp: replyObjects_def mergeLoop_append)

lemma finish_eq:
  "finishCoordGetReadRepair key canonical results late =
     (let merged = mergeLoop canonical (concat (map replyObjects late))
      in if merged = [] then [] else repairReplicas key merged (findStaleReplicas merged (results @ late)))"
  by (simp add: finishCoordGetReadRepair_def finish_merge Let_def repairReplicas_def)

subsection \<open>Histories of the pipeline\<close>

datatype PipeOp = Schedule readRepairJob | TimerFires string nat | WorkerTakes | Shutdown

fun pipeStep :: "PipeOp \<Rightarrow> KVServer \<Rightarrow> KVServer" where
  "pipeStep (Schedule job) kv = scheduleReadRepair job kv"
| "pipeStep (TimerFires key expectJob) kv = snd (tryFlushReadRepairCoalesceKey key expectJob kv)"
| "pipeStep WorkerTakes kv = snd (takeReadRepairJob kv)"
| "pipeStep Shutdown kv = drainReadRepairPipeline kv"

lemma pipeStep_ok: "pipeline_ok kv \<Longrightarrow> pipeline_ok (pipeStep op kv)"
  by (cases op) (auto intro: pipeline_schedule pipeline_flush pipeline_take pipeline_drain)

lemma pipeline_history: "pipeline_ok kv \<Longrightarrow> pipeline_ok (fold pipeStep ops kv)"
  by (induction ops arbitrary: kv) (auto intro: pipeStep_ok)

lemma addMembers_pipeline [simp]:
  "readRepairCoalesce (fold (addMember now) es kv) = readRepairCoalesce kv"
  "readRepairJobCh (fold (addMember now) es kv) = readRepairJobCh kv"
  by (induction es arbitrary: kv) (simp_all add: addMember_def)

lemma pipeline_Make: "pipeline_ok (MakeKVServer i r wq rq es now)"
  by (simp add: pipeline_ok_def MakeKVServer_def Let_def addMember_def readRepairQueueCapacity_def)

definition sampleJob :: "nat \<Rightarrow> readRepairJob" where
  "sampleJob p = \<lparr>jobPtr = p, jobKey = ''k'', canonicalSiblings = [], jobResults = [], jobCh = [], jobRemaining = 0\<rparr>"

subsection \<open>Properties\<close>

text \<open>
  C38: in every history of scheduled jobs, fired timers, workers and the shutdown from a new
  server, at most one job per key waits, filed under its own key, and the queue holds at most
  its capacity. The newest job of a key replaces the waiting one: a timer of a superseded job
  does nothing, its own timer moves exactly that job to the end of the queue if there is room,
  and does nothing when the queue is full.
\<close>

theorem read_repair_coalesces:
  assumes "kv = fold pipeStep ops (MakeKVServer i r wq rq es now)"
    and "tryFlushReadRepairCoalesceKey (jobKey job) p (scheduleReadRepair job kv) = (flushed, kv')"
  shows "pipeline_ok kv' \<and> (flushed \<longleftrightarrow> p = jobPtr job \<and> length (readRepairJobCh kv) < readRepairQueueCapacity)
    \<and> readRepairJobCh kv' = readRepairJobCh kv @ (if flushed then [job] else [])
    \<and> map_of (readRepairCoalesce kv') = (map_of (readRepairCoalesce kv))(jobKey job := (if flushed then None else Some job))"
proof -
  have "pipeline_ok kv" unfolding assms(1) by (intro pipeline_history pipeline_Make)
  then have "pipeline_ok kv'" using pipeline_flush[OF pipeline_schedule] assms(2) by (metis snd_conv)
  then show ?thesis
    using assms(2)
    by (auto simp: tryFlushReadRepairCoalesceKey_def scheduleReadRepair_def Let_def fun_eq_iff split: if_splits)
qed

theorem read_repair_coalesces_witness:
  "\<exists>kv'. tryFlushReadRepairCoalesceKey ''k'' 2 (scheduleReadRepair (sampleJob 2) (fold pipeStep [Schedule (sampleJob 1)] (sampleServer ''a''))) = (True, kv')
     \<and> readRepairJobCh kv' = [sampleJob 2]"
proof -
  let ?kv = "fold pipeStep [Schedule (sampleJob 1)] (sampleServer ''a'')"
  obtain flushed kv' where f: "tryFlushReadRepairCoalesceKey (jobKey (sampleJob 2)) 2 (scheduleReadRepair (sampleJob 2) ?kv) = (flushed, kv')"
    by fastforce
  have "readRepairJobCh ?kv = []"
    by (simp add: scheduleReadRepair_def Let_def sampleServer_def MakeKVServer_def addMember_def)
  then show ?thesis
    using read_repair_coalesces[OF _ f, of "[Schedule (sampleJob 1)]" "''a''" sampleRing 1 1 "[''a'', ''b'']" 0] f
    by (auto simp: sampleServer_def sampleJob_def readRepairQueueCapacity_def)
qed

end
