(* ===== verification/Coordinator.thy ===== *)
theory Coordinator
  imports ReadRepair
begin

text \<open>
  The coordinator of \<^verbatim>\<open>kvsrv/server.go\<close>: \<open>CoordGet\<close> and \<open>CoordPut\<close>. Every forwarded call
  sends exactly one result to the channel, so what the coordinator sees is the list of
  results in the order of their arrival, one per replica it called; the clock readings
  around each call come with it. Results that arrive after the answer are the \<open>jobCh\<close> of
  the read-repair job.
\<close>

subsection \<open>Reads\<close>

text \<open>A reply to a forwarded get with the coordinator's clock readings around the call.\<close>

record GetArrival =
  gaResult :: ForwardGetResult
  gaSentAt :: Time
  gaReceivedAt :: Time

definition observeGet :: "GetArrival \<Rightarrow> KVServer \<Rightarrow> KVServer" where
  "observeGet a kv =
     (case collector kv of
        None \<Rightarrow> kv
      | Some c \<Rightarrow>
          if fgOK (gaResult a)
          then kv\<lparr>collector := Some (snd (ObserveReadLatency (NewMessageTrace (gaSentAt a)
                  (traceTime (getArrivedAt (fgReply (gaResult a))))
                  (traceTime (getRespondedAt (fgReply (gaResult a)))) (gaReceivedAt a)) c))\<rparr>
          else kv)"

definition repairOrDrain :: "nat \<Rightarrow> string \<Rightarrow> Object list \<Rightarrow> ForwardGetResult list \<Rightarrow> ForwardGetResult list \<Rightarrow> KVServer \<Rightarrow> KVServer" where
  "repairOrDrain ptr key canonical results late kv =
     (if readRepairEnabled kv
      then scheduleReadRepair \<lparr>jobPtr = ptr, jobKey = key, canonicalSiblings = canonical, jobResults = results,
                               jobCh = late, jobRemaining = length late\<rparr> kv
      else kv)"

text \<open>
  The receive loop: \<open>results\<close> has been received, \<open>arrivals\<close> are still to come. The job
  pointer and the time of the answer are arguments.
\<close>

fun coordGetLoop :: "nat \<Rightarrow> Time \<Rightarrow> Time \<Rightarrow> string \<Rightarrow> GetArrival list \<Rightarrow> int \<Rightarrow> int \<Rightarrow> Object list
    \<Rightarrow> ForwardGetResult list \<Rightarrow> KVServer \<Rightarrow> GetReply \<times> KVServer" where
  "coordGetLoop ptr startedAt now key [] successCount noKeyCount sibs results kv =
     (newGetReply\<lparr>getErr := ErrReadQuorumNotMet\<rparr>, kv)"
| "coordGetLoop ptr startedAt now key (a # arrivals) successCount noKeyCount sibs results kv =
     (let res = gaResult a;
          kv = observeGet a kv;
          results = results @ [res]
      in if \<not> fgOK res then coordGetLoop ptr startedAt now key arrivals successCount noKeyCount sibs results kv
         else if getErr (fgReply res) = OK then
           let successCount = successCount + 1;
               sibs = mergeLoop sibs (getObjects (fgReply res))
           in if successCount \<ge> readQuorum kv then
                let kv = repairOrDrain ptr key (CopyObjects sibs) results (map gaResult arrivals) kv;
                    kv = (case collector kv of
                            None \<Rightarrow> kv
                          | Some c \<Rightarrow> kv\<lparr>collector := Some (ObserveCompletedRead
                                        (NewCompletedRead key startedAt now (CopyObjects sibs)) c)\<rparr>)
                in (newGetReply\<lparr>getObjects := CopyObjects sibs, getErr := OK\<rparr>, kv)
              else coordGetLoop ptr startedAt now key arrivals successCount noKeyCount sibs results kv
         else if getErr (fgReply res) = ErrNoKey then
           let noKeyCount = noKeyCount + 1
           in if noKeyCount \<ge> readQuorum kv then
                (newGetReply\<lparr>getErr := ErrNoKey\<rparr>, repairOrDrain ptr key [] results (map gaResult arrivals) kv)
              else coordGetLoop ptr startedAt now key arrivals successCount noKeyCount sibs results kv
         else coordGetLoop ptr startedAt now key arrivals successCount noKeyCount sibs results kv)"

text \<open>The replicas \<open>CoordGet\<close> forwards to, or the error it answers at once.\<close>

definition getTargets :: "KVServer \<Rightarrow> string \<Rightarrow> (panic + (Err + string list)) option" where
  "getTargets kv key =
     (case isInPreferenceList kv key of
        None \<Rightarrow> None
      | Some (Inl e) \<Rightarrow> Some (Inl e)
      | Some (Inr False) \<Rightarrow> Some (Inr (Inl ErrNotCoordinator))
      | Some (Inr True) \<Rightarrow>
          map_option (map_sum id (\<lambda>pl. let prefList = filterDeadMembers kv pl in
             if int (length prefList) < readQuorum kv then Inl ErrReadQuorumNotMet else Inr prefList))
            (GetPreferenceList (ring kv) key))"

definition CoordGet :: "nat \<Rightarrow> Time \<Rightarrow> Time \<Rightarrow> (string list \<Rightarrow> GetArrival list) \<Rightarrow> KVServer \<Rightarrow> GetArgs
    \<Rightarrow> (panic + GetReply \<times> KVServer) option" where
  "CoordGet ptr startedAt now net kv args =
     map_option (map_sum id (\<lambda>t. case t of
        Inl e \<Rightarrow> (newGetReply\<lparr>getErr := e\<rparr>, kv)
      | Inr prefList \<Rightarrow> coordGetLoop ptr startedAt now (getKey args) (net prefList) 0 0 [] [] kv))
       (getTargets kv (getKey args))"

subsection \<open>Writes\<close>

record putPlan =
  targetServer :: string
  handoffServer :: string

text \<open>
  The plans: a dead replica is replaced by a handoff server that is in use for nothing else;
  an empty \<open>handoffServer\<close> means that none is needed.
\<close>

fun putPlans :: "KVServer \<Rightarrow> string list \<Rightarrow> string list \<Rightarrow> putPlan list" where
  "putPlans kv [] usedServers = []"
| "putPlans kv (serverID # rest) usedServers =
     (if isDead kv serverID then
        if \<not> hintedHandoffEnabled kv then putPlans kv rest usedServers
        else case chooseHandoffNode usedServers kv of
               Some h \<Rightarrow> \<lparr>targetServer = serverID, handoffServer = h\<rparr> # putPlans kv rest (gs_add h usedServers)
             | None \<Rightarrow> putPlans kv rest usedServers
      else \<lparr>targetServer = serverID, handoffServer = ''''\<rparr> # putPlans kv rest usedServers)"

record PutArrival =
  paResult :: ForwardPutResult
  paHinted :: bool
  paReply :: PutReply
  paSentAt :: Time
  paReceivedAt :: Time

definition observePut :: "PutArrival \<Rightarrow> KVServer \<Rightarrow> KVServer" where
  "observePut a kv =
     (case collector kv of
        None \<Rightarrow> kv
      | Some c \<Rightarrow>
          if fpOK (paResult a) \<and> \<not> paHinted a
          then kv\<lparr>collector := Some (snd (ObserveWriteLatency (NewMessageTrace (paSentAt a)
                  (traceTime (putArrivedAt (paReply a))) (traceTime (putRespondedAt (paReply a))) (paReceivedAt a)) c))\<rparr>
          else kv)"

definition putVerdict :: "int \<Rightarrow> int \<Rightarrow> int \<Rightarrow> Err" where
  "putVerdict wq versionErrCount noKeyCount =
     (if versionErrCount \<ge> wq then ErrVersion else if noKeyCount \<ge> wq then ErrNoKey else ErrWriteQuorumNotMet)"

fun coordPutLoop :: "Time \<Rightarrow> Time \<Rightarrow> PutArgs \<Rightarrow> PutArrival list \<Rightarrow> int \<Rightarrow> int \<Rightarrow> int \<Rightarrow> KVServer \<Rightarrow> PutReply \<times> KVServer" where
  "coordPutLoop startedAt now args [] successCount versionErrCount noKeyCount kv =
     (newPutReply\<lparr>putErr := putVerdict (writeQuorum kv) versionErrCount noKeyCount\<rparr>, kv)"
| "coordPutLoop startedAt now args (a # arrivals) successCount versionErrCount noKeyCount kv =
     (let res = paResult a;
          kv = observePut a kv
      in if \<not> fpOK res then coordPutLoop startedAt now args arrivals successCount versionErrCount noKeyCount kv
         else if fpErr res = OK then
           if successCount + 1 \<ge> writeQuorum kv then
             (newPutReply\<lparr>putErr := OK\<rparr>,
              case collector kv of
                None \<Rightarrow> kv
              | Some c \<Rightarrow> kv\<lparr>collector := Some (ObserveCompletedWrite
                            (NewCompletedWrite (putKey args) startedAt now (putObject args)) c)\<rparr>)
           else coordPutLoop startedAt now args arrivals (successCount + 1) versionErrCount noKeyCount kv
         else if fpErr res = ErrVersion
         then coordPutLoop startedAt now args arrivals successCount (versionErrCount + 1) noKeyCount kv
         else if fpErr res = ErrNoKey
         then coordPutLoop startedAt now args arrivals successCount versionErrCount (noKeyCount + 1) kv
         else coordPutLoop startedAt now args arrivals successCount versionErrCount noKeyCount kv)"

text \<open>The update of the context that the coordinator makes before it forwards the put.\<close>

definition stampPut :: "u64 \<Rightarrow> KVServer \<Rightarrow> PutArgs \<Rightarrow> PutArgs" where
  "stampPut ts kv args =
     args\<lparr>putObject := (putObject args)\<lparr>Ctx :=
        UpdateCtx ts (srvID kv) (Value (putObject args)) (Ctx (putObject args))\<rparr>\<rparr>"

definition CoordPut :: "u64 \<Rightarrow> Time \<Rightarrow> Time \<Rightarrow> (PutArgs \<Rightarrow> putPlan list \<Rightarrow> PutArrival list) \<Rightarrow> KVServer \<Rightarrow> PutArgs
    \<Rightarrow> (panic + PutArgs \<times> PutReply \<times> KVServer) option" where
  "CoordPut ts startedAt now net kv args =
     (case isInPreferenceList kv (putKey args) of
        None \<Rightarrow> None
      | Some (Inl e) \<Rightarrow> Some (Inl e)
      | Some (Inr False) \<Rightarrow> Some (Inr (args, newPutReply\<lparr>putErr := ErrNotCoordinator\<rparr>, kv))
      | Some (Inr True) \<Rightarrow>
          let args = stampPut ts kv args in
          map_option (map_sum id (\<lambda>prefList.
             let plans = putPlans kv prefList prefList in
             if int (length plans) < writeQuorum kv
             then (args, newPutReply\<lparr>putErr := ErrWriteQuorumNotMet\<rparr>, kv)
             else (args, coordPutLoop startedAt now args (net (CopyPutArgs args) plans) 0 0 0 kv)))
            (GetPreferenceList (ring kv) (putKey args)))"

subsection \<open>The outcome of a read\<close>

definition okGet :: "ForwardGetResult \<Rightarrow> bool" where
  "okGet res \<longleftrightarrow> fgOK res \<and> getErr (fgReply res) = OK"

definition noKeyGet :: "ForwardGetResult \<Rightarrow> bool" where
  "noKeyGet res \<longleftrightarrow> fgOK res \<and> getErr (fgReply res) = ErrNoKey"

definition countGet :: "(ForwardGetResult \<Rightarrow> bool) \<Rightarrow> GetArrival list \<Rightarrow> int" where
  "countGet P as = int (length (filter (\<lambda>a. P (gaResult a)) as))"

definition collected :: "GetArrival list \<Rightarrow> Object list" where
  "collected as = concat (map (replyObjects \<circ> gaResult) as)"

lemma countGet_simps [simp]:
  "countGet P [] = 0" "countGet P (a # as) = (if P (gaResult a) then 1 else 0) + countGet P as"
  by (simp_all add: countGet_def)

lemma collected_simps [simp]:
  "collected [] = []" "collected (a # as) = replyObjects (gaResult a) @ collected as"
  by (simp_all add: collected_def)

lemma countGet_nonneg [simp]: "0 \<le> countGet P as"
  by (simp add: countGet_def)

lemma observeGet_frame [simp]:
  "readQuorum (observeGet a kv) = readQuorum kv" "kvmap (observeGet a kv) = kvmap kv"
  "readRepairEnabled (observeGet a kv) = readRepairEnabled kv"
  by (simp_all add: observeGet_def split: option.splits)

text \<open>One step of the loop, by the kind of the result.\<close>

lemma coordGetLoop_skip:
  "\<not> okGet (gaResult a) \<Longrightarrow> \<not> noKeyGet (gaResult a) \<Longrightarrow>
   coordGetLoop ptr t0 t key (a # as) s n sibs results kv =
   coordGetLoop ptr t0 t key as s n sibs (results @ [gaResult a]) (observeGet a kv)"
  by (auto simp: okGet_def noKeyGet_def Let_def)

lemma coordGetLoop_ok:
  "okGet (gaResult a) \<Longrightarrow> s + 1 < readQuorum kv \<Longrightarrow>
   coordGetLoop ptr t0 t key (a # as) s n sibs results kv =
   coordGetLoop ptr t0 t key as (s + 1) n (mergeLoop sibs (replyObjects (gaResult a))) (results @ [gaResult a]) (observeGet a kv)"
  by (simp add: okGet_def replyObjects_def Let_def)

lemma coordGetLoop_done:
  "okGet (gaResult a) \<Longrightarrow> readQuorum kv \<le> s + 1 \<Longrightarrow>
   fst (coordGetLoop ptr t0 t key (a # as) s n sibs results kv) =
   newGetReply\<lparr>getObjects := CopyObjects (mergeLoop sibs (replyObjects (gaResult a))), getErr := OK\<rparr>"
  by (simp add: okGet_def replyObjects_def Let_def)

lemma coordGetLoop_noKey:
  "noKeyGet (gaResult a) \<Longrightarrow> n + 1 < readQuorum kv \<Longrightarrow>
   coordGetLoop ptr t0 t key (a # as) s n sibs results kv =
   coordGetLoop ptr t0 t key as s (n + 1) sibs (results @ [gaResult a]) (observeGet a kv)"
  by (simp add: noKeyGet_def Let_def)

lemma coordGetLoop_absent:
  "noKeyGet (gaResult a) \<Longrightarrow> readQuorum kv \<le> n + 1 \<Longrightarrow>
   coordGetLoop ptr t0 t key (a # as) s n sibs results kv =
   (newGetReply\<lparr>getErr := ErrNoKey\<rparr>,
    repairOrDrain ptr key [] (results @ [gaResult a]) (map gaResult as) (observeGet a kv))"
  by (simp add: noKeyGet_def Let_def)

lemmas coordGetLoop_steps = coordGetLoop_skip coordGetLoop_ok coordGetLoop_done coordGetLoop_noKey coordGetLoop_absent

lemma get_kinds:
  obtains "okGet (gaResult a)" "\<not> noKeyGet (gaResult a)" | "noKeyGet (gaResult a)" "\<not> okGet (gaResult a)"
    | "\<not> okGet (gaResult a)" "\<not> noKeyGet (gaResult a)"
  by (cases "okGet (gaResult a)") (auto simp: okGet_def noKeyGet_def)

text \<open>
  The loop stops at the first prefix with a quorum of answers of one kind; the objects of
  the answer are those of the prefix, merged.
\<close>

definition readOutcome :: "int \<Rightarrow> GetArrival list \<Rightarrow> int \<Rightarrow> int \<Rightarrow> Object list \<Rightarrow> GetReply \<Rightarrow> bool" where
  "readOutcome R as s n sibs reply \<longleftrightarrow>
     (\<exists>pre post. as = pre @ post \<and> s + countGet okGet pre \<le> R \<and> n + countGet noKeyGet pre \<le> R \<and>
        (case getErr reply of
           OK \<Rightarrow> s + countGet okGet pre = R \<and> getObjects reply = CopyObjects (mergeLoop sibs (collected pre))
         | ErrNoKey \<Rightarrow> n + countGet noKeyGet pre = R \<and> getObjects reply = []
         | ErrReadQuorumNotMet \<Rightarrow> post = [] \<and> s + countGet okGet pre < R \<and> n + countGet noKeyGet pre < R
         | _ \<Rightarrow> False))"

lemma readOutcome_Cons:
  assumes "readOutcome R as s' n' sibs' reply"
    and "s' = s + (if okGet (gaResult a) then 1 else 0)" and "n' = n + (if noKeyGet (gaResult a) then 1 else 0)"
    and "sibs' = mergeLoop sibs (replyObjects (gaResult a))"
  shows "readOutcome R (a # as) s n sibs reply"
proof -
  obtain pre post where "as = pre @ post" and o: "s' + countGet okGet pre \<le> R" "n' + countGet noKeyGet pre \<le> R"
      "case getErr reply of
           OK \<Rightarrow> s' + countGet okGet pre = R \<and> getObjects reply = CopyObjects (mergeLoop sibs' (collected pre))
         | ErrNoKey \<Rightarrow> n' + countGet noKeyGet pre = R \<and> getObjects reply = []
         | ErrReadQuorumNotMet \<Rightarrow> post = [] \<and> s' + countGet okGet pre < R \<and> n' + countGet noKeyGet pre < R
         | _ \<Rightarrow> False"
    using assms(1) unfolding readOutcome_def by blast
  then show ?thesis
    unfolding readOutcome_def using assms(2-)
    by (intro exI[of _ "a # pre"] exI[of _ post]) (auto simp: mergeLoop_append add_ac split: Err.splits)
qed

lemma coordGetLoop_outcome:
  "s < readQuorum kv \<Longrightarrow> n < readQuorum kv \<Longrightarrow>
   readOutcome (readQuorum kv) as s n sibs (fst (coordGetLoop ptr t0 t key as s n sibs results kv))"
proof (induction as arbitrary: s n sibs results kv)
  case Nil
  then show ?case by (simp add: readOutcome_def newGetReply_def)
next
  case (Cons a as)
  have nil: "\<not> okGet (gaResult a) \<Longrightarrow> replyObjects (gaResult a) = []" by (auto simp: okGet_def replyObjects_def)
  note ih = Cons.IH[where kv = "observeGet a kv", unfolded observeGet_frame]
  show ?case
  proof (cases a rule: get_kinds)
    case 1
    show ?thesis
    proof (cases "s + 1 < readQuorum kv")
      case True
      then have "readOutcome (readQuorum kv) as (s + 1) n (mergeLoop sibs (replyObjects (gaResult a)))
          (fst (coordGetLoop ptr t0 t key (a # as) s n sibs results kv))"
        using ih Cons.prems 1 by (simp add: coordGetLoop_ok del: coordGetLoop.simps)
      then show ?thesis using 1 by (rule_tac readOutcome_Cons) simp_all
    next
      case False
      then show ?thesis
        using Cons.prems 1 unfolding readOutcome_def
        by (intro exI[of _ "[a]"] exI[of _ as]) (simp add: coordGetLoop_done newGetReply_def del: coordGetLoop.simps)
    qed
  next
    case 2
    show ?thesis
    proof (cases "n + 1 < readQuorum kv")
      case True
      then have "readOutcome (readQuorum kv) as s (n + 1) sibs (fst (coordGetLoop ptr t0 t key (a # as) s n sibs results kv))"
        using ih Cons.prems 2 by (simp add: coordGetLoop_noKey del: coordGetLoop.simps)
      then show ?thesis using 2 nil by (rule_tac readOutcome_Cons) simp_all
    next
      case False
      then show ?thesis
        using Cons.prems 2 unfolding readOutcome_def
        by (intro exI[of _ "[a]"] exI[of _ as]) (simp add: coordGetLoop_absent newGetReply_def del: coordGetLoop.simps)
    qed
  next
    case 3
    then have "readOutcome (readQuorum kv) as s n sibs (fst (coordGetLoop ptr t0 t key (a # as) s n sibs results kv))"
      using ih Cons.prems by (simp add: coordGetLoop_skip del: coordGetLoop.simps)
    then show ?thesis using 3 nil by (rule_tac readOutcome_Cons) simp_all
  qed
qed

lemma countGet_append [simp]: "countGet P (xs @ ys) = countGet P xs + countGet P ys"
  by (simp add: countGet_def)

text \<open>The replies of replicas hold well-formed objects.\<close>

definition arrivals_ok :: "GetArrival list \<Rightarrow> bool" where
  "arrivals_ok as \<longleftrightarrow> (\<forall>a \<in> set as. objs_ok (replyObjects (gaResult a)))"

lemma collected_ok: "arrivals_ok (pre @ post) \<Longrightarrow> objs_ok (collected pre)"
  by (auto simp: arrivals_ok_def collected_def objs_ok_def)

lemma read_versions:
  assumes "objs_ok objs" shows "versions (CopyObjects (mergeLoop [] objs)) = maxima (versions objs)"
proof -
  have "siblings_ok (mergeLoop [] objs)" using assms by (intro siblings_ok_mergeLoop) simp_all
  then have "CopyObjects (mergeLoop [] objs) = mergeLoop [] objs" by auto
  then show ?thesis using mergeLoop_maxima[of "[]" objs] by simp
qed

lemma read_ok:
  assumes "0 < readQuorum kv" and "arrivals_ok as"
    and "getErr (fst (coordGetLoop ptr t0 t key as 0 0 [] [] kv)) = OK"
  shows "\<exists>pre post. as = pre @ post \<and> countGet okGet pre = readQuorum kv
    \<and> versions (getObjects (fst (coordGetLoop ptr t0 t key as 0 0 [] [] kv))) = maxima (versions (collected pre))"
proof -
  obtain pre post where as: "as = pre @ post" "countGet okGet pre = readQuorum kv"
      "getObjects (fst (coordGetLoop ptr t0 t key as 0 0 [] [] kv)) = CopyObjects (mergeLoop [] (collected pre))"
    using coordGetLoop_outcome[OF assms(1,1), of as "[]" ptr t0 t key "[]"]
    unfolding readOutcome_def assms(3) by (auto simp del: coordGetLoop.simps)
  moreover have "objs_ok (collected pre)" using collected_ok assms(2) as(1) by blast
  ultimately show ?thesis using read_versions by metis
qed

lemma read_enough:
  assumes "0 < readQuorum kv" and "readQuorum kv \<le> countGet okGet as" and "countGet noKeyGet as < readQuorum kv"
  shows "getErr (fst (coordGetLoop ptr t0 t key as 0 0 [] [] kv)) = OK"
proof -
  let ?r = "fst (coordGetLoop ptr t0 t key as 0 0 [] [] kv)"
  obtain pre post where as: "as = pre @ post" and o: "case getErr ?r of
           OK \<Rightarrow> 0 + countGet okGet pre = readQuorum kv \<and> getObjects ?r = CopyObjects (mergeLoop [] (collected pre))
         | ErrNoKey \<Rightarrow> 0 + countGet noKeyGet pre = readQuorum kv \<and> getObjects ?r = []
         | ErrReadQuorumNotMet \<Rightarrow> post = [] \<and> 0 + countGet okGet pre < readQuorum kv \<and> 0 + countGet noKeyGet pre < readQuorum kv
         | _ \<Rightarrow> False"
    using coordGetLoop_outcome[OF assms(1,1), of as "[]" ptr t0 t key "[]"] unfolding readOutcome_def by blast
  have "countGet noKeyGet pre \<noteq> readQuorum kv"
    using assms(3) as countGet_nonneg[of noKeyGet post] by (simp del: countGet_nonneg)
  moreover have "\<not> (post = [] \<and> countGet okGet pre < readQuorum kv)" using assms(2) as by auto
  ultimately show ?thesis using o by (auto split: Err.splits)
qed

subsection \<open>The outcome of a write\<close>

definition countPut :: "Err \<Rightarrow> PutArrival list \<Rightarrow> int" where
  "countPut e as = int (length (filter (\<lambda>a. fpOK (paResult a) \<and> fpErr (paResult a) = e) as))"

lemma countPut_simps [simp]:
  "countPut e [] = 0"
  "countPut e (a # as) = (if fpOK (paResult a) \<and> fpErr (paResult a) = e then 1 else 0) + countPut e as"
  by (simp_all add: countPut_def)

lemma countPut_nonneg [simp]: "0 \<le> countPut e as"
  by (simp add: countPut_def)

lemma observePut_frame [simp]: "writeQuorum (observePut a kv) = writeQuorum kv" "kvmap (observePut a kv) = kvmap kv"
  by (simp_all add: observePut_def split: option.splits)

lemma coordPutLoop_outcome:
  "s < writeQuorum kv \<Longrightarrow>
   putErr (fst (coordPutLoop t0 t args as s v n kv)) =
     (if writeQuorum kv \<le> s + countPut OK as then OK
      else putVerdict (writeQuorum kv) (v + countPut ErrVersion as) (n + countPut ErrNoKey as))"
proof (induction as arbitrary: s v n kv)
  case (Cons a as)
  note ih = Cons.IH[where kv = "observePut a kv", unfolded observePut_frame]
  consider "fpOK (paResult a)" "fpErr (paResult a) = OK" | "fpOK (paResult a)" "fpErr (paResult a) = ErrVersion"
    | "fpOK (paResult a)" "fpErr (paResult a) = ErrNoKey"
    | "\<not> (fpOK (paResult a) \<and> fpErr (paResult a) \<in> {OK, ErrVersion, ErrNoKey})" by blast
  then show ?case
  proof cases
    case 1
    have "writeQuorum kv \<le> s + 1 \<Longrightarrow> writeQuorum kv \<le> s + countPut OK (a # as)"
      using 1 countPut_nonneg[of OK as] by (simp del: countPut_nonneg)
    then show ?thesis using 1 ih Cons.prems
      by (cases "writeQuorum kv \<le> s + 1") (simp_all add: Let_def newPutReply_def add_ac)
  next
    case 2
    then show ?thesis using ih Cons.prems by (simp add: Let_def add_ac)
  next
    case 3
    then show ?thesis using ih Cons.prems by (simp add: Let_def add_ac)
  next
    case 4
    then show ?thesis using ih Cons.prems by (auto simp: Let_def)
  qed
qed (simp add: newPutReply_def)

subsection \<open>Plans\<close>

definition recipient :: "putPlan \<Rightarrow> string" where
  "recipient p = (if handoffServer p \<noteq> '''' then handoffServer p else targetServer p)"

definition plan_ok :: "KVServer \<Rightarrow> string list \<Rightarrow> putPlan \<Rightarrow> bool" where
  "plan_ok kv pref p \<longleftrightarrow> targetServer p \<in> set pref \<and>
     (if handoffServer p = '''' then \<not> isDead kv (targetServer p)
      else isDead kv (targetServer p) \<and> handoffServer p \<notin> set pref \<and> \<not> isDead kv (handoffServer p)
           \<and> handoffServer p \<in> fst ` set (members kv))"

lemma choose_props:
  assumes "gomap_ok (members kv)" and "chooseHandoffNode used kv = Some h"
  shows "h \<notin> set used" "\<not> isDead kv h" "h \<in> fst ` set (members kv)"
proof -
  have "handoff_candidate used kv h"
    using assms by (rule chooseHandoffNode_candidate)
  then show "h \<notin> set used" "\<not> isDead kv h" "h \<in> fst ` set (members kv)"
    by (auto simp: handoff_candidate_def isDead_def dest: map_of_SomeD intro: rev_image_eqI)
qed

definition plans_ok :: "KVServer \<Rightarrow> string list \<Rightarrow> string list \<Rightarrow> string list \<Rightarrow> putPlan list \<Rightarrow> bool" where
  "plans_ok kv pref ids used ps \<longleftrightarrow> distinct (map recipient ps) \<and> distinct (map targetServer ps)
    \<and> (\<forall>p \<in> set ps. plan_ok kv pref p \<and> targetServer p \<in> set ids
         \<and> (recipient p \<in> set ids \<or> recipient p \<notin> set used))"

lemma plans_ok_more: "plans_ok kv pref ids used ps \<Longrightarrow> plans_ok kv pref (i # ids) used ps"
  by (auto simp: plans_ok_def)

lemma plans_ok_direct:
  "plans_ok kv pref ids used ps \<Longrightarrow> \<not> isDead kv i \<Longrightarrow> i \<in> set pref \<Longrightarrow> i \<in> set used \<Longrightarrow> i \<notin> set ids \<Longrightarrow>
   plans_ok kv pref (i # ids) used (\<lparr>targetServer = i, handoffServer = ''''\<rparr> # ps)"
  by (auto simp: plans_ok_def plan_ok_def recipient_def)

lemma plans_ok_handoff:
  assumes ps: "plans_ok kv pref ids (gs_add h used) ps" and "isDead kv i" "i \<in> set pref" "i \<notin> set ids"
    and h: "h \<notin> set used" "\<not> isDead kv h" "h \<in> fst ` set (members kv)" "h \<noteq> ''''"
    and sub: "set pref \<subseteq> set used" "set ids \<subseteq> set used"
  shows "plans_ok kv pref (i # ids) used (\<lparr>targetServer = i, handoffServer = h\<rparr> # ps)"
proof -
  have "h \<notin> recipient ` set ps" using ps h(1) sub(2) by (fastforce simp: plans_ok_def)
  moreover have "recipient \<lparr>targetServer = i, handoffServer = h\<rparr> = h" using h(4) by (simp add: recipient_def)
  ultimately show ?thesis
    using assms by (auto simp: plans_ok_def plan_ok_def[of kv pref "\<lparr>targetServer = i, handoffServer = h\<rparr>"])
qed

lemma putPlans_props:
  "gomap_ok (members kv) \<Longrightarrow> '''' \<notin> fst ` set (members kv) \<Longrightarrow> distinct ids \<Longrightarrow> set ids \<subseteq> set used \<Longrightarrow>
   set pref \<subseteq> set used \<Longrightarrow> set ids \<subseteq> set pref \<Longrightarrow> plans_ok kv pref ids used (putPlans kv ids used)"
proof (induction kv ids used rule: putPlans.induct)
  case (2 kv i ids used)
  have i: "i \<in> set pref" "i \<in> set used" "i \<notin> set ids" "set ids \<subseteq> set used" "set ids \<subseteq> set pref" "distinct ids"
    using 2(7,8,10) by auto
  consider "\<not> isDead kv i" | "isDead kv i" "\<not> hintedHandoffEnabled kv"
    | "isDead kv i" "hintedHandoffEnabled kv" "chooseHandoffNode used kv = None"
    | h where "isDead kv i" "hintedHandoffEnabled kv" "chooseHandoffNode used kv = Some h" by blast
  then show ?case
  proof cases
    case 1
    then show ?thesis using plans_ok_direct[OF 2(4)[OF 1 2(5,6) i(6,4) 2(9) i(5)] 1 i(1-3)] by simp
  next
    case c: 2
    then show ?thesis using plans_ok_more[OF 2(1)[OF c 2(5,6) i(6,4) 2(9) i(5)]] by simp
  next
    case c: 3
    then show ?thesis using plans_ok_more[OF 2(2)[OF c(1) _ c(3) 2(5,6) i(6,4) 2(9) i(5)]] by simp
  next
    case c: 4
    have h: "h \<notin> set used" "\<not> isDead kv h" "h \<in> fst ` set (members kv)" "h \<noteq> []"
      using choose_props[OF 2(5) c(3)] 2(6) by metis+
    have "plans_ok kv pref ids (gs_add h used) (putPlans kv ids (gs_add h used))"
      using 2(3)[OF c(1) _ c(3) 2(5,6) i(6) _ _ i(5)] c(2) i(4) 2(9) by auto
    then show ?thesis using plans_ok_handoff[OF _ c(1) i(1,3) h 2(9) i(4)] c by simp
  qed
qed (simp add: plans_ok_def)

subsection \<open>The whole handlers\<close>

lemma isInPreferenceList_ready:
  "ready_ring (ring kv) \<Longrightarrow> isInPreferenceList kv key = Some (Inr (srvID kv \<in> set (preferenceOf (ring kv) key)))"
  by (simp add: isInPreferenceList_def GetPreferenceList_ready)

lemma getTargets_ready:
  "ready_ring (ring kv) \<Longrightarrow> getTargets kv key = Some (Inr
     (if srvID kv \<notin> set (preferenceOf (ring kv) key) then Inl ErrNotCoordinator
      else let prefList = filterDeadMembers kv (preferenceOf (ring kv) key)
           in if int (length prefList) < readQuorum kv then Inl ErrReadQuorumNotMet else Inr prefList))"
  by (simp add: getTargets_def isInPreferenceList_ready GetPreferenceList_ready)

lemma repairOrDrain_frame [simp]: "kvmap (repairOrDrain ptr key can results late kv) = kvmap kv"
  by (simp add: repairOrDrain_def scheduleReadRepair_def)

lemma coordGetLoop_kvmap: "kvmap (snd (coordGetLoop ptr t0 t key as s n sibs results kv)) = kvmap kv"
proof (induction as arbitrary: s n sibs results kv)
  case (Cons a as)
  note ih = Cons.IH[where kv = "observeGet a kv", unfolded observeGet_frame]
  show ?case using ih by (auto simp: Let_def split: option.splits)
qed simp

lemma coordPutLoop_kvmap: "kvmap (snd (coordPutLoop t0 t args as s v n kv)) = kvmap kv"
proof (induction as arbitrary: s v n kv)
  case (Cons a as)
  note ih = Cons.IH[where kv = "observePut a kv", unfolded observePut_frame]
  show ?case using ih by (auto simp: Let_def split: option.splits)
qed simp

subsection \<open>Properties\<close>

text \<open>
  C7: \<open>CoordGet\<close> on a usable ring always answers and changes no stored object. Outside the
  preference list it answers \<open>ErrNotCoordinator\<close>, with too few live replicas
  \<open>ErrReadQuorumNotMet\<close>; otherwise it asks the live replicas and answers at the first point
  where a quorum of them returned objects (their merge) or a quorum reported the key missing
  (\<open>ErrNoKey\<close>), and \<open>ErrReadQuorumNotMet\<close> when all results arrived without either.
\<close>

theorem CoordGet_outcome:
  assumes "ready_ring (ring kv)" and "0 < readQuorum kv"
  shows "\<exists>reply kv'. CoordGet ptr t0 t net kv args = Some (Inr (reply, kv')) \<and> kvmap kv' = kvmap kv
    \<and> (let live = filterDeadMembers kv (preferenceOf (ring kv) (getKey args)) in
       if srvID kv \<notin> set (preferenceOf (ring kv) (getKey args)) then getErr reply = ErrNotCoordinator \<and> kv' = kv
       else if int (length live) < readQuorum kv then getErr reply = ErrReadQuorumNotMet \<and> kv' = kv
       else readOutcome (readQuorum kv) (net live) 0 0 [] reply)"
proof -
  let ?live = "filterDeadMembers kv (preferenceOf (ring kv) (getKey args))"
  let ?run = "coordGetLoop ptr t0 t (getKey args) (net ?live) 0 0 [] [] kv"
  have "readOutcome (readQuorum kv) (net ?live) 0 0 [] (fst ?run)" using coordGetLoop_outcome[OF assms(2,2)] .
  moreover have "kvmap (snd ?run) = kvmap kv" by (rule coordGetLoop_kvmap)
  ultimately show ?thesis
    using getTargets_ready[OF assms(1), of "getKey args"]
    by (cases ?run) (auto simp: CoordGet_def Let_def newGetReply_def simp del: coordGetLoop.simps)
qed

definition sampleArrival :: "string \<Rightarrow> Err \<Rightarrow> Object list \<Rightarrow> GetArrival" where
  "sampleArrival s e objs = \<lparr>gaResult = \<lparr>fgServerID = s, fgOK = True,
     fgReply = \<lparr>getObjects = objs, getErr = e, getArrivedAt = 0, getRespondedAt = 0\<rparr>\<rparr>, gaSentAt = 0, gaReceivedAt = 1\<rparr>"

lemma sampleServer_prefs [simp]:
  "ring (sampleServer i) = sampleRing" "srvID (sampleServer i) = i" "readQuorum (sampleServer i) = 1" "writeQuorum (sampleServer i) = 1"
  "preferenceOf sampleRing k = [''a'', ''b'']"
proof -
  show "ring (sampleServer i) = sampleRing" "srvID (sampleServer i) = i" by (simp_all add: sampleServer_def)
  show "readQuorum (sampleServer i) = 1" "writeQuorum (sampleServer i) = 1"
    by (simp_all add: sampleServer_def MakeKVServer_def Let_def addMember_def)
  show "preferenceOf sampleRing k = [''a'', ''b'']"
    by (simp add: preferenceOf_def ringWalk_def) (simp add: sampleRing_def gs_add_def upt_rec GetNodeID_def)
qed

lemma sampleServer_members: "members (sampleServer ''a'') = members sampleMembers"
  by (simp add: sampleMembers_def)

theorem CoordGet_outcome_witness:
  "\<exists>reply kv'. CoordGet 1 5 6 (\<lambda>live. map (\<lambda>s. sampleArrival s ErrNoKey []) live) (sampleServer ''a'') \<lparr>getKey = ''k''\<rparr> = Some (Inr (reply, kv'))
     \<and> getErr reply = ErrNoKey"
proof -
  have live: "filterDeadMembers (sampleServer ''a'') [''a'', ''b''] = [''a'', ''b'']"
    by (simp add: filterDeadMembers_def sampleServer_members sampleMembers_table)
  let ?as = "map (\<lambda>s. sampleArrival s ErrNoKey []) [''a'', ''b'']"
  have none: "countGet okGet pre = 0" if "?as = pre @ post" for pre post
  proof -
    have "set pre \<subseteq> set ?as" using that by (metis Un_upper1 set_append)
    then show ?thesis by (auto simp: countGet_def filter_empty_conv sampleArrival_def okGet_def)
  qed
  have "countGet noKeyGet ?as = 2" by (simp add: noKeyGet_def sampleArrival_def)
  then have "getErr reply = ErrNoKey" if "readOutcome 1 ?as 0 0 [] reply" for reply
    using that none unfolding readOutcome_def by (fastforce split: Err.splits)
  then show ?thesis
    using CoordGet_outcome[of "sampleServer ''a''" 1 5 6 "\<lambda>live. map (\<lambda>s. sampleArrival s ErrNoKey []) live" "\<lparr>getKey = ''k''\<rparr>"]
    by (auto simp: sampleRing_ready live Let_def)
qed

text \<open>
  C8: \<open>CoordPut\<close> on a usable ring always answers and changes no stored object of the
  coordinator itself. Outside the preference list it answers \<open>ErrNotCoordinator\<close>; otherwise it
  stamps the object and, with too few recipients, answers \<open>ErrWriteQuorumNotMet\<close> without
  sending. The answer to a put that was sent depends only on the counts of replies: \<open>OK\<close> with
  a write quorum of acknowledgements, else \<open>ErrVersion\<close> or \<open>ErrNoKey\<close> with a quorum of those
  (in this order), else \<open>ErrWriteQuorumNotMet\<close>.
\<close>

theorem CoordPut_outcome:
  assumes "ready_ring (ring kv)" and "0 < writeQuorum kv"
  shows "\<exists>args' reply kv'. CoordPut ts t0 t net kv args = Some (Inr (args', reply, kv')) \<and> kvmap kv' = kvmap kv
    \<and> (let pref = preferenceOf (ring kv) (putKey args); plans = putPlans kv pref pref; as = net (CopyPutArgs args') plans in
       if srvID kv \<notin> set pref then putErr reply = ErrNotCoordinator \<and> kv' = kv \<and> args' = args
       else args' = stampPut ts kv args \<and>
         putErr reply = (if int (length plans) < writeQuorum kv then ErrWriteQuorumNotMet
           else if writeQuorum kv \<le> countPut OK as then OK
           else if writeQuorum kv \<le> countPut ErrVersion as then ErrVersion
           else if writeQuorum kv \<le> countPut ErrNoKey as then ErrNoKey else ErrWriteQuorumNotMet))"
proof -
  let ?pref = "preferenceOf (ring kv) (putKey args)"
  let ?plans = "putPlans kv ?pref ?pref" and ?args = "stampPut ts kv args"
  let ?run = "coordPutLoop t0 t ?args (net (CopyPutArgs ?args) ?plans) 0 0 0 kv"
  have out: "putErr (fst ?run) = (if writeQuorum kv \<le> 0 + countPut OK (net (CopyPutArgs ?args) ?plans) then OK
      else putVerdict (writeQuorum kv) (0 + countPut ErrVersion (net (CopyPutArgs ?args) ?plans))
             (0 + countPut ErrNoKey (net (CopyPutArgs ?args) ?plans)))"
    using coordPutLoop_outcome[OF assms(2)] .
  have key: "putKey ?args = putKey args" by (simp add: stampPut_def)
  note pl = isInPreferenceList_ready[OF assms(1), of "putKey args"] GetPreferenceList_ready[OF assms(1), of "putKey args"]
  consider "srvID kv \<notin> set ?pref" | "srvID kv \<in> set ?pref" "int (length ?plans) < writeQuorum kv"
    | "srvID kv \<in> set ?pref" "\<not> int (length ?plans) < writeQuorum kv" by blast
  then show ?thesis
  proof cases
    case 1
    then show ?thesis using pl by (simp add: CoordPut_def newPutReply_def)
  next
    case 2
    then show ?thesis using pl key by (simp add: CoordPut_def newPutReply_def Let_def)
  next
    case 3
    then have "CoordPut ts t0 t net kv args = Some (Inr (?args, fst ?run, snd ?run))"
      using pl key by (simp add: CoordPut_def Let_def del: coordPutLoop.simps)
    then show ?thesis
      using 3 out coordPutLoop_kvmap[of t0 t ?args "net (CopyPutArgs ?args) ?plans" 0 0 0 kv]
      by (intro exI[of _ ?args] exI[of _ "fst ?run"] exI[of _ "snd ?run"])
         (simp add: Let_def putVerdict_def del: coordPutLoop.simps)
  qed
qed

theorem CoordPut_outcome_witness:
  "\<exists>args' reply kv'. CoordPut 9 5 6 (\<lambda>_ _. []) (sampleServer ''a'') (samplePut [] (sampleObj ''v'' [] 0)) = Some (Inr (args', reply, kv'))
     \<and> putErr reply = ErrWriteQuorumNotMet \<and> kvmap kv' ''k'' = None"
  using CoordPut_outcome[of "sampleServer ''a''" 9 5 6 "\<lambda>_ _. []" "samplePut [] (sampleObj ''v'' [] 0)"]
  by (auto simp: sampleRing_ready Let_def)

text \<open>
  C9: the plans of a put send to every live replica of the preference list itself and for a
  dead one to a known live server outside the list; no server receives the put twice and no
  replica is planned for twice.
\<close>

theorem put_plans_sound:
  assumes "members_ok kv" and "'''' \<notin> fst ` set (members kv)" and "ready_ring (ring kv)"
    and "pref = preferenceOf (ring kv) key" and "ps = putPlans kv pref pref"
  shows "distinct (map recipient ps) \<and> distinct (map targetServer ps) \<and> (\<forall>p \<in> set ps. plan_ok kv pref p)
    \<and> (\<forall>s \<in> set pref. \<not> isDead kv s \<longrightarrow> \<lparr>targetServer = s, handoffServer = ''''\<rparr> \<in> set ps)"
proof -
  have "distinct pref" using assms(3,4) chr.pref_distinct by simp
  then have "plans_ok kv pref pref pref ps"
    unfolding assms(5) using assms(1,2) by (intro putPlans_props) (simp_all add: members_ok_def)
  moreover have "s \<in> set ids \<Longrightarrow> \<not> isDead kv s \<Longrightarrow> \<lparr>targetServer = s, handoffServer = ''''\<rparr> \<in> set (putPlans kv ids used)" for s ids used
    by (induction ids arbitrary: used) (auto split: option.splits)
  ultimately show ?thesis using assms(5) by (auto simp: plans_ok_def)
qed

theorem put_plans_sound_witness:
  "\<lparr>targetServer = ''b'', handoffServer = ''''\<rparr> \<in> set (putPlans sampleMembers [''a'', ''b''] [''a'', ''b''])"
proof -
  have "ring sampleMembers = sampleRing" by (simp add: sampleMembers_def)
  then show ?thesis
    using put_plans_sound[OF sampleMembers_ok, of "[''a'', ''b'']" "''k''"]
    by (simp add: sampleRing_ready sampleMembers_table isDead_def)
qed

end
