(* ===== verification/Cluster.thy ===== *)
theory Cluster
  imports Coordinator
begin

text \<open>
  Several replicas together: a cluster is the state of every server, and a step lets one of
  them handle a put or a merge. On top of the store interface this theory derives that a
  read quorum sees what a write quorum accepted, that read repair brings the replicas that
  answered to one set of versions, and what is lost when another put runs between the two
  critical sections of \<open>mergeObjectsCore\<close>.
\<close>

type_synonym cluster = "string \<Rightarrow> KVServer"

inductive cluster_step :: "string \<times> StoreOp \<Rightarrow> cluster \<Rightarrow> cluster \<Rightarrow> bool" where
  local: "store_step op (c s) kv' \<Longrightarrow> cluster_step (s, op) c (c(s := kv'))"

definition cluster_ok :: "cluster \<Rightarrow> bool" where
  "cluster_ok c \<longleftrightarrow> (\<forall>s. server_ok (c s))"

definition clusterVersions :: "cluster \<Rightarrow> string \<times> string \<Rightarrow> (string \<Rightarrow> u64) set" where
  "clusterVersions c = (\<lambda>(s, k). versionsAt (c s) k)"

interpretation cl: advancing_store cluster_ok cluster_step clusterVersions
proof
  fix c c' :: cluster and a and sk :: "string \<times> string" assume ok: "cluster_ok c" and st: "cluster_step a c c'"
  obtain s k where sk: "sk = (s, k)" by (cases sk)
  from st obtain t op kv' where t: "a = (t, op)" "store_step op (c t) kv'" "c' = c(t := kv')" by cases blast
  have "server_ok kv'" "advances (versionsAt (c t) k) (versionsAt kv' k)"
    using ok t(2) store.step_inv store.step_advances by (auto simp: cluster_ok_def)
  then show "cluster_ok c'" "advances (clusterVersions c sk) (clusterVersions c' sk)"
    using ok t(3) by (auto simp: cluster_ok_def clusterVersions_def sk)
qed

subsection \<open>A read quorum sees a write quorum\<close>

definition servedBy :: "cluster \<Rightarrow> string \<Rightarrow> ForwardGetResult \<Rightarrow> bool" where
  "servedBy c key res \<longleftrightarrow> (fgOK res \<longrightarrow>
     (\<exists>arrived responded. fgReply res = ReplicaGet arrived responded (c (fgServerID res)) \<lparr>getKey = key\<rparr>))"

lemma served_reply:
  assumes "server_ok (c (fgServerID res))" and "servedBy c key res" and "okGet res"
  shows "getObjects (fgReply res) = storedAt (c (fgServerID res)) key"
    and "replyObjects res = storedAt (c (fgServerID res)) key"
proof -
  have ok: "CopyObjects (storedAt (c (fgServerID res)) key) = storedAt (c (fgServerID res)) key"
    using storedAt_ok[OF assms(1), of key] by auto
  then show "getObjects (fgReply res) = storedAt (c (fgServerID res)) key"
    using assms(2,3) by (auto simp: okGet_def servedBy_def ReplicaGet_def storedAt_def split: option.splits)
  then show "replyObjects res = storedAt (c (fgServerID res)) key"
    using assms(3) by (simp add: okGet_def replyObjects_def)
qed

lemma served_objects:
  assumes "server_ok (c (fgServerID res))" and "servedBy c key res"
  shows "objs_ok (replyObjects res)"
    and "okGet res \<Longrightarrow> versions (replyObjects res) = versionsAt (c (fgServerID res)) key"
proof -
  have "objs_ok (storedAt (c (fgServerID res)) key)" using storedAt_ok[OF assms(1)] by blast
  then show "objs_ok (replyObjects res)"
    using served_reply(2)[OF assms] by (cases "okGet res") (auto simp: okGet_def replyObjects_def objs_ok_def)
qed (simp add: served_reply(2)[OF assms] versionsAt_def)

definition repliers :: "GetArrival list \<Rightarrow> string set" where
  "repliers as = (fgServerID \<circ> gaResult) ` {a \<in> set as. okGet (gaResult a)}"

lemma card_repliers:
  assumes "distinct (map (fgServerID \<circ> gaResult) as)"
  shows "int (card (repliers as)) = countGet okGet as"
proof -
  have "repliers as = set (map (fgServerID \<circ> gaResult) (filter (\<lambda>a. okGet (gaResult a)) as))"
    by (auto simp: repliers_def)
  moreover have "distinct (map (fgServerID \<circ> gaResult) (filter (\<lambda>a. okGet (gaResult a)) as))"
    using assms distinct_map_filter by blast
  ultimately have "card (repliers as) = length (filter (\<lambda>a. okGet (gaResult a)) as)"
    by (metis distinct_card length_map)
  then show ?thesis by (simp add: countGet_def)
qed

lemma quorum_read_covers:
  assumes ring: "ready_ring r" and ok: "cluster_ok c" and rq: "0 < readQuorum kv"
    and holders: "Ws \<subseteq> set (preferenceOf r key)" "\<forall>s \<in> Ws. covers (versionsAt (c s) key) v"
    and as: "distinct (map (fgServerID \<circ> gaResult) as)" "(fgServerID \<circ> gaResult) ` set as \<subseteq> set (preferenceOf r key)"
      "\<forall>a \<in> set as. servedBy c key (gaResult a)"
    and quorum: "neighborTarget r < int (card Ws) + readQuorum kv"
    and answer: "getErr (fst (coordGetLoop ptr t0 t key as 0 0 [] [] kv)) = OK"
  shows "covers (versions (getObjects (fst (coordGetLoop ptr t0 t key as 0 0 [] [] kv)))) v"
proof -
  have objs: "arrivals_ok as"
    unfolding arrivals_ok_def
  proof
    fix a assume "a \<in> set as"
    then show "objs_ok (replyObjects (gaResult a))"
      using served_objects(1)[of c "gaResult a" key] ok as(3) by (simp add: cluster_ok_def)
  qed
  obtain pre post where pre: "as = pre @ post" "countGet okGet pre = readQuorum kv"
      "versions (getObjects (fst (coordGetLoop ptr t0 t key as 0 0 [] [] kv))) = maxima (versions (collected pre))"
    using read_ok[OF rq objs answer] by blast
  have "repliers pre \<subseteq> set (preferenceOf r key)" using as(2) pre(1) by (auto simp: repliers_def)
  moreover have "int (card (repliers pre)) = readQuorum kv" using card_repliers as(1) pre(1,2) by simp
  moreover from this have "nat (neighborTarget r) < card Ws + card (repliers pre)" using quorum rq by linarith
  ultimately obtain s where s: "s \<in> Ws" "s \<in> repliers pre"
    using chr.quorums_meet[OF ring holders(1), of "repliers pre"] by auto
  then obtain a where a: "a \<in> set pre" "okGet (gaResult a)" "s = fgServerID (gaResult a)" by (auto simp: repliers_def)
  have "versions (replyObjects (gaResult a)) = versionsAt (c s) key"
    using served_objects(2)[of c "gaResult a" key] ok as(3) a pre(1) by (simp add: cluster_ok_def)
  moreover have "versions (replyObjects (gaResult a)) \<subseteq> versions (collected pre)"
    using a(1) by (auto simp: versions_def collected_def)
  ultimately have "covers (versions (collected pre)) v"
    using holders(2) s(1) by (metis covers_def subsetD)
  then show ?thesis by (simp add: pre(3) covers_maxima)
qed

subsection \<open>Read repair\<close>

text \<open>Delivering the repair messages of a finished job.\<close>

definition deliverRepairs :: "(string \<times> RepairArgs) list \<Rightarrow> cluster \<Rightarrow> cluster" where
  "deliverRepairs msgs c = fold (\<lambda>(s, args) c. c(s := deliverRepairPut (c s) args)) msgs c"

lemma deliverRepairs_merge:
  assumes "objs_ok objs" and "cluster_ok c" and "distinct ss"
  shows "cluster_ok (deliverRepairs (repairReplicas key objs ss) c)
    \<and> (\<forall>s k. storedAt (deliverRepairs (repairReplicas key objs ss) c s) k =
         (if s \<in> set ss \<and> k = key then mergeLoop (storedAt (c s) key) objs else storedAt (c s) k))"
  using assms(2,3)
proof (induction ss arbitrary: c)
  case (Cons s ss)
  define c1 where "c1 = c(s := deliverRepairPut (c s) \<lparr>repKey = key, repObjects = objs, repDelete = False\<rparr>)"
  have st: "server_ok (c s)" using Cons.prems(1) by (simp add: cluster_ok_def)
  note d = deliverRepairPut_merge[OF st assms(1), of key]
  have "cluster_ok c1" using Cons.prems(1) d by (simp add: cluster_ok_def c1_def)
  from Cons.IH[OF this] have ih: "cluster_ok (deliverRepairs (repairReplicas key objs ss) c1)"
      "\<And>t k. storedAt (deliverRepairs (repairReplicas key objs ss) c1 t) k =
         (if t \<in> set ss \<and> k = key then mergeLoop (storedAt (c1 t) key) objs else storedAt (c1 t) k)"
    using Cons.prems(2) by auto
  moreover have "deliverRepairs (repairReplicas key objs (s # ss)) c = deliverRepairs (repairReplicas key objs ss) c1"
    by (simp add: deliverRepairs_def repairReplicas_def c1_def)
  moreover have "storedAt (c1 t) k = (if t = s \<and> k = key then mergeLoop (storedAt (c s) key) objs else storedAt (c t) k)" for t k
    using d by (simp add: c1_def)
  ultimately show ?case using Cons.prems(2) by auto
qed (simp add: repairReplicas_def deliverRepairs_def)

lemma distinct_stale:
  "distinct (map fgServerID results) \<Longrightarrow> distinct (findStaleReplicas canonical results)"
  by (simp add: findStaleReplicas_eq distinct_map_filter)

text \<open>
  A finished job leaves every replica that answered with at least the merged versions; a
  replica whose answer was stale ends with exactly the maxima of its own and the merged ones.
\<close>

lemma repair_converges:
  assumes ok: "cluster_ok c" and can: "siblings_ok canonical" and d: "distinct (map fgServerID (results @ late))"
    and served: "\<forall>res \<in> set (results @ late). servedBy c key res"
    and ne: "mergeLoop canonical (concat (map replyObjects late)) \<noteq> []"
    and res: "res \<in> set (results @ late)" "fgOK res"
  shows "advances (versions (mergeLoop canonical (concat (map replyObjects late))))
    (versionsAt (deliverRepairs (finishCoordGetReadRepair key canonical results late) c (fgServerID res)) key)"
proof -
  let ?m = "mergeLoop canonical (concat (map replyObjects late))" and ?s = "fgServerID res"
  let ?stale = "findStaleReplicas ?m (results @ late)"
  have "objs_ok (concat (map replyObjects late))"
    using served_objects(1)[of c _ key] ok served by (fastforce simp: objs_ok_def cluster_ok_def)
  then have m: "siblings_ok ?m" "objs_ok ?m" using can siblings_ok_mergeLoop by blast+
  have msgs: "finishCoordGetReadRepair key canonical results late = repairReplicas key ?m ?stale"
    using ne by (simp add: finish_eq Let_def)
  note del = deliverRepairs_merge[OF m(2) ok distinct_stale[OF d], of key ?m]
  show ?thesis
  proof (cases "?s \<in> set ?stale")
    case True
    then show ?thesis unfolding msgs using del by (simp add: versionsAt_def mergeLoop_covers_incoming)
  next
    case False
    then have same: "getErr (fgReply res) = OK" "IsSameSiblings ?m (getObjects (fgReply res))"
      using res by (auto simp: findStaleReplicas_eq)
    have obj: "getObjects (fgReply res) = storedAt (c ?s) key"
      using served res same(1) ok by (intro served_reply(1)) (auto simp: cluster_ok_def okGet_def)
    have "siblings_ok (storedAt (c ?s) key)" using storedAt_ok ok by (simp add: cluster_ok_def)
    then have "versions ?m = versionsAt (c ?s) key"
      using IsSameSiblings_versions[OF m(1)] same(2) obj by (simp add: versionsAt_def)
    then show ?thesis unfolding msgs using del False by (simp add: versionsAt_def)
  qed
qed

subsection \<open>A put between the two critical sections of a merge\<close>

text \<open>
  \<open>mergeObjectsCore\<close> computes the merged list under the mutex, releases it and installs the
  list in a second critical section: the steps are \<open>mergePlan\<close> and \<open>installObjects\<close>.
\<close>

lemma interleaved_put_lost:
  assumes ok: "server_ok kv" and absent: "storedAt kv (putKey args) = []"
    and put: "replicaPutBody kv args = Inr (OK, kv')" "put_descends args"
    and inc: "incoming \<noteq> []" "objs_ok incoming" "\<not> covers (versions incoming) (obj_ver (putObject args))"
  shows "covers (versionsAt kv' (putKey args)) (obj_ver (putObject args)) \<and>
    (\<exists>kv''. installObjects (putKey args) (fst (mergePlan (putKey args) incoming kv)) kv' = Inr kv''
       \<and> \<not> covers (versionsAt kv'' (putKey args)) (obj_ver (putObject args)))"
proof -
  let ?k = "putKey args" and ?m = "mergeLoop [] incoming"
  have kv': "server_ok kv'" "covers (versionsAt kv' ?k) (obj_ver (putObject args))"
    using replicaPutBody_total[OF ok put(2)] put(1) covers_add_self by auto
  have m: "?m \<noteq> []" "siblings_ok ?m" "ts_sorted ?m"
    using inc by (auto intro: siblings_ok_mergeLoop ts_sorted_mergeLoop dest: mergeLoop_nonempty[OF disjI2])
  have plan: "fst (mergePlan ?k incoming kv) = ?m" using mergePlan_eq[of ?k incoming kv] absent by simp
  obtain kv'' where kv'': "installObjects ?k ?m kv' = Inr kv''" "storedAt kv'' ?k = ?m"
    using installObjects_ok[OF kv'(1) m, of ?k] by auto
  have "versionsAt kv'' ?k = maxima (versions incoming)"
    using mergeLoop_maxima[of "[]" incoming] kv''(2) by (simp add: versionsAt_def)
  then have "\<not> covers (versionsAt kv'' ?k) (obj_ver (putObject args))" using inc(3) by (simp add: covers_maxima)
  then show ?thesis using kv'(2) plan kv''(1) by auto
qed

subsection \<open>Acceptance and later reads\<close>

lemma accepted_covers:
  assumes "server_ok kv" and "put_descends args" and "replicaPutBody kv args = Inr (OK, kv')"
  shows "covers (versionsAt kv' (putKey args)) (obj_ver (putObject args))"
  using replicaPutBody_total[OF assms(1,2)] assms(3) covers_add_self by auto

text \<open>The state of each replica at the moment it served its reply.\<close>

lemma serving_states:
  assumes d: "distinct (map (fgServerID \<circ> gaResult) as)" and ok: "cluster_ok c"
    and served: "\<forall>a \<in> set as. \<exists>ops c'. run_of cluster_step ops c c' \<and> servedBy c' key (gaResult a)"
  shows "\<exists>c2. cluster_ok c2 \<and> (\<forall>s k v. covers (versionsAt (c s) k) v \<longrightarrow> covers (versionsAt (c2 s) k) v)
    \<and> (\<forall>a \<in> set as. servedBy c2 key (gaResult a))"
proof -
  let ?id = "fgServerID \<circ> gaResult"
  obtain f where f: "\<forall>a \<in> set as. (\<exists>ops. run_of cluster_step ops c (f a)) \<and> servedBy (f a) key (gaResult a)"
    using served by metis
  define c2 where "c2 s = (case find (\<lambda>a. ?id a = s) as of None \<Rightarrow> c s | Some a \<Rightarrow> f a s)" for s
  have cases: "c2 s = c s \<or> (\<exists>a \<in> set as. c2 s = f a s)" for s
  proof (cases "find (\<lambda>a. ?id a = s) as")
    case (Some a)
    then have "a \<in> set as" by (auto simp: find_Some_iff)
    moreover have "c2 s = f a s" unfolding c2_def Some by simp
    ultimately show ?thesis by blast
  qed (simp add: c2_def)
  have at: "c2 (?id a) = f a (?id a)" if "a \<in> set as" for a
  proof -
    have "find (\<lambda>b. ?id b = ?id a) as \<noteq> None" using that by (auto simp: find_None_iff)
    then obtain b where b: "find (\<lambda>b. ?id b = ?id a) as = Some b" by blast
    then have "b \<in> set as" "?id b = ?id a" by (auto simp: find_Some_iff)
    then have "b = a" using that d inj_onD[of ?id "set as" b a] by (simp add: distinct_map)
    then show ?thesis using b by (simp add: c2_def)
  qed
  have run: "cluster_ok (f a)" "\<And>s k v. covers (versionsAt (c s) k) v \<Longrightarrow> covers (versionsAt (f a s) k) v" if a: "a \<in> set as" for a
  proof -
    obtain ops where r: "run_of cluster_step ops c (f a)" using bspec[OF f a] by blast
    show "cluster_ok (f a)" using cl.run_inv[OF r ok] .
    show "covers (versionsAt (f a s) k) v" if "covers (versionsAt (c s) k) v" for s k v
      using cl.never_lost[OF r ok, of "(s, k)" v] that by (simp add: clusterVersions_def)
  qed
  have "server_ok (c2 s)" for s using cases[of s] ok run(1) by (auto simp: cluster_ok_def)
  then have "cluster_ok c2" by (simp add: cluster_ok_def)
  moreover have "covers (versionsAt (c2 s) k) v" if "covers (versionsAt (c s) k) v" for s k v
    using cases[of s] run(2) that by auto
  moreover have "servedBy c2 key (gaResult a)" if "a \<in> set as" for a
    using bspec[OF f that] at[OF that] by (simp add: servedBy_def)
  ultimately show ?thesis by (intro exI[of _ c2]) simp
qed

subsection \<open>Properties\<close>


definition sampleAccepted :: "string \<Rightarrow> KVServer" where
  "sampleAccepted i = (case replicaPutBody (sampleServer i) sampleHint of Inr (e, kv) \<Rightarrow> kv | Inl _ \<Rightarrow> sampleServer i)"

lemma sampleAccepted_put:
  "replicaPutBody (sampleServer i) sampleHint = Inr (OK, sampleAccepted i)" "server_ok (sampleAccepted i)"
  "versionsAt (sampleAccepted i) ''k'' = add_version (obj_ver (putObject sampleHint)) {}"
proof -
  obtain e kv where put: "replicaPutBody (sampleServer i) sampleHint = Inr (e, kv)" "e = OK" "server_ok kv"
      "versionsAt kv ''k'' = add_version (obj_ver (putObject sampleHint)) {}"
    using replicaPutBody_total[OF sampleServer_ok sampleHint_descends, of i]
    by (auto simp: sampleHint_def sampleFirst_initial)
  then have "sampleAccepted i = kv" by (simp add: sampleAccepted_def)
  then show "replicaPutBody (sampleServer i) sampleHint = Inr (OK, sampleAccepted i)" "server_ok (sampleAccepted i)"
    "versionsAt (sampleAccepted i) ''k'' = add_version (obj_ver (putObject sampleHint)) {}" using put by simp_all
qed

lemma sampleAccepted_found: "\<exists>objs. kvmap (sampleAccepted i) ''k'' = Some objs"
proof -
  have "covers (versionsAt (sampleAccepted i) ''k'') (obj_ver (putObject sampleHint))"
    by (simp add: sampleAccepted_put(3) covers_add_self)
  then show ?thesis by (cases "kvmap (sampleAccepted i) ''k''") (auto simp: covers_def versionsAt_def storedAt_def)
qed


text \<open>
  C10: read repair. When the job of a read finishes and its messages are delivered, every
  replica that answered ends with versions that cover the merge of the canonical siblings and
  the late replies, whether it was found stale or not, and replicas keep what they had.
\<close>

theorem read_repair_converges:
  assumes "cluster_ok c" and "siblings_ok canonical" and "distinct (map fgServerID (results @ late))"
    and "\<forall>res \<in> set (results @ late). servedBy c key res"
    and "merged = mergeLoop canonical (concat (map replyObjects late))" and "merged \<noteq> []"
    and "res \<in> set (results @ late)" and "fgOK res"
    and "c' = deliverRepairs (finishCoordGetReadRepair key canonical results late) c"
  shows "advances (versions merged) (versionsAt (c' (fgServerID res)) key) \<and> (\<forall>s k. advances (versionsAt (c s) k) (versionsAt (c' s) k))"
proof -
  have "objs_ok (concat (map replyObjects late))"
    using served_objects(1)[of c _ key] assms(1,4) by (fastforce simp: objs_ok_def cluster_ok_def)
  then have m: "objs_ok merged" unfolding assms(5) using assms(2) siblings_ok_mergeLoop by blast
  have "finishCoordGetReadRepair key canonical results late = repairReplicas key merged (findStaleReplicas merged (results @ late))"
    using assms(5,6) by (simp add: finish_eq Let_def)
  then have "advances (versionsAt (c s) k) (versionsAt (c' s) k)" for s k
    using deliverRepairs_merge[OF m assms(1) distinct_stale[OF assms(3)], of key merged] assms(9)
    by (simp add: versionsAt_def mergeLoop_advances)
  then show ?thesis using repair_converges[OF assms(1-4) _ assms(7,8)] assms(5,6,9) by blast
qed

theorem read_repair_converges_witness:
  "advances (versions [tinyObj]) (versionsAt (deliverRepairs (finishCoordGetReadRepair ''k'' [tinyObj]
     [\<lparr>fgServerID = ''a'', fgOK = True, fgReply = ReplicaGet 0 0 (sampleServer ''a'') \<lparr>getKey = ''k''\<rparr>\<rparr>] []) sampleServer ''a'') ''k'')"
proof -
  let ?res = "\<lparr>fgServerID = ''a'', fgOK = True, fgReply = ReplicaGet 0 0 (sampleServer ''a'') \<lparr>getKey = ''k''\<rparr>\<rparr>"
  have "cluster_ok sampleServer" by (simp add: cluster_ok_def sampleServer_ok)
  moreover have "\<forall>res \<in> set ([?res] @ []). servedBy sampleServer ''k'' res" by (auto simp: servedBy_def)
  ultimately show ?thesis
    using read_repair_converges[OF _ tinyObj_siblings(1), of sampleServer "[?res]" "[]" "''k''" "[tinyObj]" ?res] by simp
qed

text \<open>
  C39: \<open>mergeObjectsCore\<close> computes the merged siblings and installs them in two critical
  sections. A put that is accepted between the two, for a key that was absent, is lost: the
  stored versions covered it after the put and do not after the install.
\<close>

theorem put_between_merge_sections_lost:
  assumes "server_ok kv" and "storedAt kv (putKey args) = []"
    and "replicaPutBody kv args = Inr (OK, kv')" "put_descends args"
    and "incoming \<noteq> []" "objs_ok incoming" "\<not> covers (versions incoming) (obj_ver (putObject args))"
  shows "covers (versionsAt kv' (putKey args)) (obj_ver (putObject args)) \<and>
    (\<exists>kv''. installObjects (putKey args) (fst (mergePlan (putKey args) incoming kv)) kv' = Inr kv''
       \<and> \<not> covers (versionsAt kv'' (putKey args)) (obj_ver (putObject args)))"
  by (rule interleaved_put_lost[OF assms])

theorem put_between_merge_sections_lost_witness:
  "\<exists>kv''. installObjects ''k'' (fst (mergePlan ''k'' [sampleObj ''w'' [(''b'', 1)] 6] (sampleServer ''a''))) (sampleAccepted ''a'') = Inr kv''
     \<and> \<not> covers (versionsAt kv'' ''k'') (obj_ver (putObject sampleHint))"
proof -
  have key: "putKey sampleHint = ''k''" by (simp add: sampleHint_def)
  have w: "objs_ok [sampleObj ''w'' [(''b'', 1)] 6]" by (simp add: objs_ok_def sample_ok)
  have "\<not> covers (versions [sampleObj ''w'' [(''b'', 1)] 6]) (obj_ver (putObject sampleHint))"
    by (auto simp: covers_def versions_def sampleHint_def sampleObj_def obj_ver_def ctx_ver_def le_fun_def vc_fun_def gm_get_def
        intro!: exI[of _ "''a''"])
  then show ?thesis
    using put_between_merge_sections_lost[OF sampleServer_ok _ sampleAccepted_put(1) sampleHint_descends _ w] key by auto
qed

end
