(* ===== verification/Simulator.thy ===== *)
theory Simulator
  imports GoFloat Collector
begin

unbundle bit_operations_syntax

text \<open>
  The predictor, \<^verbatim>\<open>kvsrv_eval/stimulator.go\<close>: the Monte Carlo simulation of the WARS model and
  the closed formula for k-staleness. The generator of a configuration is passed beside it and
  returned advanced; \<^verbatim>\<open>rand.NewSource\<close> is a parameter that gives the draws of a seed. Sums of
  durations wrap at 64 bits; \<^verbatim>\<open>float64\<close> values are rational numbers, with \<open>None\<close> for a quotient
  that is not finite. \<^verbatim>\<open>sort.Slice\<close> is the insertion sort it uses for up to twelve elements.
\<close>

subsection \<open>Configuration\<close>

record SimulationConfig =
  scNumReplicas :: int
  scReadQuorum :: int
  scWriteQuorum :: int
  scDelta :: Duration
  scDeltaPoints :: int
  scK :: int
  scIterations :: int
  scYMin :: rat
  scYMax :: rat
  scEmitZoomPlot :: bool

record SimulationResult =
  ConsistentTrials :: nat
  resIterations :: int
  Probability :: rat

definition validateDeltaPConfig :: "SimulationConfig \<Rightarrow> string option" where
  "validateDeltaPConfig config =
     (if scNumReplicas config \<le> 0 then Some ''NumReplicas must be > 0''
      else if scReadQuorum config \<le> 0 \<or> scReadQuorum config > scNumReplicas config
      then Some ''ReadQuorum must be in [1, NumReplicas]''
      else if scWriteQuorum config \<le> 0 \<or> scWriteQuorum config > scNumReplicas config
      then Some ''WriteQuorum must be in [1, NumReplicas]''
      else if scDelta config < 0 then Some ''Delta must be >= 0''
      else if scDeltaPoints config < 0 then Some ''DeltaPoints must be >= 0''
      else if scIterations config \<le> 0 then Some ''Iterations must be > 0''
      else if scK config \<le> 0 then Some ''K must be > 0''
      else None)"

subsection \<open>One trial\<close>

definition addDuration :: "Duration \<Rightarrow> Duration \<Rightarrow> Duration" where
  "addDuration a b = sint (of_int (a + b) :: 64 word)"

definition nthSmallest :: "Duration list \<Rightarrow> int \<Rightarrow> panic + Duration" where
  "nthSmallest values n =
     (let copied = go_sort (<) values
      in if 0 \<le> n - 1 \<and> n - 1 < int (length copied) then Inr (copied ! nat (n - 1)) else Inl IndexOutOfRange)"

definition firstKIndices :: "Duration list \<Rightarrow> int \<Rightarrow> panic + nat list" where
  "firstKIndices values k =
     (let indices = go_sort (\<lambda>i j. values ! i < values ! j) [0..<length values]
      in if 0 \<le> k \<and> k \<le> int (length indices) then Inr (take (nat k) indices) else Inl IndexOutOfRange)"

text \<open>The samples of one replica: write request, write latency, read request, read latency.\<close>

type_synonym trialRow = "Duration \<times> Duration \<times> Duration \<times> Duration"

definition sampleReplica :: "WARSSamplers \<Rightarrow> Rand \<Rightarrow> panic + trialRow \<times> Rand" where
  "sampleReplica samplers rng =
     (case GetSample (WriteRequest samplers) rng of Inl p \<Rightarrow> Inl p | Inr (writeRequest, rng) \<Rightarrow>
      (case GetSample (WriteAck samplers) rng of Inl p \<Rightarrow> Inl p | Inr (writeAck, rng) \<Rightarrow>
       (case GetSample (ReadRequest samplers) rng of Inl p \<Rightarrow> Inl p | Inr (readRequest, rng) \<Rightarrow>
        (case GetSample (ReadResponse samplers) rng of Inl p \<Rightarrow> Inl p | Inr (readResponse, rng) \<Rightarrow>
           Inr ((writeRequest, addDuration writeRequest writeAck, readRequest, addDuration readRequest readResponse), rng)))))"

fun sampleReplicas :: "WARSSamplers \<Rightarrow> nat \<Rightarrow> Rand \<Rightarrow> panic + trialRow list \<times> Rand" where
  "sampleReplicas samplers 0 rng = Inr ([], rng)"
| "sampleReplicas samplers (Suc n) rng =
     (case sampleReplica samplers rng of Inl p \<Rightarrow> Inl p | Inr (row, rng) \<Rightarrow>
      (case sampleReplicas samplers n rng of Inl p \<Rightarrow> Inl p | Inr (rows, rng) \<Rightarrow> Inr (row # rows, rng)))"

definition trialConsistent :: "SimulationConfig \<Rightarrow> trialRow list \<Rightarrow> panic + bool" where
  "trialConsistent config rows =
     (let writeRequests = map fst rows;
          writeLatencies = map (fst \<circ> snd) rows;
          readRequests = map (fst \<circ> snd \<circ> snd) rows;
          readLatencies = map (snd \<circ> snd \<circ> snd) rows
      in case nthSmallest writeLatencies (scWriteQuorum config) of Inl p \<Rightarrow> Inl p | Inr writeFinish \<Rightarrow>
         (case firstKIndices readLatencies (scReadQuorum config) of Inl p \<Rightarrow> Inl p | Inr firstReplies \<Rightarrow>
            Inr (\<exists>i \<in> set firstReplies.
              addDuration (addDuration writeFinish (readRequests ! i)) (scDelta config) \<ge> writeRequests ! i)))"

definition simulateTrial :: "SimulationConfig \<Rightarrow> WARSSamplers \<Rightarrow> Rand \<Rightarrow> panic + bool \<times> Rand" where
  "simulateTrial config samplers rng =
     (case sampleReplicas samplers (nat (scNumReplicas config)) rng of Inl p \<Rightarrow> Inl p
      | Inr (rows, rng) \<Rightarrow> map_sum id (\<lambda>b. (b, rng)) (trialConsistent config rows))"

subsection \<open>Simulation and sweeps\<close>

fun trialsLoop :: "SimulationConfig \<Rightarrow> WARSSamplers \<Rightarrow> nat \<Rightarrow> nat \<Rightarrow> Rand \<Rightarrow> panic + nat \<times> Rand" where
  "trialsLoop config samplers 0 consistentTrials rng = Inr (consistentTrials, rng)"
| "trialsLoop config samplers (Suc iters) consistentTrials rng =
     (case simulateTrial config samplers rng of Inl p \<Rightarrow> Inl p
      | Inr (b, rng) \<Rightarrow> trialsLoop config samplers iters (if b then consistentTrials + 1 else consistentTrials) rng)"

definition SimulateDeltaP :: "SimulationConfig \<Rightarrow> WARSSamplers \<Rightarrow> Rand \<Rightarrow> panic + SimulationResult \<times> Rand" where
  "SimulateDeltaP config samplers rng =
     (case validateDeltaPConfig config of
        Some err \<Rightarrow> Inl (ExplicitPanic err)
      | None \<Rightarrow> map_sum id (\<lambda>(n, rng).
          (\<lparr>ConsistentTrials = n, resIterations = scIterations config,
            Probability = of_nat n / of_int (scIterations config)\<rparr>, rng))
          (trialsLoop config samplers (nat (scIterations config)) 0 rng))"

definition EvaluateDeltaP :: "WARSTrace \<Rightarrow> SimulationConfig \<Rightarrow> Rand \<Rightarrow> panic + SimulationResult \<times> Rand" where
  "EvaluateDeltaP tr config rng =
     (case NewWARSSamplers tr of Inl err \<Rightarrow> Inl (ExplicitPanic err) | Inr samplers \<Rightarrow> SimulateDeltaP config samplers rng)"

definition seedMix :: "u64 \<Rightarrow> u64 \<Rightarrow> u64" where
  "seedMix v seed = seed XOR (v + 0x9e3779b97f4a7c15 + push_bit 6 seed + drop_bit 2 seed)"

definition seedForDeltaSweep :: "SimulationConfig \<Rightarrow> Duration \<Rightarrow> int" where
  "seedForDeltaSweep config delta =
     sint (fold seedMix (map of_int [scNumReplicas config, scReadQuorum config, scWriteQuorum config,
       scIterations config, scK config, delta]) 1469598103934665603)"

fun PredictDeltaPSweep :: "(int \<Rightarrow> Rand) \<Rightarrow> WARSTrace \<Rightarrow> SimulationConfig \<Rightarrow> Duration list \<Rightarrow> panic + SimulationResult list" where
  "PredictDeltaPSweep newSource tr baseConfig [] = Inr []"
| "PredictDeltaPSweep newSource tr baseConfig (delta # deltas) =
     (let config = baseConfig\<lparr>scDelta := delta\<rparr>
      in case EvaluateDeltaP tr config (newSource (seedForDeltaSweep config delta)) of Inl p \<Rightarrow> Inl p
         | Inr (result, _) \<Rightarrow> map_sum id (\<lambda>rs. result # rs) (PredictDeltaPSweep newSource tr baseConfig deltas))"

subsection \<open>The closed formula\<close>

fun combLoop :: "int \<Rightarrow> int \<Rightarrow> nat \<Rightarrow> rat" where
  "combLoop n k 0 = 1"
| "combLoop n k (Suc i) = combLoop n k i * (of_int (n - k + int (Suc i)) / of_nat (Suc i))"

definition combination :: "int \<Rightarrow> int \<Rightarrow> rat" where
  "combination n k =
     (if k < 0 \<or> k > n then 0
      else if k = 0 \<or> k = n then 1
      else let k = (if k > n - k then n - k else k) in combLoop n k (nat k))"

definition EvaluateKP :: "SimulationConfig \<Rightarrow> SimulationResult option" where
  "EvaluateKP config =
     (case finiteDiv (combination (scNumReplicas config - scWriteQuorum config) (scReadQuorum config))
             (combination (scNumReplicas config) (scReadQuorum config)) of
        None \<Rightarrow> None
      | Some missSingleWrite \<Rightarrow>
          map_option (\<lambda>p. \<lparr>ConsistentTrials = 0, resIterations = 0, Probability = 1 - p\<rparr>) (finitePow missSingleWrite (scK config)))"

definition PredictKPSweep :: "SimulationConfig \<Rightarrow> int list \<Rightarrow> SimulationResult option list" where
  "PredictKPSweep baseConfig ks = map (\<lambda>k. EvaluateKP (baseConfig\<lparr>scK := k\<rparr>)) ks"

subsection \<open>Order statistics\<close>

lemma addDuration_exact: "- (2 ^ 62) \<le> a \<Longrightarrow> a < 2 ^ 62 \<Longrightarrow> - (2 ^ 62) \<le> b \<Longrightarrow> b < 2 ^ 62 \<Longrightarrow> addDuration a b = a + b"
  unfolding addDuration_def by (simp add: sint_sbintrunc' signed_take_bit_int_eq_self del: of_int_add)

lemma nthSmallest_enough:
  assumes "0 < n" and "n \<le> int (length values)"
  shows "\<exists>v. nthSmallest values n = Inr v \<and> v \<in> set values \<and> nat n \<le> card {i. i < length values \<and> values ! i \<le> v}"
proof -
  let ?s = "sort values" and ?v = "sort values ! nat (n - 1)"
  have lt: "nat (n - 1) < length values" using assms by linarith
  have v: "nthSmallest values n = Inr ?v" using assms by (simp add: nthSmallest_def go_sort_linorder)
  have "?v \<in> set values" using lt by (metis length_sort nth_mem set_sort)
  moreover have "take (nat n) ?s = filter (\<lambda>x. x \<le> ?v) (take (nat n) ?s)"
  proof (rule filter_True[symmetric], rule ballI)
    fix x assume "x \<in> set (take (nat n) ?s)"
    then obtain i where "i < nat n" "i < length ?s" "x = ?s ! i" by (auto simp: in_set_conv_nth)
    then show "x \<le> ?v" using lt sorted_nth_mono[OF sorted_sort, of i "nat (n - 1)" "values"] by simp
  qed
  moreover have "card {i. i < length values \<and> values ! i \<le> ?v} = length (filter (\<lambda>x. x \<le> ?v) values)"
    by (simp add: length_filter_conv_card)
  moreover have "length (filter (\<lambda>x. x \<le> ?v) values) = length (filter (\<lambda>x. x \<le> ?v) ?s)"
    by (metis mset_filter mset_sort size_mset)
  moreover have "length (filter (\<lambda>x. x \<le> ?v) (take (nat n) ?s)) \<le> length (filter (\<lambda>x. x \<le> ?v) ?s)"
    by (metis append_take_drop_id filter_append le_add1 length_append)
  moreover have "length (take (nat n) ?s) = nat n" using assms(2) by simp
  ultimately have "nat n \<le> card {i. i < length values \<and> values ! i \<le> ?v}" by metis
  then show ?thesis using v \<open>?v \<in> set values\<close> by blast
qed

lemma firstKIndices_props:
  assumes "0 \<le> k" and "k \<le> int (length values)"
  shows "\<exists>idx. firstKIndices values k = Inr idx \<and> distinct idx \<and> length idx = nat k \<and> set idx \<subseteq> {..<length values}"
proof -
  let ?idx = "sort_key ((!) values) [0..<length values]"
  have "firstKIndices values k = Inr (take (nat k) ?idx)"
    using assms by (simp add: firstKIndices_def go_sort_key[of "(!) values"])
  moreover have "set (take (nat k) ?idx) \<subseteq> {..<length values}" using set_take_subset[of "nat k" ?idx] by auto
  ultimately show ?thesis using assms by (auto simp: min_def)
qed

subsection \<open>Trials never fail on a valid configuration\<close>

definition samplers_ok :: "WARSSamplers \<Rightarrow> bool" where
  "samplers_ok s \<longleftrightarrow> (\<forall>f \<in> {WriteRequest s, WriteAck s, ReadRequest s, ReadResponse s}.
     samples f \<noteq> [] \<and> (\<forall>d \<in> set (samples f). 0 \<le> d \<and> d < 2 ^ 60))"

lemma GetSample_mem: "samples s \<noteq> [] \<Longrightarrow> \<exists>d rng'. GetSample s rng = Inr (d, rng') \<and> d \<in> set (samples s)"
  using rng_Intn_less[of "length (samples s)" rng] by (auto simp: GetSample_def Len_def split: prod.splits)

definition row_ok :: "trialRow \<Rightarrow> bool" where
  "row_ok = (\<lambda>(wreq, wlat, rreq, rlat). 0 \<le> wreq \<and> wreq \<le> wlat \<and> wlat < 2 ^ 61 \<and> 0 \<le> rreq \<and> rreq < 2 ^ 60)"

lemma sampleReplica_ok:
  assumes "samplers_ok s"
  shows "\<exists>row rng'. sampleReplica s rng = Inr (row, rng') \<and> row_ok row"
proof -
  have ne: "samples (WriteRequest s) \<noteq> []" "samples (WriteAck s) \<noteq> []" "samples (ReadRequest s) \<noteq> []" "samples (ReadResponse s) \<noteq> []"
    using assms by (simp_all add: samplers_ok_def)
  obtain a r1 where a: "GetSample (WriteRequest s) rng = Inr (a, r1)" "a \<in> set (samples (WriteRequest s))"
    using GetSample_mem[OF ne(1)] by blast
  obtain b r2 where b: "GetSample (WriteAck s) r1 = Inr (b, r2)" "b \<in> set (samples (WriteAck s))"
    using GetSample_mem[OF ne(2)] by blast
  obtain c r3 where c: "GetSample (ReadRequest s) r2 = Inr (c, r3)" "c \<in> set (samples (ReadRequest s))"
    using GetSample_mem[OF ne(3)] by blast
  obtain d r4 where d: "GetSample (ReadResponse s) r3 = Inr (d, r4)" "d \<in> set (samples (ReadResponse s))"
    using GetSample_mem[OF ne(4)] by blast
  have bd: "0 \<le> a \<and> a < 2 ^ 60" "0 \<le> b \<and> b < 2 ^ 60" "0 \<le> c \<and> c < 2 ^ 60"
    using assms a(2) b(2) c(2) by (auto simp: samplers_ok_def)
  then have "addDuration a b = a + b" by (intro addDuration_exact) simp_all
  then have "row_ok (a, addDuration a b, c, addDuration c d)" using bd by (simp add: row_ok_def)
  then show ?thesis using a(1) b(1) c(1) d(1) by (simp add: sampleReplica_def)
qed

lemma sampleReplicas_ok:
  "samplers_ok s \<Longrightarrow> \<exists>rows rng'. sampleReplicas s n rng = Inr (rows, rng') \<and> length rows = n \<and> (\<forall>row \<in> set rows. row_ok row)"
proof (induction n arbitrary: rng)
  case (Suc n)
  obtain row r1 where "sampleReplica s rng = Inr (row, r1)" "row_ok row" using sampleReplica_ok[OF Suc.prems] by blast
  moreover obtain rows r2 where "sampleReplicas s n r1 = Inr (rows, r2)" "length rows = n" "\<forall>row \<in> set rows. row_ok row"
    using Suc by blast
  ultimately show ?case by simp
qed simp

definition config_ok :: "SimulationConfig \<Rightarrow> bool" where
  "config_ok config \<longleftrightarrow> validateDeltaPConfig config = None \<and> scDelta config < 2 ^ 60"

lemma trialConsistent_ok:
  assumes "config_ok config" and "length rows = nat (scNumReplicas config)" and "\<forall>row \<in> set rows. row_ok row"
  shows "\<exists>b. trialConsistent config rows = Inr b \<and> (scNumReplicas config < scReadQuorum config + scWriteQuorum config \<longrightarrow> b)"
proof -
  let ?n = "length rows" and ?wl = "map (fst \<circ> snd) rows" and ?rl = "map (snd \<circ> snd \<circ> snd) rows"
  have q: "0 < scReadQuorum config" "scReadQuorum config \<le> int ?n" "0 < scWriteQuorum config" "scWriteQuorum config \<le> int ?n"
      "0 \<le> scDelta config" "scDelta config < 2 ^ 60"
    using assms(1,2) by (auto simp: config_ok_def validateDeltaPConfig_def split: if_splits)
  obtain wf where wf: "nthSmallest ?wl (scWriteQuorum config) = Inr wf" "wf \<in> set ?wl"
      "nat (scWriteQuorum config) \<le> card {i. i < ?n \<and> ?wl ! i \<le> wf}"
    using nthSmallest_enough[OF q(3), of ?wl] q(4) by auto
  obtain idx where idx: "firstKIndices ?rl (scReadQuorum config) = Inr idx" "distinct idx" "length idx = nat (scReadQuorum config)" "set idx \<subseteq> {..<?n}"
    using firstKIndices_props[of "scReadQuorum config" ?rl] q(1,2) by auto
  let ?P = "\<lambda>i. addDuration (addDuration wf (map (fst \<circ> snd \<circ> snd) rows ! i)) (scDelta config) \<ge> map fst rows ! i"
  have val: "trialConsistent config rows = Inr (\<exists>i \<in> set idx. ?P i)"
    using wf(1) idx(1) by (simp add: trialConsistent_def)
  have wfb: "0 \<le> wf" "wf < 2 ^ 61" using wf(2) assms(3) by (auto simp: row_ok_def)
  have met: "\<exists>i \<in> set idx. ?P i" if strict: "scNumReplicas config < scReadQuorum config + scWriteQuorum config"
  proof -
    let ?A = "{i. i < ?n \<and> ?wl ! i \<le> wf}"
    have "card (set idx) = nat (scReadQuorum config)" using idx(2,3) distinct_card by metis
    then have "?n < card ?A + card (set idx)" using wf(3) strict assms(2) q(1,3) by linarith
    moreover have "?A \<union> set idx \<subseteq> {..<?n}" using idx(4) by auto
    then have "card (?A \<union> set idx) \<le> ?n" by (metis card_lessThan card_mono finite_lessThan)
    moreover have "card ?A + card (set idx) = card (?A \<union> set idx) + card (?A \<inter> set idx)" by (rule card_Un_Int) simp_all
    ultimately have "card (?A \<inter> set idx) \<noteq> 0" by linarith
    then have "?A \<inter> set idx \<noteq> {}" by (metis card.empty)
    then obtain i where i: "i \<in> set idx" "i < ?n" "?wl ! i \<le> wf" by auto
    obtain wreq wlat rreq rlat where row: "rows ! i = (wreq, wlat, rreq, rlat)" by (cases "rows ! i")
    have r: "row_ok (wreq, wlat, rreq, rlat)" using assms(3) i(2) row nth_mem by metis
    have "addDuration wf rreq = wf + rreq" using wfb r by (intro addDuration_exact) (simp_all add: row_ok_def)
    moreover have "addDuration (wf + rreq) (scDelta config) = wf + rreq + scDelta config"
      using wfb r q(5,6) by (intro addDuration_exact) (simp_all add: row_ok_def)
    ultimately have "?P i" using i(2,3) row r q(5) by (simp add: row_ok_def)
    then show ?thesis using i(1) by blast
  qed
  then show ?thesis using val by blast
qed

lemma simulateTrial_ok:
  assumes "config_ok config" and "samplers_ok s"
  shows "\<exists>b rng'. simulateTrial config s rng = Inr (b, rng') \<and> (scNumReplicas config < scReadQuorum config + scWriteQuorum config \<longrightarrow> b)"
proof -
  obtain rows rng' where "sampleReplicas s (nat (scNumReplicas config)) rng = Inr (rows, rng')"
      "length rows = nat (scNumReplicas config)" "\<forall>row \<in> set rows. row_ok row"
    using sampleReplicas_ok[OF assms(2)] by blast
  then show ?thesis using trialConsistent_ok[OF assms(1), of rows] by (auto simp: simulateTrial_def)
qed

lemma trialsLoop_ok:
  assumes "config_ok config" and "samplers_ok s"
  shows "\<exists>m rng'. trialsLoop config s n c rng = Inr (c + m, rng') \<and> m \<le> n
    \<and> (scNumReplicas config < scReadQuorum config + scWriteQuorum config \<longrightarrow> m = n)"
proof (induction n arbitrary: c rng)
  case (Suc n)
  obtain b r1 where b: "simulateTrial config s rng = Inr (b, r1)" "scNumReplicas config < scReadQuorum config + scWriteQuorum config \<longrightarrow> b"
    using simulateTrial_ok[OF assms] by blast
  obtain m r2 where "trialsLoop config s n (if b then c + 1 else c) r1 = Inr ((if b then c + 1 else c) + m, r2)" "m \<le> n"
      "scNumReplicas config < scReadQuorum config + scWriteQuorum config \<longrightarrow> m = n"
    using Suc by blast
  then show ?case using b by (intro exI[of _ "if b then m + 1 else m"] exI[of _ r2]) auto
qed simp

subsection \<open>The formula counts read quorums\<close>

lemma combLoop_binomial: "0 \<le> k \<Longrightarrow> k \<le> n \<Longrightarrow> int i \<le> k \<Longrightarrow> combLoop n k i = of_nat (nat (n - k) + i choose i)"
proof (induction i)
  case (Suc i)
  let ?m = "nat (n - k) + i"
  have "of_int (n - k + int (Suc i)) = (of_nat (Suc ?m) :: rat)" using Suc.prems by simp
  then have "combLoop n k (Suc i) = of_nat (?m choose i) * (of_nat (Suc ?m) / of_nat (Suc i))" using Suc by simp
  also have "\<dots> = of_nat (Suc ?m choose Suc i)"
    using Suc_times_binomial_eq[of ?m i] by (simp add: field_simps flip: of_nat_mult of_nat_Suc)
  finally show ?case by simp
qed simp

lemma combination_binomial: "combination n k = (if k < 0 \<or> k > n then 0 else of_nat (nat n choose nat k))"
proof (cases "0 < k \<and> k < n")
  case True
  let ?k = "if k > n - k then n - k else k"
  have "combination n k = combLoop n ?k (nat ?k)" using True by (simp add: combination_def Let_def)
  also have "\<dots> = of_nat (nat (n - ?k) + nat ?k choose nat ?k)" using True by (intro combLoop_binomial) auto
  also have "nat (n - ?k) + nat ?k = nat n" using True by auto
  also have "(nat n choose nat ?k) = (nat n choose nat k)"
  proof (cases "k > n - k")
    case True
    have "nat (n - k) = nat n - nat k" "nat k \<le> nat n" using \<open>0 < k \<and> k < n\<close> by auto
    then have "(nat n choose nat (n - k)) = (nat n choose nat k)" using binomial_symmetric by metis
    then show ?thesis using True by simp
  qed simp
  finally show ?thesis using True by simp
qed (auto simp: combination_def)

lemma binomial_grows: "m \<le> n \<Longrightarrow> (m choose r) \<le> (n choose r)"
proof (induction n)
  case (Suc n)
  have "(n choose r) \<le> (Suc n choose r)" by (cases r) simp_all
  then show ?case using Suc by (cases "m = Suc n") auto
qed simp

subsection \<open>Properties\<close>

text \<open>
  C25: on a valid configuration and non-empty samplers of latencies that are not negative,
  the simulation does not panic, counts at most as many consistent trials as it runs and
  gives a probability between 0 and 1; when read and write quorums overlap, every trial is
  consistent and the probability is 1. An invalid configuration panics with the error of the
  validation.
\<close>

theorem simulation_sound:
  assumes "samplers_ok s" and "scDelta config < 2 ^ 60"
  shows "case validateDeltaPConfig config of
      Some err \<Rightarrow> SimulateDeltaP config s rng = Inl (ExplicitPanic err)
    | None \<Rightarrow> (\<exists>res rng'. SimulateDeltaP config s rng = Inr (res, rng') \<and> int (ConsistentTrials res) \<le> scIterations config
        \<and> 0 \<le> Probability res \<and> Probability res \<le> 1
        \<and> (scNumReplicas config < scReadQuorum config + scWriteQuorum config \<longrightarrow> Probability res = 1))"
proof (cases "validateDeltaPConfig config")
  case None
  then have it: "0 < scIterations config" by (auto simp: validateDeltaPConfig_def split: if_splits)
  obtain m rng' where m: "trialsLoop config s (nat (scIterations config)) 0 rng = Inr (m, rng')" "m \<le> nat (scIterations config)"
      "scNumReplicas config < scReadQuorum config + scWriteQuorum config \<longrightarrow> m = nat (scIterations config)"
    using trialsLoop_ok[OF _ assms(1), of config "nat (scIterations config)" 0 rng] None assms(2) by (auto simp: config_ok_def)
  have le: "int m \<le> scIterations config" using m(2) it by linarith
  then have q: "(of_nat m :: rat) \<le> of_int (scIterations config)" by (metis of_int_le_iff of_int_of_nat_eq)
  let ?res = "\<lparr>ConsistentTrials = m, resIterations = scIterations config, Probability = of_nat m / of_int (scIterations config)\<rparr>"
  have all: "(of_nat (nat (scIterations config)) :: rat) = of_int (scIterations config)" using it by simp
  have "SimulateDeltaP config s rng = Inr (?res, rng')" using None m(1) by (simp add: SimulateDeltaP_def)
  moreover have "0 \<le> Probability ?res" "Probability ?res \<le> 1" using q it by (simp_all add: divide_le_eq_1)
  moreover have "scNumReplicas config < scReadQuorum config + scWriteQuorum config \<longrightarrow> Probability ?res = 1"
    using m(3) all it by simp
  ultimately show ?thesis using le unfolding None option.case by (intro exI[of _ ?res] exI[of _ rng']) auto
qed (simp add: SimulateDeltaP_def)

definition sampleConfig :: SimulationConfig where
  "sampleConfig = \<lparr>scNumReplicas = 3, scReadQuorum = 2, scWriteQuorum = 2, scDelta = 0, scDeltaPoints = 0, scK = 1,
     scIterations = 10, scYMin = 0, scYMax = 1, scEmitZoomPlot = False\<rparr>"

definition sampleSamplers :: WARSSamplers where
  "sampleSamplers = \<lparr>WriteRequest = \<lparr>samples = [4, 9]\<rparr>, WriteAck = \<lparr>samples = [1]\<rparr>, ReadRequest = \<lparr>samples = [2]\<rparr>, ReadResponse = \<lparr>samples = [3, 5]\<rparr>\<rparr>"

theorem simulation_sound_witness:
  "\<exists>res rng'. SimulateDeltaP sampleConfig sampleSamplers \<lparr>draws = (\<lambda>n. n), rngPos = 0\<rparr> = Inr (res, rng') \<and> Probability res = 1"
  using simulation_sound[of sampleSamplers sampleConfig "\<lparr>draws = (\<lambda>n. n), rngPos = 0\<rparr>"]
  by (auto simp: samplers_ok_def sampleSamplers_def sampleConfig_def validateDeltaPConfig_def)



end
