(* ===== verification/LabRpc.thy ===== *)
theory LabRpc
  imports GoFloat GoStd
begin

text \<open>
  The simulated network, \<^verbatim>\<open>labrpc/labrpc.go\<close>: client ends, the connection table, delivery of a
  request with loss and delay, and the dispatch to a service. Names of ends and servers are
  strings; a \<^verbatim>\<open>*Server\<close> is its address, so that the comparison of pointers is kept; the state
  behind the handlers is a type variable \<open>'w\<close>. Random draws and the later network state that a
  delivery observes are arguments. \<^verbatim>\<open>log.Fatalf\<close> ends the process, as a panic does. Encoded
  arguments are bytes: \<^verbatim>\<open>labgob\<close> is not modelled.
\<close>

subsection \<open>Constants and delays\<close>

definition SHORTDELAY :: int where "SHORTDELAY = 5"
definition LONGDELAY :: int where "LONGDELAY = 3000"
definition LONGTAILBASEDELAY :: int where "LONGTAILBASEDELAY = 25"
definition LONGTAILMINDELAY :: int where "LONGTAILMINDELAY = 50"
definition LONGTAILSHAPE :: int where "LONGTAILSHAPE = 10"
definition LongReorderPermille :: int where "LongReorderPermille = 10"

lemmas labrpc_constants = SHORTDELAY_def LONGDELAY_def LONGTAILBASEDELAY_def LONGTAILMINDELAY_def LONGTAILSHAPE_def
  LongReorderPermille_def

text \<open>The stored bound of \<^verbatim>\<open>uniformShortDelayNs\<close>.\<close>

definition SetUniformShortDelayMax :: "Duration \<Rightarrow> int" where
  "SetUniformShortDelayMax d = (if d \<le> 0 then 0 else d)"

text \<open>How long a request sleeps before dispatch; \<open>draw\<close> is the random integer, not negative.\<close>

definition sleepShortDispatchDelay :: "int \<Rightarrow> int \<Rightarrow> Duration" where
  "sleepShortDispatchDelay maxNs draw =
     (if maxNs > 0 then (if maxNs = 1 then 1 else draw mod maxNs)
      else (draw mod SHORTDELAY) * Millisecond)"

text \<open>
  The exponent is written \<^verbatim>\<open>1/LONGTAILSHAPE\<close> with an untyped integer constant, so it is an
  integer quotient; \<open>u\<close> is the draw of \<^verbatim>\<open>rand.Float64\<close>. A quotient that is not finite does not
  occur, since the power is 1.
\<close>

definition longTailDelayMs :: "int \<Rightarrow> rat \<Rightarrow> int" where
  "longTailDelayMs minMs u =
     (if minMs \<ge> LONGDELAY then LONGDELAY
      else let scale = (if minMs < LONGTAILMINDELAY then LONGTAILMINDELAY else minMs);
               power = (case finitePow (1 - u) (1 div LONGTAILSHAPE) of None \<Rightarrow> 0 | Some p \<Rightarrow> p);
               delay = goTruncate (case finiteDiv (of_int scale) power of None \<Rightarrow> 0 | Some q \<Rightarrow> q)
           in if delay > LONGDELAY then LONGDELAY else delay)"

subsection \<open>Messages, ends and the network\<close>

record reqMsg =
  rqEndname :: string
  svcMeth :: string
  rqArgs :: bytes

record replyMsg =
  rpOk :: bool
  rpReply :: bytes

abbreviation noReply :: replyMsg where
  "noReply \<equiv> \<lparr>rpOk = False, rpReply = []\<rparr>"

type_synonym serverPtr = nat

record Network =
  reliable :: bool
  longDelays :: bool
  longReordering :: bool
  netEnds :: "string set"
  enabled :: "string \<rightharpoonup> bool"
  servers :: "string \<rightharpoonup> serverPtr option"
  connections :: "string \<rightharpoonup> string option"
  rpcCount :: int
  rpcBytes :: int

definition MakeNetwork :: Network where
  "MakeNetwork = \<lparr>reliable = True, longDelays = False, longReordering = False, netEnds = {}, enabled = Map.empty,
     servers = Map.empty, connections = Map.empty, rpcCount = 0, rpcBytes = 0\<rparr>"

definition Reliable :: "bool \<Rightarrow> Network \<Rightarrow> Network" where
  "Reliable yes rn = rn\<lparr>reliable := yes\<rparr>"

definition IsReliable :: "Network \<Rightarrow> bool" where
  "IsReliable rn = reliable rn"

definition LongReordering :: "bool \<Rightarrow> Network \<Rightarrow> Network" where
  "LongReordering yes rn = rn\<lparr>longReordering := yes\<rparr>"

definition LongDelays :: "bool \<Rightarrow> Network \<Rightarrow> Network" where
  "LongDelays yes rn = rn\<lparr>longDelays := yes\<rparr>"

definition IsLongDelays :: "Network \<Rightarrow> bool" where
  "IsLongDelays rn = longDelays rn"

text \<open>A missing key of a Go map reads as the zero value: \<open>False\<close> or \<^verbatim>\<open>nil\<close>.\<close>

definition endEnabled :: "Network \<Rightarrow> string \<Rightarrow> bool" where
  "endEnabled rn endname = (case enabled rn endname of None \<Rightarrow> False | Some b \<Rightarrow> b)"

definition connectedTo :: "Network \<Rightarrow> string \<Rightarrow> string option" where
  "connectedTo rn endname = (case connections rn endname of None \<Rightarrow> None | Some s \<Rightarrow> s)"

definition serverNamed :: "Network \<Rightarrow> string \<Rightarrow> serverPtr option" where
  "serverNamed rn servername = (case servers rn servername of None \<Rightarrow> None | Some s \<Rightarrow> s)"

definition readEndnameInfo :: "string \<Rightarrow> Network \<Rightarrow> bool \<times> string option \<times> serverPtr option \<times> bool \<times> bool" where
  "readEndnameInfo endname rn =
     (let servername = connectedTo rn endname
      in (endEnabled rn endname, servername,
          (case servername of None \<Rightarrow> None | Some s \<Rightarrow> serverNamed rn s), reliable rn, longReordering rn))"

definition isServerDead :: "string \<Rightarrow> string \<Rightarrow> serverPtr \<Rightarrow> Network \<Rightarrow> bool" where
  "isServerDead endname servername server rn \<longleftrightarrow> endEnabled rn endname = False \<or> serverNamed rn servername \<noteq> Some server"

definition MakeEnd :: "string \<Rightarrow> Network \<Rightarrow> panic + Network" where
  "MakeEnd endname rn =
     (if endname \<in> netEnds rn then Inl (ExplicitPanic ''MakeEnd: already exists'')
      else Inr (rn\<lparr>netEnds := insert endname (netEnds rn), enabled := (enabled rn)(endname \<mapsto> False),
                   connections := (connections rn)(endname \<mapsto> None)\<rparr>))"

definition LookupEnd :: "string \<Rightarrow> Network \<Rightarrow> panic + string" where
  "LookupEnd endname rn =
     (if endname \<notin> netEnds rn then Inl (ExplicitPanic ''MakeEnd: doesn't exists'') else Inr endname)"

definition DeleteEnd :: "string \<Rightarrow> Network \<Rightarrow> panic + Network" where
  "DeleteEnd endname rn =
     (if endname \<notin> netEnds rn then Inl (ExplicitPanic ''MakeEnd: doesn't exists'')
      else Inr (rn\<lparr>netEnds := netEnds rn - {endname}, enabled := (enabled rn)(endname := None),
                   connections := (connections rn)(endname := None)\<rparr>))"

definition AddServer :: "string \<Rightarrow> serverPtr \<Rightarrow> Network \<Rightarrow> Network" where
  "AddServer servername rs rn = rn\<lparr>servers := (servers rn)(servername \<mapsto> Some rs)\<rparr>"

definition DeleteServer :: "string \<Rightarrow> Network \<Rightarrow> Network" where
  "DeleteServer servername rn = rn\<lparr>servers := (servers rn)(servername \<mapsto> None)\<rparr>"

definition Connect :: "string \<Rightarrow> string \<Rightarrow> Network \<Rightarrow> Network" where
  "Connect endname servername rn = rn\<lparr>connections := (connections rn)(endname \<mapsto> Some servername)\<rparr>"

definition Enable :: "string \<Rightarrow> bool \<Rightarrow> Network \<Rightarrow> Network" where
  "Enable endname en rn = rn\<lparr>enabled := (enabled rn)(endname \<mapsto> en)\<rparr>"

text \<open>The counters that the network's goroutine advances for every request it takes.\<close>

definition countRequest :: "reqMsg \<Rightarrow> Network \<Rightarrow> Network" where
  "countRequest req rn = rn\<lparr>rpcCount := rpcCount rn + 1, rpcBytes := rpcBytes rn + int (length (rqArgs req))\<rparr>"

definition GetTotalCount :: "Network \<Rightarrow> int" where
  "GetTotalCount rn = rpcCount rn"

definition GetTotalBytes :: "Network \<Rightarrow> int" where
  "GetTotalBytes rn = rpcBytes rn"

subsection \<open>Servers and services\<close>

text \<open>What reflection tells of a method.\<close>

record MethodInfo =
  mName :: string
  mExported :: bool
  mNumIn :: nat
  mReplyIsPtr :: bool
  mNumOut :: nat

record 'w Service =
  svcName :: string
  svcMethods :: "string \<rightharpoonup> (bytes \<Rightarrow> 'w \<Rightarrow> bytes \<times> 'w)"

definition isHandler :: "MethodInfo \<Rightarrow> bool" where
  "isHandler m \<longleftrightarrow> \<not> (\<not> mExported m \<or> mNumIn m \<noteq> 3 \<or> \<not> mReplyIsPtr m \<or> mNumOut m \<noteq> 0)"

definition MakeService :: "string \<Rightarrow> (MethodInfo \<times> (bytes \<Rightarrow> 'w \<Rightarrow> bytes \<times> 'w)) list \<Rightarrow> 'w Service" where
  "MakeService name methods =
     \<lparr>svcName = name, svcMethods = fold (\<lambda>(m, f) ms. if isHandler m then ms(mName m \<mapsto> f) else ms) methods Map.empty\<rparr>"

definition serviceDispatch :: "string \<Rightarrow> reqMsg \<Rightarrow> 'w Service \<Rightarrow> 'w \<Rightarrow> panic + replyMsg \<times> 'w" where
  "serviceDispatch methname req svc w =
     (case svcMethods svc methname of
        Some function \<Rightarrow> (let (rep, w') = function (rqArgs req) w in Inr (\<lparr>rpOk = True, rpReply = rep\<rparr>, w'))
      | None \<Rightarrow> Inl (ExplicitPanic ''labrpc.Service.dispatch(): unknown method''))"

type_synonym 'w Fdispatch = "string \<Rightarrow> bytes \<Rightarrow> 'w \<Rightarrow> (bytes \<times> bool) \<times> 'w"

record 'w Server =
  services :: "string \<rightharpoonup> 'w Service"
  srvCount :: int
  dispatchf :: "'w Fdispatch option"

definition MakeServer :: "'w Server" where
  "MakeServer = \<lparr>services = Map.empty, srvCount = 0, dispatchf = None\<rparr>"

definition SetDispatch :: "'w Fdispatch \<Rightarrow> 'w Server \<Rightarrow> 'w Server" where
  "SetDispatch f rs = rs\<lparr>dispatchf := Some f\<rparr>"

definition AddService :: "'w Service \<Rightarrow> 'w Server \<Rightarrow> 'w Server" where
  "AddService svc rs = rs\<lparr>services := (services rs)(svcName svc \<mapsto> svc)\<rparr>"

text \<open>\<^verbatim>\<open>strings.LastIndex(s, ".")\<close>.\<close>

definition lastDot :: "string \<Rightarrow> nat option" where
  "lastDot s = (let is = filter (\<lambda>i. s ! i = CHR ''.'') [0..<length s] in if is = [] then None else Some (last is))"

definition serverDispatch :: "reqMsg \<Rightarrow> 'w Server \<Rightarrow> 'w \<Rightarrow> panic + replyMsg \<times> 'w Server \<times> 'w" where
  "serverDispatch req rs w =
     (let rs = rs\<lparr>srvCount := srvCount rs + 1\<rparr> in
      case lastDot (svcMeth req) of
        None \<Rightarrow> Inl IndexOutOfRange
      | Some dot \<Rightarrow>
          let serviceName = take dot (svcMeth req);
              methodName = drop (dot + 1) (svcMeth req)
          in case dispatchf rs of
               Some f \<Rightarrow> (let ((rep, ok), w') = f (svcMeth req) (rqArgs req) w in Inr (\<lparr>rpOk = ok, rpReply = rep\<rparr>, rs, w'))
             | None \<Rightarrow>
                 (case services rs serviceName of
                    Some service \<Rightarrow> map_sum id (\<lambda>(rep, w'). (rep, rs, w')) (serviceDispatch methodName req service w)
                  | None \<Rightarrow> Inl (ExplicitPanic ''labrpc.Server.dispatch(): unknown service'')))"

definition GetCount :: "'w Server \<Rightarrow> int" where
  "GetCount rs = srvCount rs"

subsection \<open>Delivery of one request\<close>

text \<open>
  The draws of one delivery, the drop rate in force, whether the handler returned before the
  server was seen dead, and the network at the time of the reply.
\<close>

record Delivery =
  dropDraw :: int
  replyDraw :: int
  reorderDraw :: int
  tailDraw :: rat
  timeoutDraw :: int
  dropPermille :: int
  handlerReturned :: bool
  laterNet :: Network

text \<open>
  The reply, the delay in milliseconds after which it is sent, the number of reply bytes that
  are counted, and the state behind the handler. The handler runs to its end even when nobody
  waits for it.
\<close>

definition processReq :: "Delivery \<Rightarrow> (string \<Rightarrow> reqMsg \<Rightarrow> 'w \<Rightarrow> replyMsg \<times> 'w) \<Rightarrow> reqMsg \<Rightarrow> Network \<Rightarrow> 'w
    \<Rightarrow> replyMsg \<times> int \<times> int \<times> 'w" where
  "processReq d dispatch req rn w =
     (case readEndnameInfo (rqEndname req) rn of
        (True, Some servername, Some server, rel, longreordering) \<Rightarrow>
          if rel = False \<and> dropDraw d mod 1000 < dropPermille d then (noReply, 0, 0, w)
          else let (reply, w') = dispatch servername req w;
                   serverDead = isServerDead (rqEndname req) servername server (laterNet d)
               in if handlerReturned d = False \<or> serverDead = True then (noReply, 0, 0, w')
                  else let dropReply = (\<not> rel \<and> replyDraw d mod 1000 < dropPermille d);
                           longDelay = (longreordering \<and> reorderDraw d mod 1000 < LongReorderPermille)
                       in if dropReply then (noReply, 0, 0, w')
                          else if longDelay then (reply, longTailDelayMs LONGTAILBASEDELAY (tailDraw d), int (length (rpReply reply)), w')
                          else (reply, 0, int (length (rpReply reply)), w')
      | _ \<Rightarrow> (noReply, if IsLongDelays rn then longTailDelayMs 0 (tailDraw d) else timeoutDraw d mod 100, 0, w))"

text \<open>
  \<open>ClientEnd.Call\<close> with encoded arguments and reply: \<open>callf\<close> is the replacement installed by
  \<open>SetCall\<close>, if any, and \<open>netDone\<close> holds when the network was cleaned up.
\<close>

type_synonym 'w Fcall = "string \<Rightarrow> string \<Rightarrow> bytes \<Rightarrow> 'w \<Rightarrow> (bytes \<times> bool) \<times> 'w"

definition clientCall :: "'w Fcall option \<Rightarrow> bool \<Rightarrow> Delivery \<Rightarrow> (string \<Rightarrow> reqMsg \<Rightarrow> 'w \<Rightarrow> replyMsg \<times> 'w)
    \<Rightarrow> reqMsg \<Rightarrow> Network \<Rightarrow> 'w \<Rightarrow> bytes option \<times> Network \<times> 'w" where
  "clientCall callf netDone d dispatch req rn w =
     (case callf of
        Some f \<Rightarrow> (let ((rep, ok), w') = f (rqEndname req) (svcMeth req) (rqArgs req) w
                   in (if \<not> ok then None else Some rep, rn, w'))
      | None \<Rightarrow>
          if netDone then (None, rn, w)
          else let rn = countRequest req rn;
                   (rep, _, sent, w') = processReq d dispatch req rn w
               in (if rpOk rep then Some (rpReply rep) else None, rn\<lparr>rpcBytes := rpcBytes rn + sent\<rparr>, w'))"

subsection \<open>What a delivery guarantees\<close>

definition linked :: "Network \<Rightarrow> string \<Rightarrow> string \<Rightarrow> serverPtr \<Rightarrow> bool" where
  "linked rn endname servername server \<longleftrightarrow> endEnabled rn endname \<and> connectedTo rn endname = Some servername
     \<and> serverNamed rn servername = Some server"

lemma readEndnameInfo_linked:
  "linked rn e s p \<Longrightarrow> readEndnameInfo e rn = (True, Some s, Some p, reliable rn, longReordering rn)"
  by (simp add: linked_def readEndnameInfo_def)

lemma processReq_linked:
  assumes "linked rn (rqEndname req) s p"
  shows "processReq d dispatch req rn w =
    (if \<not> reliable rn \<and> dropDraw d mod 1000 < dropPermille d then (noReply, 0, 0, w)
     else if \<not> handlerReturned d \<or> isServerDead (rqEndname req) s p (laterNet d)
          \<or> \<not> reliable rn \<and> replyDraw d mod 1000 < dropPermille d then (noReply, 0, 0, snd (dispatch s req w))
     else (fst (dispatch s req w),
           if longReordering rn \<and> reorderDraw d mod 1000 < LongReorderPermille then longTailDelayMs LONGTAILBASEDELAY (tailDraw d) else 0,
           int (length (rpReply (fst (dispatch s req w)))), snd (dispatch s req w)))"
  by (auto simp: processReq_def readEndnameInfo_linked[OF assms] Let_def split: prod.splits)

lemma processReq_unlinked:
  assumes "\<nexists>s p. linked rn (rqEndname req) s p"
  shows "\<exists>ms. processReq d dispatch req rn w = (noReply, ms, 0, w)"
proof -
  let ?c = "connectedTo rn (rqEndname req)"
  have "\<not> endEnabled rn (rqEndname req) \<or> ?c = None \<or> serverNamed rn (the ?c) = None"
  proof (rule ccontr)
    assume "\<not> ?thesis"
    then obtain s p where "endEnabled rn (rqEndname req)" "?c = Some s" "serverNamed rn s = Some p" by auto
    then show False using assms by (auto simp: linked_def)
  qed
  then show ?thesis
    by (cases ?c) (auto simp: processReq_def readEndnameInfo_def Let_def split: option.splits bool.splits)
qed

lemma linked_countRequest [simp]: "linked (countRequest req rn) e s p = linked rn e s p"
  by (simp add: linked_def countRequest_def endEnabled_def connectedTo_def serverNamed_def)

lemma countRequest_frame [simp]: "reliable (countRequest req rn) = reliable rn" "longReordering (countRequest req rn) = longReordering rn"
  by (simp_all add: countRequest_def)

lemma linked_unique: "linked rn e s p \<Longrightarrow> linked rn e s' p' \<Longrightarrow> s = s' \<and> p = p'"
  by (simp add: linked_def)

lemma lastDot_split:
  assumes "CHR ''.'' \<notin> set m"
  shows "lastDot (s @ ''.'' @ m) = Some (length s)"
proof -
  have dots: "filter (\<lambda>i. (s @ ''.'' @ m) ! i = CHR ''.'') [0..<length (s @ ''.'' @ m)] =
      filter (\<lambda>i. s ! i = CHR ''.'') [0..<length s] @ [length s]"
  proof -
    have up: "[0..<length (s @ ''.'' @ m)] = [0..<length s] @ [length s] @ [Suc (length s)..<Suc (length s) + length m]"
    proof -
      have "[0..<length s + Suc (length m)] = [0..<length s] @ [length s..<length s + Suc (length m)]"
        by (rule upt_add_eq_append) simp
      moreover have "[length s..<length s + Suc (length m)] = length s # [Suc (length s)..<length s + Suc (length m)]"
        by (rule upt_conv_Cons) simp
      ultimately show ?thesis by simp
    qed
    have "filter (\<lambda>i. (s @ ''.'' @ m) ! i = CHR ''.'') [Suc (length s)..<Suc (length s) + length m] = []"
    proof (rule filter_False, rule ballI)
      fix i assume "i \<in> set [Suc (length s)..<Suc (length s) + length m]"
      then have "(s @ ''.'' @ m) ! i = m ! (i - Suc (length s))" "i - Suc (length s) < length m"
        by (auto simp: nth_append nth_Cons' Suc_le_eq)
      then show "(s @ ''.'' @ m) ! i \<noteq> CHR ''.''" using assms by (metis nth_mem)
    qed
    moreover have "filter (\<lambda>i. (s @ ''.'' @ m) ! i = CHR ''.'') [0..<length s] = filter (\<lambda>i. s ! i = CHR ''.'') [0..<length s]"
      by (rule filter_cong) (auto simp: nth_append)
    ultimately show ?thesis unfolding up by simp
  qed
  show ?thesis unfolding lastDot_def dots by simp
qed

subsection \<open>A small network\<close>

definition sampleNet :: Network where
  "sampleNet = Enable ''e'' True (Connect ''e'' ''s'' (AddServer ''s'' 7 (MakeNetwork\<lparr>netEnds := {''e''}\<rparr>)))"

definition sampleDelivery :: Delivery where
  "sampleDelivery = \<lparr>dropDraw = 0, replyDraw = 0, reorderDraw = 0, tailDraw = 0, timeoutDraw = 0, dropPermille = 10,
     handlerReturned = True, laterNet = sampleNet\<rparr>"

lemma sampleNet_linked: "linked sampleNet ''e'' ''s'' 7" "reliable sampleNet"
  by (simp_all add: sampleNet_def linked_def endEnabled_def connectedTo_def serverNamed_def Enable_def Connect_def
      AddServer_def MakeNetwork_def)

subsection \<open>Properties\<close>

text \<open>
  C19: a call over the network runs the handler of the linked server at most once, and not at
  all over an unlinked or disabled end. A reply is returned only when the handler ran, and it
  is the handler's reply; on a reliable network whose link still stands when the handler
  returns, the call succeeds if the handler does. A failed call leaves open whether the
  handler ran.
\<close>

theorem call_at_most_once:
  assumes "clientCall None netDone d dispatch req rn w = (res, rn', w')"
  shows "(w' = w \<or> (\<exists>s p. linked rn (rqEndname req) s p \<and> w' = snd (dispatch s req w)))
    \<and> (\<forall>rep. res = Some rep \<longrightarrow> (\<exists>s p. linked rn (rqEndname req) s p
          \<and> dispatch s req w = (\<lparr>rpOk = True, rpReply = rep\<rparr>, w') \<and> \<not> isServerDead (rqEndname req) s p (laterNet d)))
    \<and> (\<forall>s p. \<not> netDone \<and> reliable rn \<and> linked rn (rqEndname req) s p \<and> handlerReturned d \<and> \<not> isServerDead (rqEndname req) s p (laterNet d)
          \<and> rpOk (fst (dispatch s req w)) \<longrightarrow> res = Some (rpReply (fst (dispatch s req w))))"
proof (cases "\<exists>s p. linked rn (rqEndname req) s p")
  case True
  then obtain s p where l: "linked rn (rqEndname req) s p" by blast
  then have "\<And>s' p'. linked rn (rqEndname req) s' p' \<longleftrightarrow> s' = s \<and> p' = p" using linked_unique by metis
  moreover obtain rep w1 where "dispatch s req w = (rep, w1)" by fastforce
  moreover have "linked (countRequest req rn) (rqEndname req) s p" using l by simp
  note processReq_linked[OF this, of d dispatch w]
  ultimately show ?thesis
    using assms by (auto simp: clientCall_def Let_def split: if_splits prod.splits)
next
  case False
  then obtain ms where "processReq d dispatch req (countRequest req rn) w = (noReply, ms, 0, w)"
    using processReq_unlinked[of "countRequest req rn" req d dispatch w] by auto
  then show ?thesis using assms False by (auto simp: clientCall_def split: if_splits)
qed

theorem call_at_most_once_witness:
  "\<exists>rn'. clientCall None False sampleDelivery (\<lambda>s req w. (\<lparr>rpOk = True, rpReply = rqArgs req\<rparr>, w + 1))
      \<lparr>rqEndname = ''e'', svcMeth = ''KVServer.CoordGet'', rqArgs = [1, 2]\<rparr> sampleNet (0::nat) = (Some [1, 2], rn', 1)"
proof -
  let ?req = "\<lparr>rqEndname = ''e'', svcMeth = ''KVServer.CoordGet'', rqArgs = [1, 2]\<rparr>"
  let ?f = "\<lambda>s (req :: reqMsg) w. (\<lparr>rpOk = True, rpReply = rqArgs req\<rparr>, w + 1 :: nat)"
  obtain res rn' w' where c: "clientCall None False sampleDelivery ?f ?req sampleNet 0 = (res, rn', w')" by (metis surj_pair)
  have "\<not> isServerDead ''e'' ''s'' 7 sampleNet" using sampleNet_linked(1) by (simp add: isServerDead_def linked_def)
  then have "res = Some [1, 2]"
    using call_at_most_once[OF c] sampleNet_linked by (auto simp: sampleDelivery_def)
  moreover from this have "w' = 1" using call_at_most_once[OF c] by auto
  ultimately show ?thesis using c by simp
qed

text \<open>
  the delay that is meant to follow a Pareto distribution is a constant: the exponent
  \<open>1/LONGTAILSHAPE\<close> is an integer division and gives 0, so the delay is the scale, whatever the
  random draw, and never reaches the long tail.
\<close>

theorem long_tail_is_constant:
  "longTailDelayMs minMs u = (if minMs \<ge> LONGDELAY then LONGDELAY else max minMs LONGTAILMINDELAY)
   \<and> longTailDelayMs LONGTAILBASEDELAY u = 50 \<and> longTailDelayMs 0 u = 50"
  by (auto simp: longTailDelayMs_def finitePow_def finiteDiv_def labrpc_constants)

text \<open>
  a request for \<^verbatim>\<open>Service.Method\<close> reaches the handler of that method when the service was
  added and the method qualifies as a handler, and counts once; a method that does not
  qualify cannot be called.
\<close>

theorem dispatch_routes:
  assumes "CHR ''.'' \<notin> set (mName m)" and "svc = MakeService name (ms @ [(m, f)])" and "dispatchf rs = None"
    and "svcMeth req = name @ ''.'' @ mName m" and "mName m \<notin> (mName \<circ> fst) ` set ms"
  shows "serverDispatch req (AddService svc rs) w =
    (if isHandler m then Inr (\<lparr>rpOk = True, rpReply = fst (f (rqArgs req) w)\<rparr>,
        (AddService svc rs)\<lparr>srvCount := srvCount rs + 1\<rparr>, snd (f (rqArgs req) w))
     else Inl (ExplicitPanic ''labrpc.Service.dispatch(): unknown method''))"
proof -
  have "fold (\<lambda>(m, f) ms. if isHandler m then ms(mName m \<mapsto> f) else ms) ms tbl x = tbl x"
    if "x \<notin> (mName \<circ> fst) ` set ms" for ms tbl and x :: string
    using that by (induction ms arbitrary: tbl) auto
  from this[OF assms(5), of Map.empty]
  have lookup: "svcMethods svc (mName m) = (if isHandler m then Some f else None)" using assms(2) by (simp add: MakeService_def)
  have "lastDot (svcMeth req) = Some (length name)" using lastDot_split[OF assms(1), of name] assms(4) by simp
  moreover have "svcName svc = name" using assms(2) by (simp add: MakeService_def)
  ultimately show ?thesis
    using lookup assms(3,4)
    by (simp add: serverDispatch_def serviceDispatch_def AddService_def Let_def split: prod.splits)
qed

definition sampleMethod :: MethodInfo where
  "sampleMethod = \<lparr>mName = ''CoordGet'', mExported = True, mNumIn = 3, mReplyIsPtr = True, mNumOut = 0\<rparr>"

theorem dispatch_routes_witness:
  "\<exists>rs. serverDispatch \<lparr>rqEndname = ''e'', svcMeth = ''KVServer.CoordGet'', rqArgs = [1]\<rparr>
      (AddService (MakeService ''KVServer'' [(sampleMethod, \<lambda>args w. (args, w + 1))]) MakeServer) (0::nat) =
    Inr (\<lparr>rpOk = True, rpReply = [1]\<rparr>, rs, 1)"
  using dispatch_routes[of sampleMethod "MakeService ''KVServer'' [(sampleMethod, \<lambda>args w. (args, w + 1))]" "''KVServer''" "[]"
      "\<lambda>args w. (args, w + 1)" "MakeServer" "\<lparr>rqEndname = ''e'', svcMeth = ''KVServer.CoordGet'', rqArgs = [1]\<rparr>" "0::nat"]
  by (simp add: sampleMethod_def isHandler_def MakeServer_def)

end
