(* ===== verification/PBSFailures.thy ===== *)
theory PBSFailures
  imports Simulator Membership LabRpc
begin

text \<open>
  Failure injection of the experiment driver \<^verbatim>\<open>kvsrv/pbs_demo.go\<close>: the options of an
  experiment, how many failures fit into a run, which replica fails when, and the loop that
  takes replicas down and up again. The loop is the only writer of the link table in an
  experiment. Clock readings and the answers of the cancellation context are given by
  \<open>FailureEnv\<close>, indexed by the position of the reading; a sleep records the time asked for and
  the network it starts with.
\<close>

subsection \<open>Scenarios and options\<close>

record PBSDemoScenario =
  scenarioName :: string
  scenarioLabel :: string
  EnableReadRepair :: bool
  EnableAntiEntropy :: bool
  EnableHintedHandoff :: bool
  FailureMode :: string

record PBSDemoOptions =
  OutputDir :: string
  Keys :: "string list"
  WorkloadDuration :: Duration
  NumWriters :: int
  SleepBetweenOps :: Duration
  NumReaders :: int
  ReadSleep :: Duration
  SleepJitterRatio :: rat
  NumNodes :: int
  UnreliableNetwork :: bool
  LongReorderingNet :: bool
  RandomCoordinator :: bool
  FailureStartAfter :: Duration
  FailureDownDuration :: Duration
  FailureUpDuration :: Duration
  FailureRecoverAfter :: Duration
  FailureOverlap :: Duration
  DeadReplicaPickSeed :: int
  PlotConfig :: SimulationConfig
  Scenarios :: "PBSDemoScenario list"

fun scenariosUseSingleDeadReplica :: "PBSDemoScenario list \<Rightarrow> bool" where
  "scenariosUseSingleDeadReplica [] = False"
| "scenariosUseSingleDeadReplica (s # scenarios) =
     (if FailureMode s = ''single_dead_replica'' then True else scenariosUseSingleDeadReplica scenarios)"

text \<open>The errors that the driver reports; the comment names the text of the source.\<close>

datatype DemoError =
    UpNeedsDown \<comment> \<open>FailureUpDuration requires FailureDownDuration\<close>
  | OverlapNegative
  | OverlapNeedsUp
  | OverlapTooLong
  | RecoverBeforeStart
  | WorkloadNotPositive
  | KeyEmpty nat
  | WritersNotPositive
  | ReadersNotPositive
  | NodesNotPositive
  | ReplicasNotPositive
  | ReplicasExceedNodes
  | ReadQuorumRange
  | WriteQuorumRange
  | UnsupportedFailureMode string
  | TooFewReplicas
  | OKWithoutObjects
  | InitialWriteFailed nat Err
  | InitialWriteExhausted nat
  | NoCandidates string
  | ReaderUnexpected Err
  | WriterPutFailed Err

definition validatePBSDemoFailureOptions :: "PBSDemoOptions \<Rightarrow> DemoError option" where
  "validatePBSDemoFailureOptions opts =
     (if FailureUpDuration opts > 0 \<and> FailureDownDuration opts \<le> 0 then Some UpNeedsDown
      else if FailureOverlap opts < 0 then Some OverlapNegative
      else if FailureOverlap opts > 0 \<and> FailureUpDuration opts \<le> 0 then Some OverlapNeedsUp
      else if FailureOverlap opts > 0 \<and> FailureDownDuration opts \<le> FailureOverlap opts then Some OverlapTooLong
      else if FailureStartAfter opts > 0 \<and> FailureRecoverAfter opts > 0 \<and> FailureDownDuration opts = 0
              \<and> FailureRecoverAfter opts \<le> FailureStartAfter opts then Some RecoverBeforeStart
      else None)"

subsection \<open>The number of failures and the victims\<close>

text \<open>The loop over \<open>ts\<close> need not end for a cycle that is not positive: \<open>None\<close> is divergence.\<close>

partial_function (option) phaseLoop :: "Duration \<Rightarrow> Duration \<Rightarrow> Duration \<Rightarrow> int \<Rightarrow> int option" where
  "phaseLoop cycle tRun ts n = (if ts < tRun then phaseLoop cycle tRun (addDuration ts cycle) (n + 1) else Some n)"

definition countPBSDemoScheduledFailurePhases :: "PBSDemoOptions \<Rightarrow> int option" where
  "countPBSDemoScheduledFailurePhases opts =
     (let s = FailureStartAfter opts; d = FailureDownDuration opts; u = FailureUpDuration opts;
          tRun = WorkloadDuration opts
      in if s = 0 \<and> d = 0 \<and> u = 0 \<and> FailureRecoverAfter opts = 0 then Some 1
         else if u > 0 then (if s \<ge> tRun then Some 0 else phaseLoop (addDuration d u) tRun s 0)
         else if s \<ge> tRun then Some 0
         else Some 1)"

text \<open>The preference list is an argument: the function only reads it off the ring.\<close>

definition cycleVictims :: "string list \<Rightarrow> nat \<Rightarrow> string list" where
  "cycleVictims prefList n = map (\<lambda>i. prefList ! (i mod length prefList)) [0..<n]"

definition buildPBSFailureReplicaSequence :: "string \<Rightarrow> ConsistentHashRing \<Rightarrow> int \<Rightarrow> PBSDemoScenario
    \<Rightarrow> (panic + DemoError + string list) option" where
  "buildPBSFailureReplicaSequence key chr n scenario =
     (if n \<le> 0 then Some (Inr (Inr []))
      else if FailureMode scenario \<noteq> ''single_dead_replica''
      then Some (Inr (Inl (UnsupportedFailureMode (FailureMode scenario))))
      else map_option (map_sum id (\<lambda>prefList.
             if length prefList < 2 then Inl TooFewReplicas else Inr (cycleVictims prefList (nat n))))
             (GetPreferenceList chr key))"

text \<open>\<open>seen\<close> and \<open>out\<close> hold the same identifiers.\<close>

definition uniqueStringIDs :: "string list \<Rightarrow> string list" where
  "uniqueStringIDs sids = fold (\<lambda>id out. if id = '''' then out else if id \<in> set out then out else out @ [id]) sids []"

subsection \<open>Links\<close>

definition endName :: "string \<Rightarrow> string \<Rightarrow> string" where
  "endName from to = from @ ''->'' @ to"

definition pbsSetLabRPCIncomingEnabled :: "string list \<Rightarrow> string \<Rightarrow> bool \<Rightarrow> Network option \<Rightarrow> Network option" where
  "pbsSetLabRPCIncomingEnabled ids target en net =
     (if net = None \<or> target = '''' then net
      else map_option (fold (\<lambda>from. Enable (endName from target) en) ids) net)"

definition pbsSetLabRPCVictimIsolated :: "string list \<Rightarrow> string \<Rightarrow> bool \<Rightarrow> Network option \<Rightarrow> Network option" where
  "pbsSetLabRPCVictimIsolated ids target isIsolated net =
     (let en = (\<not> isIsolated);
          net = pbsSetLabRPCIncomingEnabled ids target en net
      in if net = None \<or> target = '''' then net
         else map_option (fold (\<lambda>to. Enable (endName target to) en) ids) net)"

definition markMemberStatus :: "Time \<Rightarrow> string \<Rightarrow> NodeStatus \<Rightarrow> KVServer \<Rightarrow> KVServer" where
  "markMemberStatus now serverID status kv =
     (case map_of (members kv) serverID of
        None \<Rightarrow> kv
      | Some member \<Rightarrow> kv\<lparr>members := gm_put serverID (member\<lparr>Status := status\<rparr>) (members kv),
                         memberLastUpdated := (memberLastUpdated kv)(serverID \<mapsto> now)\<rparr>)"

subsection \<open>The failure loop\<close>

datatype FailureLine =
    NodeDown nat string
  | NodeDownOverlap nat string Duration string
  | NodeUp nat string

record DemoWorld =
  demoServers :: "(string, KVServer) gomap"
  demoNet :: "Network option"
  demoTick :: nat
  demoSleeps :: "(Duration option \<times> Network option) list"
  demoPrinted :: "FailureLine list"

record FailureEnv =
  cancelledAt :: "nat \<Rightarrow> bool"
  clockAt :: "nat \<Rightarrow> Time"

definition readClock :: "FailureEnv \<Rightarrow> DemoWorld \<Rightarrow> Time \<times> DemoWorld" where
  "readClock env w = (clockAt env (demoTick w), w\<lparr>demoTick := demoTick w + 1\<rparr>)"

text \<open>Whether the context is done, and a sleep that ends early when it is.\<close>

definition ctxDone :: "FailureEnv \<Rightarrow> DemoWorld \<Rightarrow> bool \<times> DemoWorld" where
  "ctxDone env w = (cancelledAt env (demoTick w), w\<lparr>demoTick := demoTick w + 1\<rparr>)"

definition failureSleep :: "FailureEnv \<Rightarrow> Duration \<Rightarrow> DemoWorld \<Rightarrow> bool \<times> DemoWorld" where
  "failureSleep env d w =
     (if d \<le> 0 then (False, w)
      else ctxDone env (w\<lparr>demoSleeps := demoSleeps w @ [(Some d, demoNet w)]\<rparr>))"

definition awaitCancel :: "DemoWorld \<Rightarrow> DemoWorld" where
  "awaitCancel w = w\<lparr>demoSleeps := demoSleeps w @ [(None, demoNet w)]\<rparr>"

definition markAll :: "FailureEnv \<Rightarrow> string \<Rightarrow> NodeStatus \<Rightarrow> DemoWorld \<Rightarrow> DemoWorld" where
  "markAll env replicaID st w =
     w\<lparr>demoServers := map (\<lambda>(i, name, kv). (name, markMemberStatus (clockAt env (demoTick w + i)) replicaID st kv))
                         (List.enumerate 0 (demoServers w)),
       demoTick := demoTick w + length (demoServers w)\<rparr>"

definition setVictimIsolated :: "string list \<Rightarrow> string \<Rightarrow> bool \<Rightarrow> DemoWorld \<Rightarrow> DemoWorld" where
  "setVictimIsolated ids replicaID isolated w =
     w\<lparr>demoNet := pbsSetLabRPCVictimIsolated ids replicaID isolated (demoNet w)\<rparr>"

definition pauseGossipOf :: "string \<Rightarrow> bool \<Rightarrow> DemoWorld \<Rightarrow> DemoWorld" where
  "pauseGossipOf sid pause w =
     w\<lparr>demoServers := map (\<lambda>(name, kv). (name, if name = sid then SetPBSDemoPauseMembershipGoss pause kv else kv))
                         (demoServers w)\<rparr>"

definition printLine :: "FailureLine \<Rightarrow> DemoWorld \<Rightarrow> DemoWorld" where
  "printLine l w = w\<lparr>demoPrinted := demoPrinted w @ [l]\<rparr>"

definition takeDown :: "FailureEnv \<Rightarrow> string list \<Rightarrow> string \<Rightarrow> DemoWorld \<Rightarrow> DemoWorld" where
  "takeDown env ids vid w = setVictimIsolated ids vid True (markAll env vid Dead (pauseGossipOf vid True w))"

definition bringUp :: "FailureEnv \<Rightarrow> string list \<Rightarrow> string \<Rightarrow> DemoWorld \<Rightarrow> DemoWorld" where
  "bringUp env ids vid w = pauseGossipOf vid False (setVictimIsolated ids vid False (markAll env vid Alive w))"

definition restoreVictim :: "FailureEnv \<Rightarrow> string list \<Rightarrow> string \<Rightarrow> DemoWorld \<Rightarrow> DemoWorld" where
  "restoreVictim env ids sid w = setVictimIsolated ids sid False (markAll env sid Alive (pauseGossipOf sid False w))"

text \<open>One failure of \<open>vid\<close>: whether the loop was cancelled, and the world.\<close>

definition singleFailure :: "FailureEnv \<Rightarrow> string list \<Rightarrow> Duration \<Rightarrow> nat \<Rightarrow> string \<Rightarrow> DemoWorld \<Rightarrow> bool \<times> DemoWorld" where
  "singleFailure env ids d phase vid w =
     (let w = printLine (NodeDown phase vid) (takeDown env ids vid w)
      in case failureSleep env d w of
           (True, w) \<Rightarrow> (True, w)
         | (False, w) \<Rightarrow> (False, printLine (NodeUp phase vid) (bringUp env ids vid w)))"

text \<open>Two failures, the second of which starts before the first one ends.\<close>

definition overlappedFailures :: "FailureEnv \<Rightarrow> string list \<Rightarrow> Duration \<Rightarrow> Duration \<Rightarrow> nat \<Rightarrow> string \<Rightarrow> string \<Rightarrow> DemoWorld
    \<Rightarrow> bool \<times> DemoWorld" where
  "overlappedFailures env ids d ov phase vid nextVid w =
     (let w = printLine (NodeDown phase vid) (takeDown env ids vid w)
      in case failureSleep env (d - ov) w of
           (True, w) \<Rightarrow> (True, w)
         | (False, w) \<Rightarrow>
             let w = printLine (NodeDownOverlap (phase + 1) nextVid ov vid) (takeDown env ids nextVid w)
             in case failureSleep env ov w of
                  (True, w) \<Rightarrow> (True, w)
                | (False, w) \<Rightarrow>
                    let w = printLine (NodeUp phase vid) (bringUp env ids vid w)
                    in case failureSleep env (d - ov) w of
                         (True, w) \<Rightarrow> (True, w)
                       | (False, w) \<Rightarrow> (False, printLine (NodeUp (phase + 1) nextVid) (bringUp env ids nextVid w)))"

text \<open>
  The repeating loop; the list is the rest of \<open>victimSequence\<close> from index \<open>i\<close> on and \<open>phase\<close> the
  number of failures so far.
\<close>

definition upPause :: "FailureEnv \<Rightarrow> Duration \<Rightarrow> string list \<Rightarrow> DemoWorld \<Rightarrow> bool \<times> DemoWorld" where
  "upPause env u rest w = (if rest \<noteq> [] then failureSleep env u w else (False, w))"

lemma tl_dropWhile_shorter: "length (dropWhile P xs) - Suc 0 < Suc (length xs)"
  using length_dropWhile_le[of P xs] by simp

function cycleLoop :: "FailureEnv \<Rightarrow> string list \<Rightarrow> Duration \<Rightarrow> Duration \<Rightarrow> Duration \<Rightarrow> string list \<Rightarrow> nat \<Rightarrow> DemoWorld \<Rightarrow> DemoWorld" where
  "cycleLoop env ids d u ov [] phase w = w"
| "cycleLoop env ids d u ov (vid # rest) phase w =
     (case ctxDone env w of
        (True, w) \<Rightarrow> w
      | (False, w) \<Rightarrow>
          if vid = '''' then cycleLoop env ids d u ov rest phase w
          else let later = dropWhile (\<lambda>v. v = '''') rest
               in if later \<noteq> [] \<and> ov > 0 \<and> d > ov then
                    (case overlappedFailures env ids d ov (phase + 1) vid (hd later) w of
                       (True, w) \<Rightarrow> w
                     | (False, w) \<Rightarrow>
                         (case upPause env u (tl later) w of
                            (True, w) \<Rightarrow> w
                          | (False, w) \<Rightarrow> cycleLoop env ids d u ov (tl later) (phase + 2) w))
                  else
                    (case singleFailure env ids d (phase + 1) vid w of
                       (True, w) \<Rightarrow> w
                     | (False, w) \<Rightarrow>
                         (case upPause env u rest w of
                            (True, w) \<Rightarrow> w
                          | (False, w) \<Rightarrow> cycleLoop env ids d u ov rest (phase + 1) w)))"
  by pat_completeness auto

termination
  by (relation "measure (\<lambda>(env, ids, d, u, ov, vs, phase, w). length vs)") (auto simp: tl_dropWhile_shorter)

definition oneShotFailure :: "FailureEnv \<Rightarrow> string list \<Rightarrow> Duration \<Rightarrow> Duration \<Rightarrow> Time \<Rightarrow> string \<Rightarrow> DemoWorld \<Rightarrow> DemoWorld" where
  "oneShotFailure env ids d r t0 vid w =
     (if vid = '''' then w
      else let w = printLine (NodeDown 1 vid) (takeDown env ids vid w)
           in if d > 0 then
                (case failureSleep env d w of
                   (True, w) \<Rightarrow> w
                 | (False, w) \<Rightarrow> printLine (NodeUp 1 vid) (bringUp env ids vid w))
              else if r > 0 then
                (case readClock env w of (now, w) \<Rightarrow>
                   let rem = time_Sub (t0 + r) now; rem = (if rem < 0 then 0 else rem)
                   in case failureSleep env rem w of
                        (True, w) \<Rightarrow> w
                      | (False, w) \<Rightarrow> printLine (NodeUp 1 vid) (bringUp env ids vid w))
              else awaitCancel w)"

text \<open>What runs before the deferred clean-up, and the whole function.\<close>

definition failureBody :: "FailureEnv \<Rightarrow> PBSDemoOptions \<Rightarrow> string list \<Rightarrow> string list \<Rightarrow> DemoWorld \<Rightarrow> DemoWorld" where
  "failureBody env opts victimSequence ids w =
     (case readClock env w of (t0, w) \<Rightarrow>
        case failureSleep env (FailureStartAfter opts) w of
          (True, w) \<Rightarrow> w
        | (False, w) \<Rightarrow>
            if FailureUpDuration opts > 0 then
              cycleLoop env ids (FailureDownDuration opts) (FailureUpDuration opts)
                (if FailureOverlap opts < 0 then 0 else FailureOverlap opts) victimSequence 0 w
            else oneShotFailure env ids (FailureDownDuration opts) (FailureRecoverAfter opts) t0 (hd victimSequence) w)"

definition pbsSingleReplicaFailureLoop :: "FailureEnv \<Rightarrow> PBSDemoOptions \<Rightarrow> string list \<Rightarrow> string list \<Rightarrow> DemoWorld \<Rightarrow> DemoWorld" where
  "pbsSingleReplicaFailureLoop env opts victimSequence ids w =
     (if victimSequence = [] then w
      else fold (restoreVictim env ids) (uniqueStringIDs victimSequence)
             (failureBody env opts victimSequence ids w))"

subsection \<open>Links of isolated nodes\<close>

text \<open>
  Node names without the character \<^verbatim>\<open>>\<close> give every ordered pair of nodes an end of its own.
\<close>

definition names_ok :: "string list \<Rightarrow> bool" where
  "names_ok ids \<longleftrightarrow> '''' \<notin> set ids \<and> (\<forall>s \<in> set ids. CHR ''>'' \<notin> set s)"

lemma endName_inj:
  assumes "CHR ''>'' \<notin> set f" "CHR ''>'' \<notin> set f'"
  shows "endName f t = endName f' t' \<longleftrightarrow> f = f' \<and> t = t'"
proof -
  have "takeWhile (\<lambda>c. c \<noteq> CHR ''>'') (endName f t) = f @ ''-''" if "CHR ''>'' \<notin> set f" for f t
    using that by (auto simp: endName_def takeWhile_append)
  then show ?thesis using assms by (metis endName_def append_same_eq same_append_eq)
qed

definition linkUp :: "Network option \<Rightarrow> string \<Rightarrow> string \<Rightarrow> bool" where
  "linkUp net f t = (case net of None \<Rightarrow> False | Some rn \<Rightarrow> endEnabled rn (endName f t))"

text \<open>Every link that is down touches a node of \<open>D\<close>; the links that are down are those that touch \<open>D\<close>.\<close>

definition downWithin :: "('n \<Rightarrow> string \<Rightarrow> string \<Rightarrow> bool) \<Rightarrow> string list \<Rightarrow> string set \<Rightarrow> 'n \<Rightarrow> bool" where
  "downWithin up ids D n \<longleftrightarrow> (\<forall>f \<in> set ids. \<forall>t \<in> set ids. \<not> up n f t \<longrightarrow> f \<in> D \<or> t \<in> D)"

definition downExactly :: "('n \<Rightarrow> string \<Rightarrow> string \<Rightarrow> bool) \<Rightarrow> string list \<Rightarrow> string set \<Rightarrow> 'n \<Rightarrow> bool" where
  "downExactly up ids D n \<longleftrightarrow> (\<forall>f \<in> set ids. \<forall>t \<in> set ids. up n f t \<longleftrightarrow> f \<notin> D \<and> t \<notin> D)"

locale link_isolation =
  fixes present :: "'n \<Rightarrow> bool"
    and up :: "'n \<Rightarrow> string \<Rightarrow> string \<Rightarrow> bool"
    and isolate :: "string list \<Rightarrow> string \<Rightarrow> bool \<Rightarrow> 'n \<Rightarrow> 'n"
  assumes isolate_present: "present (isolate ids v b n) = present n"
    and isolate_up: "\<lbrakk>names_ok ids; present n; v \<in> set ids; f \<in> set ids; t \<in> set ids\<rbrakk>
      \<Longrightarrow> up (isolate ids v b n) f t = (if f = v \<or> t = v then \<not> b else up n f t)"
begin

lemma within_isolate:
  "\<lbrakk>names_ok ids; present n; v \<in> set ids; downWithin up ids D n\<rbrakk> \<Longrightarrow> downWithin up ids (insert v D) (isolate ids v True n)"
  by (simp add: downWithin_def isolate_up)

lemma within_restore:
  "\<lbrakk>names_ok ids; present n; v \<in> set ids; downWithin up ids D n\<rbrakk> \<Longrightarrow> downWithin up ids (D - {v}) (isolate ids v False n)"
  by (simp add: downWithin_def isolate_up)

lemma exactly_isolate:
  "\<lbrakk>names_ok ids; present n; v \<in> set ids; downExactly up ids D n\<rbrakk> \<Longrightarrow> downExactly up ids (insert v D) (isolate ids v True n)"
  by (simp add: downExactly_def isolate_up)

lemma exactly_restore:
  "\<lbrakk>names_ok ids; present n; v \<in> set ids; downExactly up ids {v} n\<rbrakk> \<Longrightarrow> downExactly up ids {} (isolate ids v False n)"
  by (simp add: downExactly_def isolate_up)

lemma restore_all:
  "\<lbrakk>names_ok ids; present n; set vs \<subseteq> set ids; downWithin up ids D n\<rbrakk>
    \<Longrightarrow> downWithin up ids (D - set vs) (fold (\<lambda>v. isolate ids v False) vs n)"
proof (induction vs arbitrary: n D)
  case (Cons v vs)
  then have "downWithin up ids (D - {v} - set vs) (fold (\<lambda>v. isolate ids v False) vs (isolate ids v False n))"
    by (intro Cons.IH within_restore) (simp_all add: isolate_present)
  moreover have "D - {v} - set vs = D - set (v # vs)" by auto
  ultimately show ?case by simp
qed simp

end

lemma endEnabled_fold_Enable:
  "endEnabled (fold (\<lambda>x. Enable (g x) b) xs rn) e = (if e \<in> g ` set xs then b else endEnabled rn e)"
  by (induction xs arbitrary: rn) (auto simp: Enable_def endEnabled_def)

interpretation links: link_isolation "\<lambda>n. n \<noteq> None" linkUp pbsSetLabRPCVictimIsolated
proof
  fix ids v b and n :: "Network option"
  show "(pbsSetLabRPCVictimIsolated ids v b n \<noteq> None) = (n \<noteq> None)"
    by (cases n) (simp_all add: pbsSetLabRPCVictimIsolated_def pbsSetLabRPCIncomingEnabled_def Let_def)
next
  fix ids v f t b and n :: "Network option"
  assume a: "names_ok ids" "n \<noteq> None" "v \<in> set ids" "f \<in> set ids" "t \<in> set ids"
  obtain rn where rn: "n = Some rn" using a(2) by auto
  have v: "v \<noteq> ''''" using a(1,3) by (auto simp: names_ok_def)
  have g: "CHR ''>'' \<notin> set s" if "s \<in> set ids" for s using a(1) that by (simp add: names_ok_def)
  have "endName f t \<in> (\<lambda>to. endName v to) ` set ids \<longleftrightarrow> f = v"
    using a(3-5) g by (auto simp: endName_inj)
  moreover have "endName f t \<in> (\<lambda>from. endName from v) ` set ids \<longleftrightarrow> t = v"
    using a(3-5) g by (auto simp: endName_inj)
  ultimately show "linkUp (pbsSetLabRPCVictimIsolated ids v b n) f t = (if f = v \<or> t = v then \<not> b else linkUp n f t)"
    using v unfolding rn linkUp_def pbsSetLabRPCVictimIsolated_def pbsSetLabRPCIncomingEnabled_def Let_def
    by (cases "f = v"; cases "t = v") (simp_all add: endEnabled_fold_Enable)
qed

subsection \<open>The network while the loop sleeps\<close>

named_theorems world_frame \<open>what the actions of the failure loop leave alone\<close>

lemma demoNet_frame [world_frame]:
  "demoNet (markAll env v st w) = demoNet w"
  "demoNet (pauseGossipOf v b w) = demoNet w"
  "demoNet (printLine l w) = demoNet w"
  "demoNet (snd (ctxDone env w)) = demoNet w"
  "demoNet (snd (readClock env w)) = demoNet w"
  "demoNet (snd (failureSleep env d w)) = demoNet w"
  "demoNet (awaitCancel w) = demoNet w"
  by (simp_all add: markAll_def pauseGossipOf_def printLine_def ctxDone_def readClock_def failureSleep_def awaitCancel_def)

lemma demoNet_isolated [world_frame]:
  "demoNet (takeDown env ids v w) = pbsSetLabRPCVictimIsolated ids v True (demoNet w)"
  "demoNet (bringUp env ids v w) = pbsSetLabRPCVictimIsolated ids v False (demoNet w)"
  "demoNet (restoreVictim env ids v w) = pbsSetLabRPCVictimIsolated ids v False (demoNet w)"
  by (simp_all add: takeDown_def bringUp_def restoreVictim_def setVictimIsolated_def world_frame)

lemma demoSleeps_frame [world_frame]:
  "demoSleeps (markAll env v st w) = demoSleeps w"
  "demoSleeps (pauseGossipOf v b w) = demoSleeps w"
  "demoSleeps (printLine l w) = demoSleeps w"
  "demoSleeps (snd (ctxDone env w)) = demoSleeps w"
  "demoSleeps (snd (readClock env w)) = demoSleeps w"
  "demoSleeps (setVictimIsolated ids v b w) = demoSleeps w"
  by (simp_all add: markAll_def pauseGossipOf_def printLine_def ctxDone_def readClock_def setVictimIsolated_def)

lemma demoSleeps_actions [world_frame]:
  "demoSleeps (takeDown env ids v w) = demoSleeps w"
  "demoSleeps (bringUp env ids v w) = demoSleeps w"
  "demoSleeps (restoreVictim env ids v w) = demoSleeps w"
  by (simp_all add: takeDown_def bringUp_def restoreVictim_def world_frame)

definition sleeps_ok :: "(Network option \<Rightarrow> bool) \<Rightarrow> DemoWorld \<Rightarrow> bool" where
  "sleeps_ok P w \<longleftrightarrow> (\<forall>(d, n) \<in> set (demoSleeps w). P n)"

lemma sleeps_okD: "sleeps_ok P w \<Longrightarrow> (d, n) \<in> set (demoSleeps w) \<Longrightarrow> P n"
  by (auto simp: sleeps_ok_def)

lemma sleeps_ok_frame:
  "demoSleeps w' = demoSleeps w \<Longrightarrow> sleeps_ok P w' = sleeps_ok P w"
  by (simp add: sleeps_ok_def)

lemma sleeps_ok_sleep:
  "P (demoNet w) \<Longrightarrow> sleeps_ok P w \<Longrightarrow> sleeps_ok P (snd (failureSleep env d w))"
  "P (demoNet w) \<Longrightarrow> sleeps_ok P w \<Longrightarrow> sleeps_ok P (awaitCancel w)"
  by (auto simp: sleeps_ok_def failureSleep_def awaitCancel_def world_frame)

text \<open>
  \<open>Q\<close> holds of the network between failures and \<open>P\<close> whenever the loop sleeps.
\<close>

definition tracks :: "string list \<Rightarrow> string set \<Rightarrow> Duration \<Rightarrow> (Network option \<Rightarrow> bool) \<Rightarrow> (Network option \<Rightarrow> bool) \<Rightarrow> bool" where
  "tracks ids V ov P Q \<longleftrightarrow>
     (let setIso = pbsSetLabRPCVictimIsolated ids in
      \<forall>n. Q n \<longrightarrow> P n \<and> (\<forall>v \<in> V. P (setIso v True n) \<and> Q (setIso v False (setIso v True n))
        \<and> (ov > 0 \<longrightarrow> (\<forall>v' \<in> V. P (setIso v' True (setIso v True n)) \<and> P (setIso v False (setIso v' True (setIso v True n)))
              \<and> Q (setIso v' False (setIso v False (setIso v' True (setIso v True n))))))))"

text \<open>A world that the loop may be in between failures, and one in which it may return.\<close>

definition between :: "(Network option \<Rightarrow> bool) \<Rightarrow> (Network option \<Rightarrow> bool) \<Rightarrow> DemoWorld \<Rightarrow> bool" where
  "between P Q w \<longleftrightarrow> sleeps_ok P w \<and> Q (demoNet w)"

lemma between_frame:
  "demoSleeps w' = demoSleeps w \<Longrightarrow> demoNet w' = demoNet w \<Longrightarrow> between P Q w' = between P Q w"
  by (simp add: between_def sleeps_ok_def)

lemma tracksI:
  fixes ids :: "string list"
  assumes setIso: "setIso = pbsSetLabRPCVictimIsolated ids"
    and "\<And>n. Q n \<Longrightarrow> P n"
    and "\<And>n v. Q n \<Longrightarrow> v \<in> V \<Longrightarrow> P (setIso v True n) \<and> Q (setIso v False (setIso v True n))"
    and "\<And>n v v'. 0 < ov \<Longrightarrow> Q n \<Longrightarrow> v \<in> V \<Longrightarrow> v' \<in> V \<Longrightarrow> P (setIso v' True (setIso v True n))
      \<and> P (setIso v False (setIso v' True (setIso v True n))) \<and> Q (setIso v' False (setIso v False (setIso v' True (setIso v True n))))"
  shows "tracks ids V ov P Q"
  using assms(2-) by (simp add: tracks_def setIso)

lemma tracks_weaken: "tracks ids V ov P Q \<Longrightarrow> between P Q w \<Longrightarrow> between P P w"
  unfolding between_def tracks_def Let_def by blast

lemma tracksD:
  assumes "tracks ids V ov P Q" "between P Q w" "v \<in> V"
  shows "P (pbsSetLabRPCVictimIsolated ids v True (demoNet w))"
    "Q (pbsSetLabRPCVictimIsolated ids v False (pbsSetLabRPCVictimIsolated ids v True (demoNet w)))"
  using assms unfolding between_def tracks_def Let_def by blast+

lemma tracks_overlapD:
  assumes isoEq: "setIso = pbsSetLabRPCVictimIsolated ids"
    and "tracks ids V ov P Q" "between P Q w" "v \<in> V" "v' \<in> V" "0 < ov"
  shows "P (setIso v' True (setIso v True (demoNet w)))" "P (setIso v False (setIso v' True (setIso v True (demoNet w))))"
    "Q (setIso v' False (setIso v False (setIso v' True (setIso v True (demoNet w)))))"
  using assms(2-) unfolding between_def tracks_def Let_def isoEq by blast+

lemma sleep_between:
  assumes "failureSleep env d w = (b, s)" "between P P w"
  shows "between P P s" "demoNet s = demoNet w"
  using assms sleeps_ok_sleep(1)[of P w env d] demoNet_frame(6)[of env d w] by (auto simp: between_def)

lemma between_actions:
  "between P Q (printLine l (takeDown env ids v w)) \<longleftrightarrow> sleeps_ok P w \<and> Q (pbsSetLabRPCVictimIsolated ids v True (demoNet w))"
  "between P Q (printLine l (bringUp env ids v w)) \<longleftrightarrow> sleeps_ok P w \<and> Q (pbsSetLabRPCVictimIsolated ids v False (demoNet w))"
  by (simp_all add: between_def sleeps_ok_def world_frame)

lemma between_sleeps: "between P Q w \<Longrightarrow> sleeps_ok P w"
  by (simp add: between_def)

lemma singleFailure_tracks:
  assumes "tracks ids V ov P Q" "v \<in> V" "between P Q w" "singleFailure env ids d p v w = (c, w')"
  shows "between P P w'" "\<not> c \<Longrightarrow> between P Q w'"
proof -
  let ?w = "printLine (NodeDown p v) (takeDown env ids v w)"
  note n = tracksD[OF assms(1,3,2)]
  obtain b s where s: "failureSleep env d ?w = (b, s)" by fastforce
  have b: "between P P s" "demoNet s = pbsSetLabRPCVictimIsolated ids v True (demoNet w)"
    using sleep_between[OF s, of P] n(1) between_sleeps[OF assms(3)] by (simp_all add: between_actions world_frame)
  have "between P Q (printLine (NodeUp p v) (bringUp env ids v s))"
    using b n(2) between_sleeps by (auto simp: between_actions)
  then show "between P P w'" "\<not> c \<Longrightarrow> between P Q w'"
    using assms(4) s b tracks_weaken[OF assms(1)] by (auto simp: singleFailure_def split: bool.splits)
qed

lemma overlappedFailures_tracks:
  assumes "tracks ids V ov P Q" "v \<in> V" "v' \<in> V" "0 < ov" "between P Q w" "overlappedFailures env ids d ov p v v' w = (c, w')"
  shows "between P P w'" "\<not> c \<Longrightarrow> between P Q w'"
proof -
  let ?iso = "pbsSetLabRPCVictimIsolated ids" and ?n = "demoNet w"
  note n = tracksD(1)[OF assms(1,5,2)] tracks_overlapD[OF refl assms(1,5,2-4)]
  let ?w1 = "printLine (NodeDown p v) (takeDown env ids v w)"
  obtain b1 s1 where s1: "failureSleep env (d - ov) ?w1 = (b1, s1)" by fastforce
  have 1: "between P P s1" "demoNet s1 = ?iso v True ?n"
    using sleep_between[OF s1, of P] between_sleeps[OF assms(5)] n(1) by (simp_all add: between_actions world_frame)
  let ?w2 = "printLine (NodeDownOverlap (p + 1) v' ov v) (takeDown env ids v' s1)"
  obtain b2 s2 where s2: "failureSleep env ov ?w2 = (b2, s2)" by fastforce
  have 2: "between P P s2" "demoNet s2 = ?iso v' True (?iso v True ?n)"
    using sleep_between[OF s2, of P] between_sleeps[OF 1(1)] n(2) by (simp_all add: between_actions world_frame 1(2))
  let ?w3 = "printLine (NodeUp p v) (bringUp env ids v s2)"
  obtain b3 s3 where s3: "failureSleep env (d - ov) ?w3 = (b3, s3)" by fastforce
  have 3: "between P P s3" "demoNet s3 = ?iso v False (?iso v' True (?iso v True ?n))"
    using sleep_between[OF s3, of P] between_sleeps[OF 2(1)] n(3) by (simp_all add: between_actions world_frame 2(2))
  have "between P Q (printLine (NodeUp (p + 1) v') (bringUp env ids v' s3))"
    using 3 n(4) between_sleeps by (auto simp: between_actions)
  then show "between P P w'" "\<not> c \<Longrightarrow> between P Q w'"
    using assms(6) s1 s2 s3 1(1) 2(1) 3(1) tracks_weaken[OF assms(1)]
    by (auto simp: overlappedFailures_def Let_def split: bool.splits)
qed

lemma between_ctxDone: "ctxDone env w = (c, w') \<Longrightarrow> between P Q w' = between P Q w"
  by (metis between_frame demoNet_frame(4) demoSleeps_frame(4) snd_conv)

lemma upPause_between:
  assumes "tracks ids V ov P Q" "between P Q w" "upPause env u rest w = (c, w')"
  shows "between P Q w'"
proof -
  have "between P P w" using tracks_weaken[OF assms(1,2)] .
  then have "between P P w' \<and> demoNet w' = demoNet w"
    using assms(3) sleep_between[of env u w c w' P] by (auto simp: upPause_def split: if_splits)
  then show ?thesis using assms(2) by (simp add: between_def)
qed

lemma hd_dropWhile_in: "dropWhile P xs \<noteq> [] \<Longrightarrow> hd (dropWhile P xs) \<in> set xs \<and> \<not> P (hd (dropWhile P xs))"
  by (meson hd_dropWhile hd_in_set set_dropWhileD)

lemma set_tl_dropWhile: "set (tl (dropWhile P xs)) \<subseteq> set xs"
  by (metis list.set_sel(2) set_dropWhileD subsetI tl_Nil)

lemma cycleLoop_tracks:
  assumes tr: "tracks ids V ov P Q"
  shows "set vs - {''''} \<subseteq> V \<Longrightarrow> between P Q w \<Longrightarrow> between P P (cycleLoop env ids d u ov vs phase w)"
proof (induction vs arbitrary: phase w rule: length_induct)
  case (1 vs)
  note weaken = tracks_weaken[OF tr] and pause = upPause_between[OF tr]
  show ?case
  proof (cases vs)
    case (Cons vid rest)
    let ?later = "dropWhile (\<lambda>v. v = '''') rest"
    have ih: "set ys \<subseteq> set rest \<Longrightarrow> length ys \<le> length rest \<Longrightarrow> between P Q w' \<Longrightarrow> between P P (cycleLoop env ids d u ov ys p w')" for ys p w'
    proof -
      assume ys: "set ys \<subseteq> set rest" "length ys \<le> length rest" "between P Q w'"
      have "length ys < length vs" "set ys - {''''} \<subseteq> V" using ys 1(2) Cons by auto
      then show ?thesis using 1(1) ys(3) by blast
    qed
    have next_phase: "between P P (case upPause env u ys x of (True, w) \<Rightarrow> w | (False, w) \<Rightarrow> cycleLoop env ids d u ov ys p w)"
      if "between P Q x" "set ys \<subseteq> set rest" "length ys \<le> length rest" for x ys p
      using that pause ih weaken by (auto split: prod.splits bool.splits)
    obtain c w1 where c: "ctxDone env w = (c, w1)" by fastforce
    have w1: "between P Q w1" using between_ctxDone[OF c] 1(3) by simp
    have later: "set (tl ?later) \<subseteq> set rest" "length (tl ?later) \<le> length rest" 
      using set_tl_dropWhile[of _ rest] tl_dropWhile_shorter[of "\<lambda>v. v = ''''" rest] by auto
    have single: "between P P (case singleFailure env ids d p vid w1 of (True, w) \<Rightarrow> w
        | (False, w) \<Rightarrow> (case upPause env u rest w of (True, w) \<Rightarrow> w | (False, w) \<Rightarrow> cycleLoop env ids d u ov rest p w))"
      if "vid \<noteq> ''''" for p
    proof -
      obtain c2 x where x: "singleFailure env ids d p vid w1 = (c2, x)" by fastforce
      have "vid \<in> V" using that 1(2) Cons by auto
      then show ?thesis using singleFailure_tracks[OF tr _ w1 x] next_phase[of x rest p] by (cases c2) (simp_all add: x)
    qed
    have double: "between P P (case overlappedFailures env ids d ov p vid (hd ?later) w1 of (True, w) \<Rightarrow> w
        | (False, w) \<Rightarrow> (case upPause env u (tl ?later) w of (True, w) \<Rightarrow> w | (False, w) \<Rightarrow> cycleLoop env ids d u ov (tl ?later) q w))"
      if "vid \<noteq> ''''" "?later \<noteq> []" "0 < ov" for p q
    proof -
      obtain c2 x where x: "overlappedFailures env ids d ov p vid (hd ?later) w1 = (c2, x)" by fastforce
      have "vid \<in> V" "hd ?later \<in> V" using that 1(2) Cons hd_dropWhile_in[OF that(2)] by auto
      then show ?thesis
        using overlappedFailures_tracks[OF tr _ _ that(3) w1 x] next_phase[OF _ later, of x q] by (cases c2) (simp_all add: x)
    qed
    show ?thesis
      using c w1 weaken ih[of rest] single double[where p = "phase + 1" and q = "phase + 2"] unfolding Cons
      by (cases c) (auto simp: Let_def simp del: One_nat_def)
  qed (use weaken 1 in simp)
qed

lemma oneShot_tracks:
  assumes "tracks ids V ov P Q" "vid = '''' \<or> vid \<in> V" "between P Q w"
  shows "between P P (oneShotFailure env ids d r t0 vid w)"
proof (cases "vid = ''''")
  case False
  note n = tracksD[OF assms(1,3)]
  let ?w = "printLine (NodeDown 1 vid) (takeDown env ids vid w)"
  have down: "between P P ?w" using n(1) False assms(2) between_sleeps[OF assms(3)] by (simp add: between_actions)
  have up: "between P P (case failureSleep env e x of (True, w) \<Rightarrow> w | (False, w) \<Rightarrow> printLine (NodeUp 1 vid) (bringUp env ids vid w))"
    if "between P P x" "demoNet x = demoNet ?w" for e x
  proof -
    obtain c s where s: "failureSleep env e x = (c, s)" by fastforce
    have "P (pbsSetLabRPCVictimIsolated ids vid False (demoNet x))"
      using n(2) False assms(1,2) that(2) unfolding tracks_def Let_def by (auto simp: world_frame)
    then show ?thesis using sleep_between[OF s that(1)] between_sleeps by (cases c) (auto simp: s between_actions)
  qed
  obtain now x where x: "readClock env ?w = (now, x)" by fastforce
  then have x': "between P P x" "demoNet x = demoNet ?w"
    using down between_frame[of x ?w] demoNet_frame(5)[of env ?w] demoSleeps_frame(5)[of env ?w] by simp_all
  have "between P P (awaitCancel ?w)"
    using down sleeps_ok_sleep(2)[of P ?w] by (simp add: between_def world_frame)
  then show ?thesis
    using False up[OF down refl] up[OF x'] unfolding oneShotFailure_def Let_def by (simp add: x del: One_nat_def)
qed (use tracks_weaken[OF assms(1,3)] in \<open>simp add: oneShotFailure_def\<close>)

lemma failureBody_tracks:
  assumes "tracks ids V (FailureOverlap opts) P Q" "set vs - {''''} \<subseteq> V" "vs \<noteq> []" "between P Q w"
  shows "between P P (failureBody env opts vs ids w)"
proof -
  obtain t0 w0 where t0: "readClock env w = (t0, w0)" by fastforce
  obtain c s where s: "failureSleep env (FailureStartAfter opts) w0 = (c, s)" by fastforce
  have w0: "between P Q w0"
    using assms(4) t0 between_frame[of w0 w] by (metis demoNet_frame(5) demoSleeps_frame(5) snd_conv)
  have bs: "between P P s" "demoNet s = demoNet w0" using sleep_between[OF s tracks_weaken[OF assms(1) w0]] by simp_all
  have q: "between P Q s" using bs w0 by (simp add: between_def)
  have tr: "tracks ids V (if FailureOverlap opts < 0 then 0 else FailureOverlap opts) P Q"
    using assms(1) by (auto simp: tracks_def Let_def)
  have "hd vs = '''' \<or> hd vs \<in> V" using assms(2,3) hd_in_set by fastforce
  then show ?thesis
    using t0 s bs(1) oneShot_tracks[OF assms(1) _ q]
      cycleLoop_tracks[OF tr assms(2) q, of env "FailureDownDuration opts" "FailureUpDuration opts" 0]
    unfolding failureBody_def by (cases c; cases "FailureOverlap opts < 0") simp_all
qed

text \<open>The two instances: at most two nodes are cut off, and exactly one when failures do not overlap.\<close>

lemma tracks_within:
  assumes "names_ok ids" "V \<subseteq> set ids"
  shows "tracks ids V ov (\<lambda>n. n \<noteq> None \<and> (\<exists>D \<subseteq> V. card D \<le> 2 \<and> finite D \<and> downWithin linkUp ids D n))
    (\<lambda>n. n \<noteq> None \<and> downWithin linkUp ids {} n)" (is "tracks _ _ _ ?P ?Q")
proof -
  let ?iso = "pbsSetLabRPCVictimIsolated ids"
  have p: "?P n" if "n \<noteq> None" "downWithin linkUp ids D n" "D \<subseteq> V" "finite D" "card D \<le> 2" for n D
    using that by blast
  have down: "?iso v True n \<noteq> None \<and> downWithin linkUp ids (insert v D) (?iso v True n)"
    and up: "?iso v False n \<noteq> None \<and> downWithin linkUp ids (D - {v}) (?iso v False n)"
    if "n \<noteq> None" "downWithin linkUp ids D n" "v \<in> V" for n v D
    using that assms links.within_isolate[of ids n v D] links.within_restore[of ids n v D] links.isolate_present[of ids v _ n] by auto
  show ?thesis
  proof (rule tracksI[OF refl])
    fix n assume "?Q n"
    then show "?P n" using p[of n "{}"] by simp
  next
    fix n v assume q: "?Q n" and v: "v \<in> V"
    note a = down[OF conjunct1[OF q] conjunct2[OF q] v]
    have "?P (?iso v True n)" by (rule p[OF conjunct1[OF a] conjunct2[OF a]]) (use v in simp_all)
    moreover have "?Q (?iso v False (?iso v True n))" using up[OF conjunct1[OF a] conjunct2[OF a] v] by simp
    ultimately show "?P (?iso v True n) \<and> ?Q (?iso v False (?iso v True n))" by (rule conjI)
  next
    fix n v v' assume q: "?Q n" and v: "v \<in> V" "v' \<in> V"
    note a = down[OF conjunct1[OF q] conjunct2[OF q] v(1)]
    note b = down[OF conjunct1[OF a] conjunct2[OF a] v(2)]
    note c = up[OF conjunct1[OF b] conjunct2[OF b] v(1)]
    note d = up[OF conjunct1[OF c] conjunct2[OF c] v(2)]

    have none: "insert v' {v} - {v} - {v'} = {}" by auto
    have two: "card (insert v' {v}) \<le> 2" by (simp add: card_insert_if)
    then have one: "card (insert v' {v} - {v}) \<le> 2" using card_Diff1_le[of "insert v' {v}" v] by linarith

    have p3: "?P (?iso v' True (?iso v True n))" by (rule p[OF conjunct1[OF b] conjunct2[OF b]]) (use v two in simp_all)
    have p4: "?P (?iso v False (?iso v' True (?iso v True n)))"
      by (rule p[OF conjunct1[OF c] conjunct2[OF c] _ _ one]) (use v in auto)
    show "?P (?iso v' True (?iso v True n)) \<and> ?P (?iso v False (?iso v' True (?iso v True n)))
        \<and> ?Q (?iso v' False (?iso v False (?iso v' True (?iso v True n))))"
      by (rule conjI[OF p3 conjI[OF p4 d[unfolded none]]])
  qed
qed

lemma tracks_exactly:
  assumes "names_ok ids" "V \<subseteq> set ids" "ov \<le> 0"
  shows "tracks ids V ov (\<lambda>n. n \<noteq> None \<and> (\<exists>D \<subseteq> V. card D \<le> 1 \<and> finite D \<and> downExactly linkUp ids D n))
    (\<lambda>n. n \<noteq> None \<and> downExactly linkUp ids {} n)" (is "tracks _ _ _ ?P ?Q")
proof -
  let ?iso = "pbsSetLabRPCVictimIsolated ids"
  have "?P n \<and> ?P (?iso v True n) \<and> ?Q (?iso v False (?iso v True n))"
    if q: "n \<noteq> None" "downExactly linkUp ids {} n" and v: "v \<in> V" for n v
  proof -
    have a: "?iso v True n \<noteq> None" "downExactly linkUp ids {v} (?iso v True n)"
      using links.exactly_isolate[of ids n v "{}"] links.isolate_present[of ids v True n] q v assms by auto
    moreover have "?iso v False (?iso v True n) \<noteq> None" "downExactly linkUp ids {} (?iso v False (?iso v True n))"
      using links.exactly_restore[OF assms(1) _ _ a(2)] links.isolate_present[of ids v False] a v assms(2) by auto
    moreover have "\<exists>D \<subseteq> V. card D \<le> 1 \<and> finite D \<and> downExactly linkUp ids D n" using q(2) by (intro exI[of _ "{}"]) simp
    moreover have "\<exists>D \<subseteq> V. card D \<le> 1 \<and> finite D \<and> downExactly linkUp ids D (?iso v True n)"
      using a(2) v by (intro exI[of _ "{v}"]) simp
    ultimately show ?thesis using q(1) by blast
  qed
  then show ?thesis using assms(3) unfolding tracks_def Let_def by auto
qed

subsection \<open>Clean-up\<close>

lemma set_uniqueStringIDs: "set (uniqueStringIDs sids) = set sids - {''''}"
proof -
  have "set (fold (\<lambda>id out. if id = '''' then out else if id \<in> set out then out else out @ [id]) sids acc)
      = set acc \<union> (set sids - {''''})" for acc
    by (induction sids arbitrary: acc) auto
  then show ?thesis by (simp add: uniqueStringIDs_def)
qed

text \<open>Every server that knows \<open>v\<close> has it alive, and \<open>v\<close> takes part in gossip again.\<close>

definition healed :: "string \<Rightarrow> DemoWorld \<Rightarrow> bool" where
  "healed v w \<longleftrightarrow> (\<forall>(name, kv) \<in> set (demoServers w).
     (\<forall>m. map_of (members kv) v = Some m \<longrightarrow> Status m = Alive) \<and> (name = v \<longrightarrow> \<not> pauseGossip kv))"

definition storesOf :: "DemoWorld \<Rightarrow> (string \<times> (string \<rightharpoonup> Object list) \<times> (string, PutArgs list) gomap) list" where
  "storesOf w = map (\<lambda>(name, kv). (name, kvmap kv, hints kv)) (demoServers w)"

lemma markMemberStatus_frame [simp]:
  "kvmap (markMemberStatus now v st kv) = kvmap kv" "hints (markMemberStatus now v st kv) = hints kv"
  "pauseGossip (markMemberStatus now v st kv) = pauseGossip kv"
  by (simp_all add: markMemberStatus_def split: option.splits)

lemma markMemberStatus_members:
  "map_of (members (markMemberStatus now v st kv)) u =
     (if u = v then map_option (\<lambda>m. m\<lparr>Status := st\<rparr>) (map_of (members kv) u) else map_of (members kv) u)"
  by (simp add: markMemberStatus_def gm_put_def map_of_gm_put update_conv' split: option.splits)

lemma demoServers_restore:
  "demoServers (restoreVictim env ids v w) =
     map (\<lambda>(i, name, kv). (name, markMemberStatus (clockAt env (demoTick w + i)) v Alive (if name = v then SetPBSDemoPauseMembershipGoss False kv else kv)))
       (List.enumerate 0 (demoServers w))"
  by (auto simp: restoreVictim_def setVictimIsolated_def markAll_def pauseGossipOf_def enumerate_eq_zip zip_map2 case_prod_unfold)

lemma healed_restore: "healed v (restoreVictim env ids u w)" if "v = u \<or> healed v w"
  using that by (auto simp: healed_def demoServers_restore SetPBSDemoPauseMembershipGoss_def markMemberStatus_members in_set_enumerate_eq
      split: if_splits dest!: nth_mem) fastforce+

lemma healed_fold: "v \<in> set us \<or> healed v w \<Longrightarrow> healed v (fold (restoreVictim env ids) us w)"
  by (induction us arbitrary: w) (auto intro: healed_restore)

text \<open>A reading \<open>f\<close> of the world that no action of the loop changes is not changed by the loop.\<close>

definition untouched :: "string list \<Rightarrow> (DemoWorld \<Rightarrow> 'a) \<Rightarrow> bool" where
  "untouched ids f \<longleftrightarrow> (\<forall>w env v st b l.
     f (markAll env v st w) = f w \<and> f (setVictimIsolated ids v b w) = f w \<and> f (pauseGossipOf v b w) = f w
     \<and> f (printLine l w) = f w \<and> f (snd (ctxDone env w)) = f w \<and> f (snd (readClock env w)) = f w
     \<and> (\<forall>d. f (snd (failureSleep env d w)) = f w) \<and> f (awaitCancel w) = f w)"

lemma untouchedD:
  assumes "untouched ids f"
  shows "f (takeDown env ids v w) = f w" "f (bringUp env ids v w) = f w" "f (restoreVictim env ids v w) = f w"
    "f (printLine l w) = f w" "ctxDone env w = (c, w') \<Longrightarrow> f w' = f w" "readClock env w = (t, w') \<Longrightarrow> f w' = f w"
    "failureSleep env d w = (c, w') \<Longrightarrow> f w' = f w" "f (awaitCancel w) = f w"
  using assms unfolding untouched_def takeDown_def bringUp_def restoreVictim_def by (metis snd_conv)+

lemma untouched_failures:
  assumes "untouched ids f"
  shows "singleFailure env ids d p v w = (c, w') \<Longrightarrow> f w' = f w"
    "overlappedFailures env ids d ov p v v' w = (c, w') \<Longrightarrow> f w' = f w"
    "upPause env u rest w = (c, w') \<Longrightarrow> f w' = f w"
  using untouchedD[OF assms]
  by (auto simp: singleFailure_def overlappedFailures_def upPause_def Let_def split: prod.splits bool.splits if_splits)

lemma untouched_cycleLoop: "untouched ids f \<Longrightarrow> f (cycleLoop env ids d u ov vs p w) = f w"
proof (induction vs arbitrary: p w rule: length_induct)
  case (1 vs)
  note D = untouchedD(5)[OF 1(2)] untouched_failures[OF 1(2)]
  have ih: "f (cycleLoop env ids d u ov ys p w) = f w" if "length ys < length vs" for ys p w using 1 that by blast
  show ?case
  proof (cases vs)
    case (Cons v rest)
    have "length rest < length vs" "length (tl (dropWhile (\<lambda>v. v = '''') rest)) < length vs"
      using Cons tl_dropWhile_shorter[of "\<lambda>v. v = ''''" rest] by auto
    note ih[OF this(1)] ih[OF this(2)]
    then show ?thesis unfolding Cons cycleLoop.simps Let_def by (auto split: prod.splits bool.splits dest!: D)
  qed simp
qed

lemma untouched_oneShot:
  assumes "untouched ids f"
  shows "f (oneShotFailure env ids d r t0 v w) = f w"
  using untouchedD[OF assms] by (auto simp: oneShotFailure_def Let_def split: prod.splits bool.splits)

lemma untouched_body:
  assumes "untouched ids f"
  shows "f (failureBody env opts vs ids w) = f w"
  using untouchedD(6,7)[OF assms] untouched_cycleLoop[OF assms] untouched_oneShot[OF assms]
  by (auto simp: failureBody_def split: prod.splits bool.splits)

lemma untouched_fold: "untouched ids f \<Longrightarrow> f (fold (restoreVictim env ids) us w) = f w"
  by (induction us arbitrary: w) (simp_all add: untouchedD(3))

lemma untouched_stores: "untouched ids storesOf"
proof -
  have "map (\<lambda>(i, name, kv). (name, kvmap kv, hints kv)) (List.enumerate n xs) = map (\<lambda>(name, kv). (name, kvmap kv, hints kv)) xs"
    for n and xs :: "(string \<times> KVServer) list"
    by (induction xs arbitrary: n) auto
  then show ?thesis
    by (auto simp: untouched_def storesOf_def markAll_def setVictimIsolated_def pauseGossipOf_def printLine_def ctxDone_def readClock_def
        failureSleep_def awaitCancel_def SetPBSDemoPauseMembershipGoss_def case_prod_unfold comp_def)
qed

lemma loop_sleeps: "demoSleeps (fold (restoreVictim env ids) us w) = demoSleeps w"
  by (induction us arbitrary: w) (simp_all add: world_frame)

lemma loop_net: "demoNet (fold (restoreVictim env ids) us w) = fold (\<lambda>v. pbsSetLabRPCVictimIsolated ids v False) us (demoNet w)"
  by (induction us arbitrary: w) (simp_all add: world_frame)

lemma failure_body_between:
  assumes "names_ok ids" "set vs \<subseteq> set ids" "vs \<noteq> []" "demoNet w \<noteq> None" "downWithin linkUp ids {} (demoNet w)" "demoSleeps w = []"
  shows "between (\<lambda>n. n \<noteq> None \<and> (\<exists>D \<subseteq> set vs. card D \<le> 2 \<and> finite D \<and> downWithin linkUp ids D n))
      (\<lambda>n. n \<noteq> None \<and> (\<exists>D \<subseteq> set vs. card D \<le> 2 \<and> finite D \<and> downWithin linkUp ids D n)) (failureBody env opts vs ids w)"
    "FailureOverlap opts \<le> 0 \<Longrightarrow> between (\<lambda>n. n \<noteq> None \<and> (\<exists>D \<subseteq> set vs. card D \<le> 1 \<and> finite D \<and> downExactly linkUp ids D n))
      (\<lambda>n. n \<noteq> None \<and> (\<exists>D \<subseteq> set vs. card D \<le> 1 \<and> finite D \<and> downExactly linkUp ids D n)) (failureBody env opts vs ids w)"
proof -
  have e: "downExactly linkUp ids {} (demoNet w)" using assms(5) by (simp add: downWithin_def downExactly_def)
  show "between (\<lambda>n. n \<noteq> None \<and> (\<exists>D \<subseteq> set vs. card D \<le> 2 \<and> finite D \<and> downWithin linkUp ids D n))
      (\<lambda>n. n \<noteq> None \<and> (\<exists>D \<subseteq> set vs. card D \<le> 2 \<and> finite D \<and> downWithin linkUp ids D n)) (failureBody env opts vs ids w)"
    by (rule failureBody_tracks[OF tracks_within[OF assms(1,2)]]) (use assms in \<open>auto simp: between_def sleeps_ok_def\<close>)
  show "FailureOverlap opts \<le> 0 \<Longrightarrow> between (\<lambda>n. n \<noteq> None \<and> (\<exists>D \<subseteq> set vs. card D \<le> 1 \<and> finite D \<and> downExactly linkUp ids D n))
      (\<lambda>n. n \<noteq> None \<and> (\<exists>D \<subseteq> set vs. card D \<le> 1 \<and> finite D \<and> downExactly linkUp ids D n)) (failureBody env opts vs ids w)"
    by (rule failureBody_tracks[OF tracks_exactly[OF assms(1,2)]]) (use assms e in \<open>auto simp: between_def sleeps_ok_def\<close>)
qed

lemma failure_loop_restores:
  assumes "names_ok ids" "set vs \<subseteq> set ids" "demoNet w \<noteq> None" "downWithin linkUp ids {} (demoNet w)" "demoSleeps w = []"
  shows "downWithin linkUp ids {} (demoNet (pbsSingleReplicaFailureLoop env opts vs ids w))"
proof (cases "vs = []")
  case False
  let ?b = "failureBody env opts vs ids w"
  obtain D where D: "demoNet ?b \<noteq> None" "D \<subseteq> set vs" "downWithin linkUp ids D (demoNet ?b)"
    using failure_body_between(1)[OF assms(1,2) False assms(3-5), of env opts] unfolding between_def by blast
  have "'''' \<notin> set vs" using assms(1,2) by (auto simp: names_ok_def)
  then have us: "set (uniqueStringIDs vs) = set vs" by (simp add: set_uniqueStringIDs)
  have "downWithin linkUp ids (D - set (uniqueStringIDs vs)) (fold (\<lambda>v. pbsSetLabRPCVictimIsolated ids v False) (uniqueStringIDs vs) (demoNet ?b))"
    by (rule links.restore_all[OF assms(1) D(1) _ D(3)]) (use us assms(2) in simp)
  moreover have "D - set (uniqueStringIDs vs) = {}" using D(2) us by auto
  ultimately show ?thesis using False by (simp add: pbsSingleReplicaFailureLoop_def loop_net)
qed (use assms(4) in \<open>simp add: pbsSingleReplicaFailureLoop_def\<close>)

subsection \<open>Counting failures\<close>

lemma addDuration_in_range: "minDuration \<le> a + b \<Longrightarrow> a + b \<le> maxDuration \<Longrightarrow> addDuration a b = a + b"
  unfolding addDuration_def minDuration_def maxDuration_def
  by (simp add: sint_sbintrunc' signed_take_bit_int_eq_self del: of_int_add)

lemma phaseLoop_counts:
  assumes "0 < c" "tRun + c \<le> maxDuration"
  shows "minDuration \<le> ts \<Longrightarrow> ts < tRun + c \<Longrightarrow> phaseLoop c tRun ts n = Some (n + (tRun - ts + c - 1) div c)"
proof (induction "nat (tRun + c - ts)" arbitrary: ts n rule: less_induct)
  case less
  show ?case
  proof (cases "ts < tRun")
    case True
    have "phaseLoop c tRun (ts + c) (n + 1) = Some (n + 1 + (tRun - (ts + c) + c - 1) div c)"
      by (rule less(1)) (use True assms less(2) in auto)
    moreover have "(tRun - ts + c - 1) div c = 1 + (tRun - (ts + c) + c - 1) div c"
      using assms(1) div_add_self1[of c "tRun - (ts + c) + c - 1"] by (simp add: algebra_simps)
    ultimately show ?thesis
      using True less(2) assms addDuration_in_range[of ts c] by (subst phaseLoop.simps) simp
  next
    case False
    then have "(tRun - ts + c - 1) div c = 0" using less(3) by (intro div_pos_pos_trivial) auto
    then show ?thesis using False by (subst phaseLoop.simps) simp
  qed
qed

lemma phaseLoop_stuck:
  assumes "phaseLoop c tRun ts n = Some m"
  shows "c = 0 \<longrightarrow> minDuration \<le> ts \<longrightarrow> ts \<le> maxDuration \<longrightarrow> tRun \<le> ts"
proof (rule phaseLoop.raw_induct[where P = "\<lambda>c tRun ts n m. c = 0 \<longrightarrow> minDuration \<le> ts \<longrightarrow> ts \<le> maxDuration \<longrightarrow> tRun \<le> ts", OF _ assms])
  fix loop c tRun ts n m
  assume ih: "\<And>c tRun ts n m. loop c tRun ts n = Some m \<Longrightarrow> c = 0 \<longrightarrow> minDuration \<le> ts \<longrightarrow> ts \<le> maxDuration \<longrightarrow> tRun \<le> ts"
    and body: "(if ts < tRun then loop c tRun (addDuration ts c) (n + 1) else Some n) = Some m"
  show "c = 0 \<longrightarrow> minDuration \<le> ts \<longrightarrow> ts \<le> maxDuration \<longrightarrow> tRun \<le> ts"
    using body ih[of c tRun "addDuration ts c" "n + 1" m] addDuration_in_range[of ts 0] by (auto split: if_splits)
qed

lemma count_cycle:
  "j < k \<Longrightarrow> length (filter (\<lambda>i. i mod k = j) [0..<n]) = (n + (k - 1 - j)) div k"
proof (induction n)
  case (Suc n)
  have "(Suc n + (k - 1 - j)) mod k = 0 \<longleftrightarrow> n mod k = j"
  proof -
    have "Suc n + (k - 1 - j) = n + (k - j)" using Suc.prems by simp
    then have "(Suc n + (k - 1 - j)) mod k = (n mod k + (k - j)) mod k" by (simp only: mod_add_left_eq)
    moreover have "(r + (k - j)) mod k = 0 \<longleftrightarrow> r = j" if "r < k" for r
      using that Suc.prems by (cases "r < j") (simp_all add: le_mod_geq mod_less)
    ultimately show ?thesis using Suc.prems by simp
  qed
  then show ?case using Suc by (simp add: div_Suc)
qed simp

subsection \<open>The log of failures\<close>

fun downLine :: "FailureLine \<Rightarrow> (nat \<times> string) list" where
  "downLine (NodeDown p v) = [(p, v)]"
| "downLine (NodeDownOverlap p v ov other) = [(p, v)]"
| "downLine (NodeUp p v) = []"

fun upLine :: "FailureLine \<Rightarrow> (nat \<times> string) list" where
  "upLine (NodeUp p v) = [(p, v)]"
| "upLine _ = []"

definition downLog :: "DemoWorld \<Rightarrow> (nat \<times> string) list" where
  "downLog w = concat (map downLine (demoPrinted w))"

definition upLog :: "DemoWorld \<Rightarrow> (nat \<times> string) list" where
  "upLog w = concat (map upLine (demoPrinted w))"

named_theorems log_simps \<open>what the actions of the failure loop print\<close>

lemma log_printLine [log_simps]:
  "downLog (printLine l w) = downLog w @ downLine l" "upLog (printLine l w) = upLog w @ upLine l"
  by (simp_all add: downLog_def upLog_def printLine_def)

lemma log_actions [log_simps]:
  "downLog (takeDown env ids v w) = downLog w" "upLog (takeDown env ids v w) = upLog w"
  "downLog (bringUp env ids v w) = downLog w" "upLog (bringUp env ids v w) = upLog w"
  "downLog (restoreVictim env ids v w) = downLog w" "upLog (restoreVictim env ids v w) = upLog w"
  "downLog (awaitCancel w) = downLog w" "upLog (awaitCancel w) = upLog w"
  by (simp_all add: downLog_def upLog_def takeDown_def bringUp_def restoreVictim_def setVictimIsolated_def markAll_def
      pauseGossipOf_def awaitCancel_def)

abbreviation uncancelled :: "FailureEnv \<Rightarrow> bool" where
  "uncancelled env \<equiv> \<forall>i. \<not> cancelledAt env i"

lemma log_waits:
  "ctxDone env w = (c, w') \<Longrightarrow> downLog w' = downLog w \<and> upLog w' = upLog w \<and> (uncancelled env \<longrightarrow> \<not> c)"
  "failureSleep env d w = (c, w') \<Longrightarrow> downLog w' = downLog w \<and> upLog w' = upLog w \<and> (uncancelled env \<longrightarrow> \<not> c)"
  "upPause env u rest w = (c, w') \<Longrightarrow> downLog w' = downLog w \<and> upLog w' = upLog w \<and> (uncancelled env \<longrightarrow> \<not> c)"
  "readClock env w = (t, w') \<Longrightarrow> downLog w' = downLog w \<and> upLog w' = upLog w"
  by (auto simp: downLog_def upLog_def ctxDone_def failureSleep_def upPause_def readClock_def split: if_splits)

text \<open>
  The run from \<open>w\<close> to \<open>w'\<close> took down the first \<open>k\<close> entries of \<open>es\<close> and brought up the first \<open>j\<close> of
  them; \<open>j\<close> is at most two behind, and everything is done when the run was not cancelled.
\<close>

definition logged :: "(nat \<times> string) list \<Rightarrow> bool \<Rightarrow> DemoWorld \<Rightarrow> DemoWorld \<Rightarrow> bool" where
  "logged es full w w' \<longleftrightarrow> (\<exists>j k. j \<le> k \<and> k \<le> j + 2 \<and> k \<le> length es
     \<and> downLog w' = downLog w @ take k es \<and> upLog w' = upLog w @ take j es \<and> (full \<longrightarrow> j = length es))"

lemma loggedI:
  "\<lbrakk>downLog w' = downLog w @ take k es; upLog w' = upLog w @ take j es; j \<le> k; k \<le> j + 2; k \<le> length es;
    full \<longrightarrow> j = length es\<rbrakk> \<Longrightarrow> logged es full w w'"
  unfolding logged_def by blast

lemma logged_same: "downLog w1 = downLog w \<Longrightarrow> upLog w1 = upLog w \<Longrightarrow> logged es c w1 w' = logged es c w w'"
  by (simp add: logged_def)

lemma logged_append:
  assumes "downLog w1 = downLog w @ ds" "upLog w1 = upLog w @ ds" "logged es c w1 w'"
  shows "logged (ds @ es) c w w'"
proof -
  obtain j k where jk: "j \<le> k" "k \<le> j + 2" "k \<le> length es" "c \<longrightarrow> j = length es"
      "downLog w' = downLog w1 @ take k es" "upLog w' = upLog w1 @ take j es"
    using assms(3) by (auto simp: logged_def)
  show ?thesis by (rule loggedI[of _ _ "length ds + k" _ "length ds + j"]) (use jk assms in auto)
qed

lemma singleFailure_log:
  assumes "singleFailure env ids d p v w = (c, w')"
  shows "if c then logged ((p, v) # es) False w w' \<and> \<not> uncancelled env
    else downLog w' = downLog w @ [(p, v)] \<and> upLog w' = upLog w @ [(p, v)]"
  using assms by (auto simp: singleFailure_def Let_def log_simps dest!: log_waits(2) split: prod.splits bool.splits
      intro!: loggedI[of _ _ 1 _ 0])

lemma overlappedFailures_log:
  assumes "overlappedFailures env ids d ov p v v' w = (c, w')"
  shows "if c then logged ((p, v) # (p + 1, v') # es) False w w' \<and> \<not> uncancelled env
    else downLog w' = downLog w @ [(p, v), (p + 1, v')] \<and> upLog w' = upLog w @ [(p, v), (p + 1, v')]"
proof -
  let ?es = "[(p, v), (p + 1, v')]"
  let ?w1 = "printLine (NodeDown p v) (takeDown env ids v w)"
  obtain b1 s1 where s1: "failureSleep env (d - ov) ?w1 = (b1, s1)" by fastforce
  let ?w2 = "printLine (NodeDownOverlap (p + 1) v' ov v) (takeDown env ids v' s1)"
  obtain b2 s2 where s2: "failureSleep env ov ?w2 = (b2, s2)" by fastforce
  let ?w3 = "printLine (NodeUp p v) (bringUp env ids v s2)"
  obtain b3 s3 where s3: "failureSleep env (d - ov) ?w3 = (b3, s3)" by fastforce
  note logs = log_waits(2)[OF s1] log_waits(2)[OF s2] log_waits(2)[OF s3]
  have "c = (b1 \<or> b2 \<or> b3)" "w' = (if b1 then s1 else if b2 then s2 else if b3 then s3 else printLine (NodeUp (p + 1) v') (bringUp env ids v' s3))"
    using assms s1 s2 s3 by (auto simp: overlappedFailures_def Let_def split: bool.splits)
  then have "downLog w' = downLog w @ take (if b1 then 1 else 2) ?es" "upLog w' = upLog w @ take (if b1 \<or> b2 then 0 else if b3 then 1 else 2) ?es"
      "c \<longrightarrow> \<not> uncancelled env"
    using logs by (auto simp: log_simps)
  then have "\<exists>j k. j \<le> k \<and> k \<le> 2 \<and> downLog w' = downLog w @ take k ?es \<and> upLog w' = upLog w @ take j ?es
      \<and> (c \<longrightarrow> \<not> uncancelled env) \<and> (\<not> c \<longrightarrow> j = 2)"
    using \<open>c = (b1 \<or> b2 \<or> b3)\<close> by (intro exI[of _ "if b1 \<or> b2 then 0 else if b3 then 1 else 2"] exI[of _ "if b1 then 1 else 2"]) auto
  then obtain j k where jk: "j \<le> k" "k \<le> 2" "downLog w' = downLog w @ take k [(p, v), (p + 1, v')]"
      "upLog w' = upLog w @ take j [(p, v), (p + 1, v')]" "c \<longrightarrow> \<not> uncancelled env" "\<not> c \<longrightarrow> j = 2" by blast
  have "take i ((p, v) # (p + 1, v') # es) = take i [(p, v), (p + 1, v')]" if "i \<le> 2" for i
    using that by (cases i; cases "i - 1") auto
  then have "c \<Longrightarrow> logged ((p, v) # (p + 1, v') # es) False w w'"
    using jk by (intro loggedI[of _ _ k _ j]) auto
  then show ?thesis using jk by auto
qed

lemma filter_dropWhile: "filter P (dropWhile (\<lambda>x. \<not> P x) xs) = filter P xs"
  by (induction xs) auto

definition scheduled :: "nat \<Rightarrow> string list \<Rightarrow> (nat \<times> string) list" where
  "scheduled p vs = List.enumerate p (filter (\<lambda>v. v \<noteq> '''') vs)"

lemma scheduled_simps [simp]:
  "scheduled p [] = []" "scheduled p ('''' # vs) = scheduled p vs"
  "v \<noteq> '''' \<Longrightarrow> scheduled p (v # vs) = (p, v) # scheduled (Suc p) vs"
  by (simp_all add: scheduled_def)

lemma scheduled_later:
  assumes "dropWhile (\<lambda>v. v = '''') vs \<noteq> []"
  shows "scheduled p vs = (p, hd (dropWhile (\<lambda>v. v = '''') vs)) # scheduled (Suc p) (tl (dropWhile (\<lambda>v. v = '''') vs))"
proof -
  have "scheduled p vs = scheduled p (dropWhile (\<lambda>v. v = '''') vs)"
    using filter_dropWhile[of "\<lambda>v. v \<noteq> ''''" vs] by (simp add: scheduled_def)
  then show ?thesis using hd_dropWhile_in[OF assms] assms by (cases "dropWhile (\<lambda>v. v = '''') vs") auto
qed

lemma logged_stop: "full \<longrightarrow> es = [] \<Longrightarrow> downLog w' = downLog w \<Longrightarrow> upLog w' = upLog w \<Longrightarrow> logged es full w w'"
  by (rule loggedI[of _ _ 0 _ 0]) auto

lemma cycleLoop_log: "logged (scheduled (Suc phase) vs) (uncancelled env) w (cycleLoop env ids d u ov vs phase w)"
proof (induction vs arbitrary: phase w rule: length_induct)
  case (1 vs)
  show ?case
  proof (cases vs)
    case (Cons vid rest)
    let ?later = "dropWhile (\<lambda>v. v = '''') rest"
    have ih: "logged (scheduled (Suc p) ys) (uncancelled env) x (cycleLoop env ids d u ov ys p x)" if "length ys \<le> length rest" for ys p x
      using 1 Cons that by auto
    have step: "logged (ds @ scheduled (Suc p) ys) (uncancelled env) w
          (case upPause env u ys x of (True, w) \<Rightarrow> w | (False, w) \<Rightarrow> cycleLoop env ids d u ov ys p w)"
      if "downLog x = downLog w @ ds" "upLog x = upLog w @ ds" "length ys \<le> length rest" for ds ys x p
    proof -
      obtain c s where s: "upPause env u ys x = (c, s)" by fastforce
      have "logged (scheduled (Suc p) ys) (uncancelled env) s (if c then s else cycleLoop env ids d u ov ys p s)"
        using log_waits(3)[OF s] ih[OF that(3), of p s] logged_stop[of "uncancelled env" _ s s] by auto
      then show ?thesis
        using log_waits(3)[OF s] that(1,2) logged_append[of s w ds] by (cases c) (simp_all add: s)
    qed
    obtain c w1 where c: "ctxDone env w = (c, w1)" by fastforce
    note w1 = log_waits(1)[OF c]
    have later: "length (tl ?later) \<le> length rest"
      using tl_dropWhile_shorter[of "\<lambda>v. v = ''''" rest] by auto
    have single: "logged ((p, vid) # scheduled (Suc p) rest) (uncancelled env) w (case singleFailure env ids d p vid w1 of (True, w) \<Rightarrow> w
        | (False, w) \<Rightarrow> (case upPause env u rest w of (True, w) \<Rightarrow> w | (False, w) \<Rightarrow> cycleLoop env ids d u ov rest p w))" for p
    proof -
      obtain c2 x where x: "singleFailure env ids d p vid w1 = (c2, x)" by fastforce
      show ?thesis
        using singleFailure_log[OF x, of "scheduled (Suc p) rest"] w1 step[of x "[(p, vid)]" rest p]
        by (cases c2) (auto simp: x logged_def)
    qed
    have double: "logged ((p, vid) # (Suc p, hd ?later) # scheduled (Suc (Suc p)) (tl ?later)) (uncancelled env) w
        (case overlappedFailures env ids d ov p vid (hd ?later) w1 of (True, w) \<Rightarrow> w
        | (False, w) \<Rightarrow> (case upPause env u (tl ?later) w of (True, w) \<Rightarrow> w | (False, w) \<Rightarrow> cycleLoop env ids d u ov (tl ?later) (Suc p) w))" for p
    proof -
      obtain c2 x where x: "overlappedFailures env ids d ov p vid (hd ?later) w1 = (c2, x)" by fastforce
      show ?thesis
        using overlappedFailures_log[OF x, of "scheduled (Suc (Suc p)) (tl ?later)"] w1 step[of x "[(p, vid), (Suc p, hd ?later)]" "tl ?later" "Suc p"] later
        by (cases c2) (auto simp: x logged_def)
    qed
    have skip: "logged (scheduled (Suc phase) rest) (uncancelled env) w (cycleLoop env ids d u ov rest phase w1)"
      using ih[of rest phase w1] logged_same[of w1 w] w1 by simp
    have suc: "phase + 1 = Suc phase" "phase + 2 = Suc (Suc phase)" by simp_all
    show ?thesis
    proof (cases c)
      case True
      then show ?thesis using c w1 unfolding Cons by (auto intro: logged_stop)
    next
      case False
      then show ?thesis
        using c skip single[of "Suc phase"] double[of "Suc phase"] scheduled_later[of rest "Suc (Suc phase)"]
        unfolding Cons cycleLoop.simps suc Let_def
        by (cases "vid = ''''") (auto simp del: dropWhile_eq_Nil_conv)
    qed
  qed (auto intro: logged_stop)
qed


definition demoEnv :: FailureEnv where
  "demoEnv = \<lparr>cancelledAt = \<lambda>i. False, clockAt = int\<rparr>"

definition demoFailures :: "Duration \<Rightarrow> PBSDemoOptions" where
  "demoFailures ov = \<lparr>OutputDir = ''.'', Keys = [''k''], WorkloadDuration = 100, NumWriters = 1, SleepBetweenOps = 0, NumReaders = 1,
     ReadSleep = 0, SleepJitterRatio = 0, NumNodes = 3, UnreliableNetwork = False, LongReorderingNet = False, RandomCoordinator = True,
     FailureStartAfter = 5, FailureDownDuration = 20, FailureUpDuration = 10, FailureRecoverAfter = 0, FailureOverlap = ov,
     DeadReplicaPickSeed = 0,
     PlotConfig = \<lparr>scNumReplicas = 3, scReadQuorum = 1, scWriteQuorum = 1, scDelta = 2, scDeltaPoints = 5, scK = 3, scIterations = 3,
       scYMin = 0, scYMax = 0, scEmitZoomPlot = False\<rparr>, Scenarios = []\<rparr>"

definition demoLinks :: "string list \<Rightarrow> Network" where
  "demoLinks ids = fold (\<lambda>f. fold (\<lambda>t. Enable (endName f t) True) ids) ids MakeNetwork"

definition demoWorld :: "string list \<Rightarrow> DemoWorld" where
  "demoWorld ids = \<lparr>demoServers = map (\<lambda>i. (i, sampleServer i)) ids, demoNet = Some (demoLinks ids), demoTick = 0, demoSleeps = [], demoPrinted = []\<rparr>"

lemma demoWorld_links: "downWithin linkUp [''a'', ''b'', ''c''] {} (demoNet (demoWorld [''a'', ''b'', ''c'']))"
  by (simp add: downWithin_def linkUp_def demoWorld_def demoLinks_def endEnabled_def Enable_def endName_def MakeNetwork_def)

lemma demoNames: "names_ok [''a'', ''b'', ''c'']"
  by (simp add: names_ok_def)

text \<open>
  C26: however the failure loop is timed and whenever it is cancelled, when it has returned every
  link between the nodes is up, every victim is alive in the member table of every server and
  gossips again, and no server has lost a key or a hint.
\<close>

theorem failure_loop_heals:
  assumes "names_ok ids" and "set vs \<subseteq> set ids" and "demoNet w \<noteq> None" and "downWithin linkUp ids {} (demoNet w)"
    and "demoSleeps w = []"
  shows "(\<forall>f \<in> set ids. \<forall>t \<in> set ids. linkUp (demoNet (pbsSingleReplicaFailureLoop env opts vs ids w)) f t)
    \<and> (\<forall>v \<in> set vs. healed v (pbsSingleReplicaFailureLoop env opts vs ids w))
    \<and> storesOf (pbsSingleReplicaFailureLoop env opts vs ids w) = storesOf w"
proof (intro conjI)
  show "\<forall>f \<in> set ids. \<forall>t \<in> set ids. linkUp (demoNet (pbsSingleReplicaFailureLoop env opts vs ids w)) f t"
    using failure_loop_restores[OF assms, of env opts] by (simp add: downWithin_def)
  have "'''' \<notin> set vs" using assms(1,2) by (auto simp: names_ok_def)
  then show "\<forall>v \<in> set vs. healed v (pbsSingleReplicaFailureLoop env opts vs ids w)"
    by (auto simp: pbsSingleReplicaFailureLoop_def set_uniqueStringIDs intro: healed_fold)
  show "storesOf (pbsSingleReplicaFailureLoop env opts vs ids w) = storesOf w"
    by (simp add: pbsSingleReplicaFailureLoop_def untouched_fold[OF untouched_stores] untouched_body[OF untouched_stores])
qed

theorem failure_loop_heals_witness:
  "linkUp (demoNet (pbsSingleReplicaFailureLoop demoEnv (demoFailures 5) [''a'', ''b''] [''a'', ''b'', ''c''] (demoWorld [''a'', ''b'', ''c'']))) ''b'' ''c''"
  using failure_loop_heals[OF demoNames _ _ demoWorld_links, of "[''a'', ''b'']" demoEnv "demoFailures 5"] by (simp add: demoWorld_def)



text \<open>
  victims go down in the order of the schedule, numbered from one, and come up in the same
  order, at most two behind; a repeating run that is not cancelled takes down and brings up every
  victim.
\<close>

theorem failure_log_in_order:
  assumes "0 < FailureUpDuration opts" and "demoPrinted w = []"
  shows "\<exists>j k. j \<le> k \<and> k \<le> j + 2 \<and> downLog (failureBody env opts vs ids w) = take k (scheduled 1 vs)
    \<and> upLog (failureBody env opts vs ids w) = take j (scheduled 1 vs)
    \<and> ((\<forall>i. \<not> cancelledAt env i) \<longrightarrow> j = length (scheduled 1 vs))"
proof -
  obtain t0 w0 where t0: "readClock env w = (t0, w0)" by fastforce
  obtain c s where s: "failureSleep env (FailureStartAfter opts) w0 = (c, s)" by fastforce
  let ?ov = "if FailureOverlap opts < 0 then 0 else FailureOverlap opts"
  note l = log_waits(4)[OF t0] log_waits(2)[OF s]
  have e: "downLog w = []" "upLog w = []" using assms(2) by (simp_all add: downLog_def upLog_def)
  have b: "failureBody env opts vs ids w = (if c then s else cycleLoop env ids (FailureDownDuration opts) (FailureUpDuration opts) ?ov vs 0 s)"
    using t0 s assms(1) by (simp add: failureBody_def split: bool.splits)
  have "logged (scheduled 1 vs) (uncancelled env) s (failureBody env opts vs ids w)"
  proof (cases c)
    case True
    then show ?thesis using l by (auto simp: b intro!: logged_stop)
  next
    case False
    then show ?thesis using cycleLoop_log[of 0 vs env s ids _ _ ?ov] unfolding b One_nat_def by simp
  qed
  then show ?thesis using l e unfolding logged_def by auto
qed

theorem failure_log_in_order_witness:
  "upLog (failureBody demoEnv (demoFailures 5) [''a'', ''b'', ''c''] [''a'', ''b'', ''c''] (demoWorld [''a'', ''b'', ''c'']))
     = [(1, ''a''), (2, ''b''), (3, ''c'')]"
proof -
  let ?ids = "[''a'', ''b'', ''c'']"
  have "0 < FailureUpDuration (demoFailures 5)" "demoPrinted (demoWorld ?ids) = []" "uncancelled demoEnv"
    by (simp_all add: demoFailures_def demoWorld_def demoEnv_def)
  moreover have "scheduled 1 ?ids = [(1, ''a''), (2, ''b''), (3, ''c'')]" by (simp add: numeral_eq_Suc)
  ultimately show ?thesis using failure_log_in_order[of "demoFailures 5" "demoWorld ?ids" demoEnv ?ids ?ids] by fastforce
qed

text \<open>
  with overlapping failures the second victim is not isolated until its failure ends: bringing
  up the first victim enables the links between the two, although the second is still down.
\<close>

theorem overlap_reconnects_victims:
  assumes "names_ok ids" and "demoNet w \<noteq> None" and "v \<in> set ids" and "v' \<in> set ids" and "v \<noteq> v'" and "0 < ov" and "ov < d"
    and "overlappedFailures env ids d ov p v v' w = (False, w')"
  shows "\<exists>n. last (demoSleeps w') = (Some (d - ov), n) \<and> linkUp n v v' \<and> linkUp n v' v
    \<and> (\<forall>t \<in> set ids. t \<noteq> v \<longrightarrow> \<not> linkUp n v' t \<and> \<not> linkUp n t v')"
proof -
  let ?n = "pbsSetLabRPCVictimIsolated ids v False (pbsSetLabRPCVictimIsolated ids v' True (pbsSetLabRPCVictimIsolated ids v True (demoNet w)))"
  have slp: "failureSleep env e x = (False, y) \<Longrightarrow> demoNet y = demoNet x \<and> (0 < e \<longrightarrow> demoSleeps y = demoSleeps x @ [(Some e, demoNet x)])" for e x y
    by (auto simp: failureSleep_def ctxDone_def split: if_splits)
  have "last (demoSleeps w') = (Some (d - ov), ?n)"
    using assms(6-8) by (auto simp: overlappedFailures_def Let_def world_frame split: prod.splits bool.splits dest!: slp)
  moreover have "linkUp ?n f t = (if f = v \<or> t = v then True else if f = v' \<or> t = v' then False else linkUp (demoNet w) f t)"
    if "f \<in> set ids" "t \<in> set ids" for f t
    using that assms(1-4) links.isolate_present by (simp add: links.isolate_up)
  ultimately show ?thesis using assms(3-5) by auto
qed

theorem overlap_reconnects_victims_witness:
  "\<exists>c w' n. overlappedFailures demoEnv [''a'', ''b'', ''c''] 20 5 1 ''a'' ''b'' (demoWorld [''a'', ''b'', ''c'']) = (c, w')
     \<and> last (demoSleeps w') = (Some 15, n) \<and> linkUp n ''a'' ''b'' \<and> \<not> linkUp n ''b'' ''c''"
proof -
  let ?ids = "[''a'', ''b'', ''c'']"
  obtain c w' where o: "overlappedFailures demoEnv ?ids 20 5 1 ''a'' ''b'' (demoWorld ?ids) = (c, w')" by fastforce
  have "\<not> c" using overlappedFailures_log[OF o, of "[]"] by (auto simp: demoEnv_def split: if_splits)
  then show ?thesis
    using overlap_reconnects_victims[of ?ids "demoWorld ?ids" "''a''" "''b''" 5 20 demoEnv 1 w'] o demoNames by (auto simp: demoWorld_def)
qed

lemma cycleVictims_props:
  assumes "distinct pref" "2 \<le> length pref"
  shows "length (cycleVictims pref n) = n" "set (cycleVictims pref n) \<subseteq> set pref"
    "Suc i < n \<Longrightarrow> cycleVictims pref n ! i \<noteq> cycleVictims pref n ! Suc i"
    "j < length pref \<Longrightarrow> count_list (cycleVictims pref n) (pref ! j) = (n + (length pref - 1 - j)) div length pref"
proof -
  let ?k = "length pref"
  have k: "0 < ?k" "pref \<noteq> []" using assms(2) by auto
  show "length (cycleVictims pref n) = n" "set (cycleVictims pref n) \<subseteq> set pref"
    using k by (auto simp: cycleVictims_def)
  show "cycleVictims pref n ! i \<noteq> cycleVictims pref n ! Suc i" if "Suc i < n"
  proof -
    have "i mod ?k \<noteq> Suc i mod ?k" using assms(2) by (simp add: mod_Suc)
    then show ?thesis using that assms(1) k by (simp add: cycleVictims_def nth_eq_iff_index_eq)
  qed
  show "count_list (cycleVictims pref n) (pref ! j) = (n + (?k - 1 - j)) div ?k" if "j < ?k"
  proof -
    have "count_list (cycleVictims pref n) (pref ! j) = length (filter (\<lambda>i. i mod ?k = j) [0..<n])"
      using that assms(1) k nth_eq_iff_index_eq[OF assms(1) that]
      by (simp add: cycleVictims_def count_list_eq_length_filter filter_map comp_def) (metis (mono_tags, lifting) mod_less_divisor)
    then show ?thesis using count_cycle[OF that, of n] by simp
  qed
qed

text \<open>
  for accepted options whose times stay within 64 bits the number of scheduled failures is
  computed in finitely many steps: in the repeating mode it is the number of cycle starts before
  the end of the run, otherwise at most one. Without the validation the computation does not
  return when the up time cancels the down time.
\<close>

theorem failure_phases_counted:
  assumes "minDuration \<le> FailureStartAfter opts"
  shows "(validatePBSDemoFailureOptions opts = None
        \<and> WorkloadDuration opts + FailureDownDuration opts + FailureUpDuration opts \<le> maxDuration \<and> 0 \<le> WorkloadDuration opts \<longrightarrow>
      countPBSDemoScheduledFailurePhases opts = Some (
        if 0 < FailureUpDuration opts
        then max 0 ((WorkloadDuration opts - FailureStartAfter opts + (FailureDownDuration opts + FailureUpDuration opts) - 1)
                    div (FailureDownDuration opts + FailureUpDuration opts))
        else if WorkloadDuration opts \<le> FailureStartAfter opts \<and>
          \<not> (FailureStartAfter opts = 0 \<and> FailureDownDuration opts = 0 \<and> FailureUpDuration opts = 0 \<and> FailureRecoverAfter opts = 0)
        then 0 else 1))
    \<and> (0 < FailureUpDuration opts \<and> FailureDownDuration opts = - FailureUpDuration opts
        \<and> FailureStartAfter opts < WorkloadDuration opts \<and> WorkloadDuration opts \<le> maxDuration
      \<longrightarrow> countPBSDemoScheduledFailurePhases opts = None)"
proof -
  let ?s = "FailureStartAfter opts" and ?d = "FailureDownDuration opts" and ?u = "FailureUpDuration opts" and ?t = "WorkloadDuration opts"
  have cyc: "phaseLoop (addDuration ?d ?u) ?t ?s 0 = Some ((?t - ?s + (?d + ?u) - 1) div (?d + ?u))"
    if "0 < ?u" "0 < ?d" "?t + ?d + ?u \<le> maxDuration" "0 \<le> ?t" "?s < ?t"
  proof -
    have a: "addDuration ?d ?u = ?d + ?u"
      using that by (intro addDuration_in_range) (auto simp: minDuration_def)
    have "phaseLoop (?d + ?u) ?t ?s 0 = Some (0 + (?t - ?s + (?d + ?u) - 1) div (?d + ?u))"
      by (rule phaseLoop_counts) (use that assms in auto)
    then show ?thesis by (simp add: a)
  qed
  have pos: "0 < ?d" if "validatePBSDemoFailureOptions opts = None" "0 < ?u"
    using that by (auto simp: validatePBSDemoFailureOptions_def split: if_splits)
  have low: "(?t - ?s + (?d + ?u) - 1) div (?d + ?u) \<le> 0" if "?t \<le> ?s" "0 < ?d" "0 < ?u"
  proof -
    have "(?t - ?s + (?d + ?u) - 1) div (?d + ?u) \<le> (?d + ?u - 1) div (?d + ?u)" using that by (intro zdiv_mono1) auto
    also have "\<dots> = 0" using that by (intro div_pos_pos_trivial) auto
    finally show ?thesis .
  qed
  have high: "0 \<le> (?t - ?s + (?d + ?u) - 1) div (?d + ?u)" if "?s < ?t" "0 < ?d" "0 < ?u"
    using that by (intro pos_imp_zdiv_nonneg_iff[THEN iffD2]) auto
  have stuck: "phaseLoop (addDuration ?d ?u) ?t ?s 0 = None" if "?d = - ?u" "?s < ?t" "?t \<le> maxDuration"
  proof -
    have "addDuration ?d ?u = 0" using that addDuration_in_range[of "- ?u" ?u] by (simp add: minDuration_def maxDuration_def)
    then show ?thesis
      using that assms phaseLoop_stuck[of 0 ?t ?s 0] by (cases "phaseLoop 0 ?t ?s 0") auto
  qed
  have "countPBSDemoScheduledFailurePhases opts = Some (if 0 < ?u then max 0 ((?t - ?s + (?d + ?u) - 1) div (?d + ?u))
      else if ?t \<le> ?s \<and> \<not> (?s = 0 \<and> ?d = 0 \<and> ?u = 0 \<and> FailureRecoverAfter opts = 0) then 0 else 1)"
    if "validatePBSDemoFailureOptions opts = None" "?t + ?d + ?u \<le> maxDuration" "0 \<le> ?t"
  proof (cases "0 < ?u")
    case True
    note d = pos[OF that(1) True]
    show ?thesis
    proof (cases "?t \<le> ?s")
      case le: True
      then have "max 0 ((?t - ?s + (?d + ?u) - 1) div (?d + ?u)) = 0" using low[OF le d True] by (simp only: max_absorb1)
      then show ?thesis using True le by (simp add: countPBSDemoScheduledFailurePhases_def Let_def)
    next
      case gt: False
      then have "max 0 ((?t - ?s + (?d + ?u) - 1) div (?d + ?u)) = (?t - ?s + (?d + ?u) - 1) div (?d + ?u)"
        using high d True by (simp only: max_absorb2 not_le)
      then show ?thesis
        using True gt cyc[OF True d that(2,3)] by (simp add: countPBSDemoScheduledFailurePhases_def Let_def)
    qed
  qed (auto simp: countPBSDemoScheduledFailurePhases_def Let_def)
  moreover have "countPBSDemoScheduledFailurePhases opts = None" if "0 < ?u" "?d = - ?u" "?s < ?t" "?t \<le> maxDuration"
    using that stuck by (simp add: countPBSDemoScheduledFailurePhases_def Let_def)
  ultimately show ?thesis by blast
qed

theorem failure_phases_counted_witness:
  "countPBSDemoScheduledFailurePhases (demoFailures 5) = Some 4"
  using failure_phases_counted[of "demoFailures 5"]
  by (simp add: demoFailures_def validatePBSDemoFailureOptions_def minDuration_def maxDuration_def)

text \<open>
  on a well-formed ring with a replication target of at least two, the victims of an
  experiment are replicas of its key, two successive failures hit different replicas, and over
  the run every replica fails equally often up to one failure.
\<close>

theorem failure_victims_rotate:
  assumes "ready_ring r" and "2 \<le> neighborTarget r" and "FailureMode sc = ''single_dead_replica''" and "0 < n"
  shows "\<exists>vs. buildPBSFailureReplicaSequence k r n sc = Some (Inr (Inr vs)) \<and> length vs = nat n
    \<and> set vs \<subseteq> set (preferenceOf r k) \<and> (\<forall>i. Suc i < nat n \<longrightarrow> vs ! i \<noteq> vs ! Suc i)
    \<and> (\<forall>v \<in> set (preferenceOf r k). nat n div nat (neighborTarget r) \<le> count_list vs v
         \<and> count_list vs v \<le> nat n div nat (neighborTarget r) + 1)"
proof -
  let ?p = "preferenceOf r k" and ?k = "nat (neighborTarget r)"
  have p: "distinct ?p" "length ?p = ?k" "2 \<le> ?k"
    using chr.pref_distinct[OF assms(1)] chr.pref_length[OF assms(1)] assms(2) by auto
  note c = cycleVictims_props[of ?p, unfolded p(2), OF p(1,3)]
  have "nat n div ?k \<le> count_list (cycleVictims ?p (nat n)) v \<and> count_list (cycleVictims ?p (nat n)) v \<le> nat n div ?k + 1"
    if v: "v \<in> set ?p" for v
  proof -
    obtain j where j: "j < ?k" "v = ?p ! j" using v p(2) by (metis in_set_conv_nth)
    have "(nat n + (?k - 1 - j)) div ?k \<le> (nat n + ?k) div ?k" by (intro div_le_mono) simp
    moreover have "nat n div ?k \<le> (nat n + (?k - 1 - j)) div ?k" by (intro div_le_mono) simp
    moreover have "(nat n + ?k) div ?k = nat n div ?k + 1" using p(3) by simp
    ultimately show ?thesis using c(4)[OF j(1), of "nat n"] unfolding j(2) by linarith
  qed
  then show ?thesis
    using c(1,2)[of "nat n"] c(3)[where n = "nat n"] assms(3,4) p GetPreferenceList_ready[OF assms(1), of k]
    by (intro exI[of _ "cycleVictims ?p (nat n)"]) (auto simp: buildPBSFailureReplicaSequence_def)
qed

theorem failure_victims_rotate_witness:
  "\<exists>vs. buildPBSFailureReplicaSequence ''k'' sampleRing 5
       \<lparr>scenarioName = ''s'', scenarioLabel = ''s'', EnableReadRepair = False, EnableAntiEntropy = False, EnableHintedHandoff = False,
        FailureMode = ''single_dead_replica''\<rparr> = Some (Inr (Inr vs)) \<and> length vs = 5 \<and> vs ! 0 \<noteq> vs ! 1"
  using failure_victims_rotate[OF sampleRing_ready, of
    "\<lparr>scenarioName = ''s'', scenarioLabel = ''s'', EnableReadRepair = False, EnableAntiEntropy = False, EnableHintedHandoff = False,
        FailureMode = ''single_dead_replica''\<rparr>" 5 "''k''"] by fastforce

end
