(* ===== verification/Client.thy ===== *)
theory Client
  imports ServerState
begin

text \<open>
  The clerk, \<^verbatim>\<open>kvsrv/client.go\<close>: retried calls to the coordinator of a key and the choice of
  one object among concurrent siblings. The network is a function on the state of the world:
  a call returns the reply, or \<open>None\<close> when \<^verbatim>\<open>clnt.Call\<close> returned false, and the next world.
  A slice that may be nil is an optional list.
\<close>

record Clerk =
  clerkRing :: ConsistentHashRing

definition MakeClerk :: "ConsistentHashRing \<Rightarrow> Clerk" where
  "MakeClerk chr = \<lparr>clerkRing = chr\<rparr>"

definition maxRetry :: nat where
  "maxRetry = 3"

type_synonym ('w, 'a, 'r) rpc = "'w \<Rightarrow> string \<Rightarrow> 'a \<Rightarrow> 'r option \<times> 'w"

text \<open>The retry loop of \<open>CoordGet\<close>; \<open>ok\<close> is the outcome of the last call.\<close>

fun clerkGetLoop :: "('w, GetArgs, GetReply) rpc \<Rightarrow> Clerk \<Rightarrow> string \<Rightarrow> nat \<Rightarrow> bool \<Rightarrow> 'w \<Rightarrow> (Object list option \<times> Err) \<times> 'w" where
  "clerkGetLoop call ck key 0 ok w = ((None, if \<not> ok then ErrRPCFailure else ErrNotCoordinator), w)"
| "clerkGetLoop call ck key (Suc retries) ok w =
     (let coordinator = GetCoordinator (clerkRing ck) key;
          (res, w') = call w coordinator \<lparr>getKey = key\<rparr>
      in case res of
           None \<Rightarrow> clerkGetLoop call ck key retries False w'
         | Some reply \<Rightarrow>
             if getErr reply \<noteq> ErrNotCoordinator
             then (if length (getObjects reply) = 0 then (None, ErrNoKey) else (Some (getObjects reply), OK), w')
             else clerkGetLoop call ck key retries True w')"

definition clerkCoordGet :: "('w, GetArgs, GetReply) rpc \<Rightarrow> Clerk \<Rightarrow> string \<Rightarrow> 'w \<Rightarrow> (Object list option \<times> Err) \<times> 'w" where
  "clerkCoordGet call ck key w = clerkGetLoop call ck key maxRetry False w"

fun clerkPutLoop :: "('w, PutArgs, PutReply) rpc \<Rightarrow> Clerk \<Rightarrow> PutArgs \<Rightarrow> nat \<Rightarrow> bool \<Rightarrow> bool \<Rightarrow> 'w \<Rightarrow> Err \<times> 'w" where
  "clerkPutLoop call ck args 0 hadRPCFailure ok w = (if \<not> ok then ErrMaybe else ErrNotCoordinator, w)"
| "clerkPutLoop call ck args (Suc retries) hadRPCFailure ok w =
     (let coordinator = GetCoordinator (clerkRing ck) (putKey args);
          (res, w') = call w coordinator args
      in case res of
           None \<Rightarrow> clerkPutLoop call ck args retries True False w'
         | Some reply \<Rightarrow>
             if putErr reply \<noteq> ErrNotCoordinator
             then (if putErr reply = ErrVersion \<and> hadRPCFailure then ErrMaybe else putErr reply, w')
             else clerkPutLoop call ck args retries hadRPCFailure True w')"

definition clerkCoordPut :: "('w, PutArgs, PutReply) rpc \<Rightarrow> Clerk \<Rightarrow> string \<Rightarrow> string \<Rightarrow> Context \<Rightarrow> 'w \<Rightarrow> Err \<times> 'w" where
  "clerkCoordPut call ck key val context w =
     clerkPutLoop call ck \<lparr>putKey = key, putObject = \<lparr>Value = val, Ctx = context\<rparr>, BaseContext = context\<rparr>
       maxRetry False False w"

definition clerkPut :: "('w, PutArgs, PutReply) rpc \<Rightarrow> Clerk \<Rightarrow> string \<Rightarrow> string \<Rightarrow> Context \<Rightarrow> 'w \<Rightarrow> Err \<times> 'w" where
  "clerkPut call ck key val context w = clerkCoordPut call ck key val context w"

definition laterSibling :: "Object \<Rightarrow> Object \<Rightarrow> Object" where
  "laterSibling sibling latest =
     (let cmp = CompareCtx (Ctx sibling) (Ctx latest)
      in if cmp = After then sibling
         else if (cmp = Concurrent \<or> cmp = Equal) \<and> Timestamp (Ctx sibling) > Timestamp (Ctx latest) then sibling
         else latest)"

definition pickLatestObject :: "Object list \<Rightarrow> panic + Object" where
  "pickLatestObject siblings =
     (case siblings of [] \<Rightarrow> Inl IndexOutOfRange | latest # rest \<Rightarrow> Inr (fold laterSibling rest latest))"

definition clientBasedResolution :: "Object list \<Rightarrow> panic + Object" where
  "clientBasedResolution siblings = pickLatestObject siblings"

text \<open>\<open>now\<close> is the clock that \<open>NewContext\<close> reads for a missing key.\<close>

definition clerkGet :: "u64 \<Rightarrow> ('w, GetArgs, GetReply) rpc \<Rightarrow> Clerk \<Rightarrow> string \<Rightarrow> 'w \<Rightarrow> panic + (string \<times> Context \<times> Err) \<times> 'w" where
  "clerkGet now call ck key w =
     (let ((siblings, err), w') = clerkCoordGet call ck key w
      in case siblings of
           None \<Rightarrow> Inr (('''', NewContext now, err), w')
         | Some sibs \<Rightarrow>
             if length sibs = 1 then Inr ((Value (sibs ! 0), Ctx (sibs ! 0), err), w')
             else map_sum id (\<lambda>obj. ((Value obj, Ctx obj, err), w')) (clientBasedResolution sibs))"

subsection \<open>What the retries amount to\<close>

text \<open>The results of the first \<open>n\<close> calls of a request, if they are all made.\<close>

fun attempts :: "('w, 'a, 'r) rpc \<Rightarrow> string \<Rightarrow> 'a \<Rightarrow> nat \<Rightarrow> 'w \<Rightarrow> 'r option list" where
  "attempts call srv args 0 w = []"
| "attempts call srv args (Suc n) w = fst (call w srv args) # attempts call srv args n (snd (call w srv args))"

lemma length_attempts [simp]: "length (attempts call srv args n w) = n"
  by (induction n arbitrary: w) simp_all

definition decisive :: "('r \<Rightarrow> Err) \<Rightarrow> 'r option \<Rightarrow> bool" where
  "decisive err res \<longleftrightarrow> (\<exists>reply. res = Some reply \<and> err reply \<noteq> ErrNotCoordinator)"

text \<open>The verdict of a request, from the results of its calls alone.\<close>

definition getVerdict :: "GetReply option list \<Rightarrow> Object list option \<times> Err" where
  "getVerdict rs =
     (case find (decisive getErr) rs of
        Some (Some reply) \<Rightarrow> if getObjects reply = [] then (None, ErrNoKey) else (Some (getObjects reply), OK)
      | _ \<Rightarrow> (None, if rs = [] \<or> last rs = None then ErrRPCFailure else ErrNotCoordinator))"

definition putVerdictOf :: "bool \<Rightarrow> PutReply option list \<Rightarrow> Err" where
  "putVerdictOf failed rs =
     (case find (decisive putErr) rs of
        Some (Some reply) \<Rightarrow>
          if putErr reply = ErrVersion \<and> (failed \<or> None \<in> set (takeWhile (\<lambda>r. \<not> decisive putErr r) rs))
          then ErrMaybe else putErr reply
      | _ \<Rightarrow> if rs = [] \<or> last rs = None then ErrMaybe else ErrNotCoordinator)"

lemma clerkGetLoop_verdict:
  "fst (clerkGetLoop call ck key n ok w) =
     (if n = 0 \<and> ok then (None, ErrNotCoordinator)
      else getVerdict (attempts call (GetCoordinator (clerkRing ck) key) \<lparr>getKey = key\<rparr> n w))"
proof (induction n arbitrary: ok w)
  case (Suc n)
  obtain res w' where c: "call w (GetCoordinator (clerkRing ck) key) \<lparr>getKey = key\<rparr> = (res, w')" by fastforce
  have ne: "attempts call srv args n w = [] \<longleftrightarrow> n = 0" for srv args w by (metis length_0_conv length_attempts)
  show ?case using Suc ne by (cases res) (auto simp: c getVerdict_def decisive_def)
qed (simp add: getVerdict_def)

lemma clerkPutLoop_verdict:
  "fst (clerkPutLoop call ck args n failed ok w) =
     (if n = 0 \<and> ok then ErrNotCoordinator
      else putVerdictOf failed (attempts call (GetCoordinator (clerkRing ck) (putKey args)) args n w))"
proof (induction n arbitrary: failed ok w)
  case (Suc n)
  obtain res w' where c: "call w (GetCoordinator (clerkRing ck) (putKey args)) args = (res, w')" by fastforce
  have ne: "attempts call srv args n w = [] \<longleftrightarrow> n = 0" for srv args w by (metis length_0_conv length_attempts)
  show ?case using Suc ne by (cases res) (auto simp: c putVerdictOf_def decisive_def split: option.splits)
qed (simp add: putVerdictOf_def)

subsection \<open>Resolution of siblings\<close>

lemma laterSibling_cases: "laterSibling s l = s \<or> laterSibling s l = l"
  by (simp add: laterSibling_def Let_def)

lemma fold_later_member: "fold laterSibling rest l \<in> insert l (set rest)"
proof (induction rest arbitrary: l)
  case (Cons s rest)
  show ?case using Cons[of "laterSibling s l"] laterSibling_cases[of s l] by auto
qed simp

text \<open>On pairwise concurrent siblings only the timestamps decide.\<close>

definition unordered :: "Object list \<Rightarrow> bool" where
  "unordered ss \<longleftrightarrow> (\<forall>a \<in> set ss. \<forall>b \<in> set ss. CompareCtx (Ctx a) (Ctx b) = Concurrent \<or> CompareCtx (Ctx a) (Ctx b) = Equal)"

lemma siblings_unordered: "siblings_ok ss \<Longrightarrow> unordered ss"
  by (auto simp: unordered_def siblings_ok_def antichain_def versions_def ctx.cmp_iff obj_ver_def) metis

lemma fold_later_latest:
  "unordered (l # rest) \<Longrightarrow> \<forall>s \<in> set (l # rest). Timestamp (Ctx s) \<le> Timestamp (Ctx (fold laterSibling rest l))"
proof (induction rest arbitrary: l)
  case (Cons s rest)
  have "laterSibling s l = (if Timestamp (Ctx s) > Timestamp (Ctx l) then s else l)"
    using Cons.prems by (auto simp: laterSibling_def Let_def unordered_def)
  moreover have "unordered (laterSibling s l # rest)"
    using Cons.prems laterSibling_cases[of s l] by (auto simp: unordered_def)
  ultimately show ?case using Cons.IH[of "laterSibling s l"] by (auto split: if_splits)
qed simp

subsection \<open>Properties\<close>



text \<open>
  a clerk's get never panics. It returns the first answer that is not
  \<open>ErrNotCoordinator\<close> among at most three calls: among concurrent siblings the one with the
  greatest timestamp, and \<open>ErrNoKey\<close> whenever that answer carries no object, also when the
  coordinator reported that it reached no read quorum.
\<close>

theorem clerk_get_verdict:
  assumes "rs = attempts call (GetCoordinator (clerkRing ck) key) \<lparr>getKey = key\<rparr> maxRetry w"
  shows "\<exists>val context err w'. clerkGet now call ck key w = Inr ((val, context, err), w') \<and>
    (case find (decisive getErr) rs of
       Some (Some reply) \<Rightarrow>
         (if getObjects reply = [] then err = ErrNoKey \<and> val = '''' \<and> context = NewContext now
          else err = OK \<and> (\<exists>obj \<in> set (getObjects reply). val = Value obj \<and> context = Ctx obj
            \<and> (siblings_ok (getObjects reply) \<longrightarrow> (\<forall>s \<in> set (getObjects reply). Timestamp (Ctx s) \<le> Timestamp context))))
     | _ \<Rightarrow> val = '''' \<and> context = NewContext now \<and> err = (if last rs = None then ErrRPCFailure else ErrNotCoordinator))"
proof -
  have rs: "rs \<noteq> []" unfolding assms by (metis length_attempts length_0_conv maxRetry_def zero_neq_numeral)
  obtain sibs err w' where c: "clerkCoordGet call ck key w = ((sibs, err), w')" by (metis surj_pair)
  have v: "(sibs, err) = getVerdict rs"
    using clerkGetLoop_verdict[of call ck key maxRetry False w] c assms by (simp add: clerkCoordGet_def)
  consider (ans) reply where "find (decisive getErr) rs = Some (Some reply)" | (none) "find (decisive getErr) rs = None"
    using rs by (cases "find (decisive getErr) rs") (auto simp: find_Some_iff decisive_def)
  then show ?thesis
  proof cases
    case (ans reply)
    show ?thesis
    proof (cases "getObjects reply")
      case Nil
      then show ?thesis using ans v c by (auto simp: clerkGet_def getVerdict_def)
    next
      case (Cons l rest)
      let ?o = "fold laterSibling rest l"
      have "clerkGet now call ck key w = Inr ((Value ?o, Ctx ?o, OK), w')"
        using Cons ans v c by (cases rest)
          (auto simp: clerkGet_def getVerdict_def clientBasedResolution_def pickLatestObject_def)
      moreover have "?o \<in> set (getObjects reply)" using fold_later_member[of rest l] Cons by simp
      moreover have "siblings_ok (getObjects reply) \<Longrightarrow> \<forall>s \<in> set (getObjects reply). Timestamp (Ctx s) \<le> Timestamp (Ctx ?o)"
        using fold_later_latest[of l rest] siblings_unordered Cons by auto
      ultimately show ?thesis using ans Cons by auto
    qed
  next
    case none
    then show ?thesis using rs v c by (auto simp: clerkGet_def getVerdict_def)
  qed
qed

theorem clerk_get_verdict_witness:
  "\<exists>val context w'. clerkGet 0 (\<lambda>n srv args. (Some (newGetReply\<lparr>getErr := ErrReadQuorumNotMet\<rparr>), n))
      (MakeClerk sampleRing) ''k'' (0::nat) = Inr ((val, context, ErrNoKey), w')"
proof -
  let ?call = "\<lambda>n srv (args :: GetArgs). (Some (newGetReply\<lparr>getErr := ErrReadQuorumNotMet\<rparr>), n :: nat)"
  have "find (decisive getErr) (attempts ?call s a maxRetry 0) = Some (Some (newGetReply\<lparr>getErr := ErrReadQuorumNotMet\<rparr>))" for s a
    by (simp add: maxRetry_def numeral_3_eq_3 decisive_def newGetReply_def)
  then show ?thesis
    using clerk_get_verdict[OF refl, of 0 ?call "MakeClerk sampleRing" "''k''" 0] by (auto simp: newGetReply_def)
qed

end
