(* ===== verification/Observer.thy ===== *)
theory Observer
  imports GoFloat Collector
begin

text \<open>
  The staleness observer, \<^verbatim>\<open>kvsrv_eval/observer.go\<close>: which reads are regular up to a time
  bound (\<open>delta\<close>) or up to a number of versions (\<open>k\<close>), and the observed fractions. Fractions
  are rational numbers: the rounding of \<^verbatim>\<open>float64\<close> division is not modelled.
\<close>

subsection \<open>Consistency of one read with one write\<close>

fun IsConsistent :: "Object \<Rightarrow> Object list \<Rightarrow> bool" where
  "IsConsistent writeObj [] = False"
| "IsConsistent writeObj (readObj # rest) =
     (let cmp = CompareCtx (Ctx writeObj) (Ctx readObj)
      in if cmp = After then False
         else if cmp = Equal \<or> cmp = Before then True
         else IsConsistent writeObj rest)"

definition overlaps :: "CompletedRead \<Rightarrow> CompletedWrite \<Rightarrow> bool" where
  "overlaps read write \<longleftrightarrow> cwStartedAt write < ReturnedAt read \<and> CommittedAt write > crStartedAt read"

definition zeroObject :: Object where
  "zeroObject = \<lparr>Value = '''', Ctx = \<lparr>VC = [], Timestamp = 0, ETag = ''''\<rparr>\<rparr>"

subsection \<open>Regular up to a delay\<close>

fun deltaLoop :: "CompletedRead \<Rightarrow> Time \<Rightarrow> CompletedWrite list \<Rightarrow> CompletedWrite \<Rightarrow> bool" where
  "deltaLoop read cutoff [] latestWriteBeforeDelta =
     (if IsConsistent (cwObject latestWriteBeforeDelta) (ReturnedObjects read) then True else False)"
| "deltaLoop read cutoff (write # rest) latestWriteBeforeDelta =
     (if cwKey write \<noteq> crKey read then deltaLoop read cutoff rest latestWriteBeforeDelta
      else if overlaps read write then
        if IsConsistent (cwObject write) (ReturnedObjects read) then True
        else deltaLoop read cutoff rest latestWriteBeforeDelta
      else if CommittedAt write > crStartedAt read \<and> \<not> cwStartedAt write < ReturnedAt read
      then deltaLoop read cutoff rest latestWriteBeforeDelta
      else if CommittedAt write < cutoff then
        deltaLoop read cutoff rest
          (if CommittedAt write > CommittedAt latestWriteBeforeDelta then write else latestWriteBeforeDelta)
      else if IsConsistent (cwObject write) (ReturnedObjects read) then True
      else deltaLoop read cutoff rest latestWriteBeforeDelta)"

definition isDeltaRegular :: "CompletedRead \<Rightarrow> CompletedWrite list \<Rightarrow> Duration \<Rightarrow> bool" where
  "isDeltaRegular read ws delta =
     deltaLoop read (crStartedAt read - delta) ws (NewCompletedWrite (crKey read) 0 0 zeroObject)"

definition ObserveDeltaP :: "CompletedRead list \<Rightarrow> CompletedWrite list \<Rightarrow> Duration \<Rightarrow> rat" where
  "ObserveDeltaP rs ws delta =
     (if length rs = 0 then 0
      else let consistentCount = fold (\<lambda>read n. if isDeltaRegular read ws delta then n + 1 else n) rs (0::nat)
           in of_nat consistentCount / of_nat (length rs))"

definition ObserveDeltaPSweep :: "PBSCollector \<Rightarrow> Duration list \<Rightarrow> rat list" where
  "ObserveDeltaPSweep c deltas = map (\<lambda>delta. ObserveDeltaP (reads c) (writes c) delta) deltas"

definition ObserveDeltaPSweepE2E :: "PBSCollector \<Rightarrow> Duration list \<Rightarrow> int \<Rightarrow> rat list" where
  "ObserveDeltaPSweepE2E c deltas allReadAttempts =
     (if allReadAttempts \<le> 0 then ObserveDeltaPSweep c deltas
      else map (\<lambda>delta. of_nat (fold (\<lambda>read n. if isDeltaRegular read (writes c) delta then n + 1 else n) (reads c) (0::nat))
             / of_int allReadAttempts) deltas)"

subsection \<open>Regular up to a number of versions\<close>

text \<open>The first index of a minimal commit time among the first \<open>k\<close> candidates.\<close>

definition stalestIndex :: "nat \<Rightarrow> CompletedWrite list \<Rightarrow> nat" where
  "stalestIndex k cand =
     fold (\<lambda>i stalest. if CommittedAt (cand ! i) < CommittedAt (cand ! stalest) then i else stalest) [1..<k] 0"

fun kLoop :: "CompletedRead \<Rightarrow> int \<Rightarrow> CompletedWrite list \<Rightarrow> CompletedWrite list \<Rightarrow> CompletedWrite list
    \<Rightarrow> panic + CompletedWrite list \<times> CompletedWrite list" where
  "kLoop read k [] kCandidate overlapped = Inr (kCandidate, overlapped)"
| "kLoop read k (write # rest) kCandidate overlapped =
     (if cwKey write \<noteq> crKey read then kLoop read k rest kCandidate overlapped
      else if overlaps read write then kLoop read k rest kCandidate (overlapped @ [write])
      else if \<not> CommittedAt write > crStartedAt read then
        if int (length kCandidate) < k then kLoop read k rest (kCandidate @ [write]) overlapped
        else let stalest = stalestIndex (nat k) kCandidate
             in if stalest < length kCandidate then kLoop read k rest (kCandidate[stalest := write]) overlapped
                else Inl IndexOutOfRange
      else kLoop read k rest kCandidate overlapped)"

definition isKRegular :: "CompletedRead \<Rightarrow> CompletedWrite list \<Rightarrow> int \<Rightarrow> panic + bool" where
  "isKRegular read ws k =
     (if k < 0 then Inl (ExplicitPanic ''makeslice: cap out of range'')
      else map_sum id (\<lambda>(kCandidate, overlapped).
             if \<exists>write \<in> set overlapped. IsConsistent (cwObject write) (ReturnedObjects read) then True
             else if \<exists>write \<in> set kCandidate. IsConsistent (cwObject write) (ReturnedObjects read) then True
             else False) (kLoop read k ws [] []))"

fun countKRegular :: "CompletedRead list \<Rightarrow> CompletedWrite list \<Rightarrow> int \<Rightarrow> nat \<Rightarrow> panic + nat" where
  "countKRegular [] ws k n = Inr n"
| "countKRegular (read # rest) ws k n =
     (case isKRegular read ws k of
        Inl p \<Rightarrow> Inl p
      | Inr regular \<Rightarrow> countKRegular rest ws k (if regular then n + 1 else n))"

definition ObserveKP :: "CompletedRead list \<Rightarrow> CompletedWrite list \<Rightarrow> int \<Rightarrow> panic + rat" where
  "ObserveKP rs ws k =
     (if length rs = 0 then Inr 0
      else map_sum id (\<lambda>n. of_nat n / of_nat (length rs)) (countKRegular rs ws k 0))"

fun sweepK :: "(int \<Rightarrow> panic + rat) \<Rightarrow> int list \<Rightarrow> panic + rat list" where
  "sweepK f [] = Inr []"
| "sweepK f (k # ks) = (case f k of Inl p \<Rightarrow> Inl p | Inr x \<Rightarrow> map_sum id (\<lambda>xs. x # xs) (sweepK f ks))"

definition ObserveKPSweep :: "PBSCollector \<Rightarrow> int list \<Rightarrow> panic + rat list" where
  "ObserveKPSweep c ks = sweepK (\<lambda>k. ObserveKP (reads c) (writes c) k) ks"

definition ObserveKPSweepE2E :: "PBSCollector \<Rightarrow> int list \<Rightarrow> int \<Rightarrow> panic + rat list" where
  "ObserveKPSweepE2E c ks allReadAttempts =
     (if allReadAttempts \<le> 0 then ObserveKPSweep c ks
      else sweepK (\<lambda>k. map_sum id (\<lambda>n. of_nat n / of_int allReadAttempts) (countKRegular (reads c) (writes c) k 0)) ks)"

subsection \<open>Consistency is coverage\<close>

lemma IsConsistent_covers:
  "antichain (versions rs) \<Longrightarrow> IsConsistent w rs \<longleftrightarrow> covers (versions rs) (obj_ver w)"
proof (induction rs)
  case (Cons r rs)
  have ac: "antichain (versions rs)" using Cons.prems by (auto simp: antichain_def)
  have "\<not> covers (versions (r # rs)) (obj_ver w)" if "CompareCtx (Ctx w) (Ctx r) = After"
  proof
    assume "covers (versions (r # rs)) (obj_ver w)"
    then obtain x where x: "x \<in> versions (r # rs)" "obj_ver w \<le> x" by (auto simp: covers_def)
    have lt: "obj_ver r < obj_ver w" using that by (auto simp: ctx.cmp_iff obj_ver_def less_le)
    then have "obj_ver r = x" using Cons.prems x by (auto simp: antichain_def)
    then show False using x(2) lt by simp
  qed
  then show ?case
    using Cons.IH[OF ac] by (cases "CompareCtx (Ctx w) (Ctx r)")
      (auto simp: covers_def ctx.cmp_iff obj_ver_def)
qed (simp add: covers_def)

subsection \<open>The delta loop\<close>

definition inWindow :: "CompletedRead \<Rightarrow> Time \<Rightarrow> CompletedWrite \<Rightarrow> bool" where
  "inWindow read cutoff w \<longleftrightarrow> cwKey w = crKey read \<and>
     (overlaps read w \<or> CommittedAt w \<le> crStartedAt read \<and> cutoff \<le> CommittedAt w)"

definition beforeCutoff :: "CompletedRead \<Rightarrow> Time \<Rightarrow> CompletedWrite \<Rightarrow> bool" where
  "beforeCutoff read cutoff w \<longleftrightarrow> cwKey w = crKey read \<and> \<not> overlaps read w \<and> CommittedAt w \<le> crStartedAt read \<and> CommittedAt w < cutoff"

definition latestOf :: "CompletedWrite list \<Rightarrow> CompletedWrite \<Rightarrow> CompletedWrite" where
  "latestOf ws l = fold (\<lambda>w l. if CommittedAt w > CommittedAt l then w else l) ws l"

lemma deltaLoop_spec:
  "deltaLoop read cutoff ws l \<longleftrightarrow>
     (\<exists>w \<in> set ws. inWindow read cutoff w \<and> IsConsistent (cwObject w) (ReturnedObjects read))
     \<or> IsConsistent (cwObject (latestOf (filter (beforeCutoff read cutoff) ws) l)) (ReturnedObjects read)"
proof (induction ws arbitrary: l)
  case (Cons w ws)
  show ?case
  proof (cases "cwKey w = crKey read \<and> (overlaps read w \<or> CommittedAt w \<le> crStartedAt read)")
    case True
    then show ?thesis using Cons by (auto simp: inWindow_def beforeCutoff_def latestOf_def overlaps_def)
  next
    case False
    then have "\<not> inWindow read cutoff w" "\<not> beforeCutoff read cutoff w"
      by (auto simp: inWindow_def beforeCutoff_def)
    moreover have "deltaLoop read cutoff (w # ws) l = deltaLoop read cutoff ws l"
      using False by (auto simp: overlaps_def)
    ultimately show ?thesis using Cons by simp
  qed
qed (simp add: latestOf_def)

lemma latestOf_step: "latestOf (w # ws) l = latestOf ws (if CommittedAt w > CommittedAt l then w else l)"
  by (simp add: latestOf_def)

lemma latestOf_props:
  "(latestOf ws l = l \<or> latestOf ws l \<in> set ws) \<and> CommittedAt l \<le> CommittedAt (latestOf ws l)
   \<and> (\<forall>w \<in> set ws. CommittedAt w \<le> CommittedAt (latestOf ws l))"
proof (induction ws arbitrary: l)
  case (Cons w ws)
  show ?case
    using Cons[of w] Cons[of l] by (cases "CommittedAt w > CommittedAt l") (auto simp: latestOf_step)
qed (simp add: latestOf_def)

lemma latestOf_none: "\<forall>w \<in> set ws. CommittedAt w \<le> CommittedAt l \<Longrightarrow> latestOf ws l = l"
  by (induction ws) (auto simp: latestOf_def)

text \<open>
  Moving the cutoff back either keeps the latest write before it, or that write is now
  inside the window.
\<close>

lemma latestOf_earlier:
  assumes "c' \<le> c"
  shows "latestOf (filter (beforeCutoff read c') ws) l = latestOf (filter (beforeCutoff read c) ws) l
    \<or> latestOf (filter (beforeCutoff read c) ws) l \<in> set ws \<and> inWindow read c' (latestOf (filter (beforeCutoff read c) ws) l)"
proof -
  let ?r = "latestOf (filter (beforeCutoff read c) ws) l"
  have sub: "beforeCutoff read c' w \<Longrightarrow> beforeCutoff read c w" for w using assms by (auto simp: beforeCutoff_def)
  note p = latestOf_props[of "filter (beforeCutoff read c) ws" l]
  show ?thesis
  proof (cases "?r = l")
    case True
    then have "\<forall>w \<in> set (filter (beforeCutoff read c') ws). CommittedAt w \<le> CommittedAt l" using p sub by auto
    then show ?thesis using latestOf_none True by metis
  next
    case False
    then have r: "?r \<in> set ws" "beforeCutoff read c ?r" using p by auto
    show ?thesis
    proof (cases "CommittedAt ?r < c'")
      case True
      then have "beforeCutoff read c w \<longleftrightarrow> beforeCutoff read c' w" if "w \<in> set ws" for w
        using p that sub by (fastforce simp: beforeCutoff_def)
      then have "filter (beforeCutoff read c) ws = filter (beforeCutoff read c') ws" by (intro filter_cong) auto
      then show ?thesis by simp
    next
      case False
      then show ?thesis using r by (auto simp: inWindow_def beforeCutoff_def)
    qed
  qed
qed

lemma isDeltaRegular_mono:
  assumes "delta \<le> delta'" and "isDeltaRegular read ws delta"
  shows "isDeltaRegular read ws delta'"
proof -
  let ?c = "crStartedAt read - delta" and ?c' = "crStartedAt read - delta'"
  let ?l = "NewCompletedWrite (crKey read) 0 0 zeroObject"
  have le: "?c' \<le> ?c" using assms(1) by simp
  have win: "inWindow read ?c w \<Longrightarrow> inWindow read ?c' w" for w using le by (auto simp: inWindow_def)
  show ?thesis
    using assms(2) win latestOf_earlier[OF le, of read ws ?l] unfolding isDeltaRegular_def deltaLoop_spec by metis
qed

lemma countDelta: "fold (\<lambda>read n. if P read then n + 1 else n) rs n = n + length (filter P rs)" for n :: nat
  by (induction rs arbitrary: n) auto

lemma ObserveDeltaP_eq:
  "ObserveDeltaP rs ws delta = of_nat (length (filter (\<lambda>r. isDeltaRegular r ws delta) rs)) / of_nat (length rs)"
  by (simp add: ObserveDeltaP_def countDelta)

lemma length_filter_mono: "(\<And>x. P x \<Longrightarrow> Q x) \<Longrightarrow> length (filter P xs) \<le> length (filter Q xs)"
  by (induction xs) auto

lemma ObserveDeltaP_mono: "delta \<le> delta' \<Longrightarrow> ObserveDeltaP rs ws delta \<le> ObserveDeltaP rs ws delta'"
  unfolding ObserveDeltaP_eq using isDeltaRegular_mono by (intro divide_right_mono) (auto intro: length_filter_mono)

lemma ObserveDeltaP_range: "0 \<le> ObserveDeltaP rs ws delta" "ObserveDeltaP rs ws delta \<le> 1"
  unfolding ObserveDeltaP_eq by (simp_all add: divide_le_eq_1)

subsection \<open>The k latest writes\<close>

definition precedes :: "CompletedRead \<Rightarrow> CompletedWrite \<Rightarrow> bool" where
  "precedes read w \<longleftrightarrow> cwKey w = crKey read \<and> \<not> overlaps read w \<and> CommittedAt w \<le> crStartedAt read"

lemma stalest_fold:
  "s < length cand \<Longrightarrow> set xs \<subseteq> {..<length cand} \<Longrightarrow>
   t = fold (\<lambda>i s. if CommittedAt (cand ! i) < CommittedAt (cand ! s) then i else s) xs s \<Longrightarrow>
   t < length cand \<and> CommittedAt (cand ! t) \<le> CommittedAt (cand ! s) \<and> (\<forall>i \<in> set xs. CommittedAt (cand ! t) \<le> CommittedAt (cand ! i))"
proof (induction xs arbitrary: s)
  case (Cons i xs)
  let ?s = "if CommittedAt (cand ! i) < CommittedAt (cand ! s) then i else s"
  have "?s < length cand" using Cons.prems by auto
  then show ?case using Cons.IH[of ?s] Cons.prems by (auto split: if_splits)
qed simp

lemma stalestIndex_props:
  assumes "0 < length cand"
  shows "stalestIndex (length cand) cand < length cand"
    and "\<forall>w \<in> set cand. CommittedAt (cand ! stalestIndex (length cand) cand) \<le> CommittedAt w"
proof -
  let ?t = "stalestIndex (length cand) cand"
  have sub: "set [1..<length cand] \<subseteq> {..<length cand}" by auto
  have p: "?t < length cand" "CommittedAt (cand ! ?t) \<le> CommittedAt (cand ! 0)"
      "\<forall>i \<in> set [1..<length cand]. CommittedAt (cand ! ?t) \<le> CommittedAt (cand ! i)"
    using stalest_fold[OF assms sub stalestIndex_def] by blast+
  show "?t < length cand" using p(1) .
  show "\<forall>w \<in> set cand. CommittedAt (cand ! ?t) \<le> CommittedAt w"
  proof
    fix w assume "w \<in> set cand"
    then obtain i where i: "i < length cand" "w = cand ! i" by (auto simp: in_set_conv_nth)
    then show "CommittedAt (cand ! ?t) \<le> CommittedAt w" using p(2,3) by (cases "i = 0") auto
  qed
qed

text \<open>
  On writes in the order of their commits the candidates are \<open>k\<close> of the preceding writes
  that committed latest.
\<close>

definition latestK :: "nat \<Rightarrow> CompletedWrite list \<Rightarrow> CompletedWrite list \<Rightarrow> bool" where
  "latestK k prec cand \<longleftrightarrow> (\<exists>dropped. mset prec = mset cand + mset dropped \<and> length cand = min k (length prec)
     \<and> (\<forall>d \<in> set dropped. \<forall>c \<in> set cand. CommittedAt d \<le> CommittedAt c))"

lemma latestK_add:
  assumes "latestK k prec cand" and "length cand < k"
  shows "latestK k (prec @ [w]) (cand @ [w])"
proof -
  obtain dropped where d: "mset prec = mset cand + mset dropped" "length cand = min k (length prec)"
    using assms(1) by (auto simp: latestK_def)
  then have "length prec = length cand" using assms(2) by auto
  then have "dropped = []" using d(1) by (metis add_cancel_right_right length_0_conv size_mset size_union)
  then show ?thesis using d assms(2) by (auto simp: latestK_def intro!: exI[of _ "[]"])
qed

lemma latestK_replace:
  assumes "latestK k prec cand" and "length cand = k" and "0 < k" and "\<forall>v \<in> set prec. CommittedAt v \<le> CommittedAt w"
  shows "latestK k (prec @ [w]) (cand[stalestIndex k cand := w])"
proof -
  obtain dropped where d: "mset prec = mset cand + mset dropped" "length cand = min k (length prec)"
      "\<forall>d \<in> set dropped. \<forall>c \<in> set cand. CommittedAt d \<le> CommittedAt c"
    using assms(1) by (auto simp: latestK_def)
  let ?i = "stalestIndex k cand"
  have i: "?i < length cand" "\<forall>v \<in> set cand. CommittedAt (cand ! ?i) \<le> CommittedAt v"
    using stalestIndex_props[of cand] assms(2,3) by auto
  have mem: "set prec = set cand \<union> set dropped" using d(1) by (metis set_mset_mset set_mset_union)
  have new: "set (cand[?i := w]) \<subseteq> insert w (set cand)" by (rule set_update_subset_insert)
  have "\<forall>x \<in> set (cand ! ?i # dropped). \<forall>c \<in> set (cand[?i := w]). CommittedAt x \<le> CommittedAt c"
  proof (intro ballI)
    fix x c assume x: "x \<in> set (cand ! ?i # dropped)" and c: "c \<in> set (cand[?i := w])"
    have "x \<in> set prec" using x mem i(1) by auto
    then show "CommittedAt x \<le> CommittedAt c" using x c new d(3) i assms(4) by (cases "c = w") auto
  qed
  moreover have "mset (prec @ [w]) = mset (cand[?i := w]) + mset (cand ! ?i # dropped)"
    using d(1) i(1) by (simp add: mset_update insert_DiffM)
  moreover have "length (cand[?i := w]) = min k (length (prec @ [w]))" using d(2) assms(2) by simp
  ultimately show ?thesis unfolding latestK_def by blast
qed

lemma kLoop_spec:
  "0 < k \<Longrightarrow> sorted (map CommittedAt (prec @ filter (precedes read) ws)) \<Longrightarrow> latestK (nat k) prec cand \<Longrightarrow>
   \<exists>cand'. kLoop read k ws cand over = Inr (cand', over @ filter (\<lambda>w. cwKey w = crKey read \<and> overlaps read w) ws)
     \<and> latestK (nat k) (prec @ filter (precedes read) ws) cand'"
proof (induction ws arbitrary: prec cand over)
  case (Cons w ws)
  have lenK: "length cand \<le> nat k" using Cons.prems(3) by (auto simp: latestK_def)
  consider "cwKey w \<noteq> crKey read" | "cwKey w = crKey read" "overlaps read w" | "cwKey w = crKey read" "\<not> overlaps read w" "\<not> precedes read w"
    | "precedes read w" "length cand < nat k" | "precedes read w" "length cand = nat k" using lenK by linarith
  then show ?case
  proof cases
    case 1
    then show ?thesis using Cons by (auto simp: precedes_def)
  next
    case 2
    then show ?thesis using Cons.IH[of prec cand "over @ [w]"] Cons.prems by (auto simp: precedes_def)
  next
    case 3
    then show ?thesis using Cons by (auto simp: precedes_def not_le)
  next
    case 4
    then show ?thesis
      using Cons.IH[of "prec @ [w]" "cand @ [w]" over] Cons.prems latestK_add[OF Cons.prems(3)]
      by (auto simp: precedes_def not_less)
  next
    case 5
    then have lt: "stalestIndex (nat k) cand < length cand" using stalestIndex_props(1)[of cand] Cons.prems(1) by simp
    have "\<forall>v \<in> set prec. CommittedAt v \<le> CommittedAt w" using Cons.prems(2) 5(1) by (auto simp: sorted_append)
    then have "latestK (nat k) (prec @ [w]) (cand[stalestIndex (nat k) cand := w])"
      using latestK_replace[OF Cons.prems(3) 5(2)] Cons.prems(1) by simp
    then show ?thesis
      using Cons.IH[of "prec @ [w]" "cand[stalestIndex (nat k) cand := w]" over] Cons.prems 5 lt
      by (auto simp: precedes_def not_less Let_def)
  qed
qed simp

subsection \<open>Properties\<close>

text \<open>
  C23: a read is regular up to \<open>delta\<close> exactly when its objects cover some write of the key
  that overlaps the read or committed at most \<open>delta\<close> before it, or the last write committed
  before that (the empty version when there is none). Allowing more delay never makes a
  regular read irregular, so the observed fraction grows with \<open>delta\<close>, between 0 and 1.
\<close>

theorem delta_regularity:
  assumes "antichain (versions (ReturnedObjects read))" and "delta \<le> delta'"
  shows "(isDeltaRegular read ws delta \<longleftrightarrow>
       (\<exists>w \<in> set ws. inWindow read (crStartedAt read - delta) w \<and> covers (versions (ReturnedObjects read)) (obj_ver (cwObject w)))
       \<or> covers (versions (ReturnedObjects read)) (obj_ver (cwObject (latestOf (filter (beforeCutoff read (crStartedAt read - delta)) ws)
            (NewCompletedWrite (crKey read) 0 0 zeroObject)))))
    \<and> (isDeltaRegular read ws delta \<longrightarrow> isDeltaRegular read ws delta')
    \<and> 0 \<le> ObserveDeltaP rs ws delta \<and> ObserveDeltaP rs ws delta \<le> ObserveDeltaP rs ws delta' \<and> ObserveDeltaP rs ws delta' \<le> 1"
proof (intro conjI impI)
  show "isDeltaRegular read ws delta \<longleftrightarrow>
       (\<exists>w \<in> set ws. inWindow read (crStartedAt read - delta) w \<and> covers (versions (ReturnedObjects read)) (obj_ver (cwObject w)))
       \<or> covers (versions (ReturnedObjects read)) (obj_ver (cwObject (latestOf (filter (beforeCutoff read (crStartedAt read - delta)) ws)
            (NewCompletedWrite (crKey read) 0 0 zeroObject))))"
    by (simp add: isDeltaRegular_def deltaLoop_spec IsConsistent_covers[OF assms(1)])
qed (use isDeltaRegular_mono[OF assms(2)] ObserveDeltaP_mono[OF assms(2)] ObserveDeltaP_range in blast)+

definition sampleRead :: CompletedRead where
  "sampleRead = \<lparr>crKey = ''k'', crStartedAt = 10, ReturnedAt = 12, ReturnedObjects = [sampleObj ''v'' [(''a'', 1)] 5]\<rparr>"

definition sampleWrite :: "u64 \<Rightarrow> Time \<Rightarrow> CompletedWrite" where
  "sampleWrite n t = \<lparr>cwKey = ''k'', cwStartedAt = t - 1, CommittedAt = t, cwObject = sampleObj ''v'' [(''a'', n)] 5\<rparr>"

theorem delta_regularity_witness:
  "ObserveDeltaP [sampleRead] [sampleWrite 1 5, sampleWrite 2 7] 2 \<le> ObserveDeltaP [sampleRead] [sampleWrite 1 5, sampleWrite 2 7] 6"
  using delta_regularity[of sampleRead 2 6 "[sampleWrite 1 5, sampleWrite 2 7]" "[sampleRead]"]
  by (simp add: sampleRead_def antichain_def)

text \<open>
  C24: with \<open>k > 0\<close> and the writes in the order of their commits, as the collector keeps them,
  the test of k-regularity does not panic and holds exactly when the objects of the read
  cover some write that overlaps it or one of the \<open>k\<close> writes that committed latest before it
  (no dropped write committed after a kept one). A negative \<open>k\<close> panics.
\<close>

theorem k_regularity:
  assumes "collector_ok c" and "0 < k" and "antichain (versions (ReturnedObjects read))"
  shows "(\<exists>latest. latestK (nat k) (filter (precedes read) (writes c)) latest
      \<and> isKRegular read (writes c) k = Inr (\<exists>w \<in> set latest \<union> {w \<in> set (writes c). cwKey w = crKey read \<and> overlaps read w}.
            covers (versions (ReturnedObjects read)) (obj_ver (cwObject w))))
    \<and> isKRegular read (writes c) (- k) = Inl (ExplicitPanic ''makeslice: cap out of range'')"
proof -
  have "sorted (map CommittedAt (filter (precedes read) (writes c)))"
    using assms(1) by (simp add: collector_ok_def sorted_filter)
  then obtain cand where "kLoop read k (writes c) [] [] = Inr (cand, filter (\<lambda>w. cwKey w = crKey read \<and> overlaps read w) (writes c))"
      "latestK (nat k) (filter (precedes read) (writes c)) cand"
    using kLoop_spec[OF assms(2), of "[]" read "writes c" "[]" "[]"] by (auto simp: latestK_def)
  then show ?thesis
    using assms(2) by (intro conjI exI[of _ cand]) (auto simp: isKRegular_def IsConsistent_covers[OF assms(3)])
qed

theorem k_regularity_witness:
  "\<exists>b. isKRegular sampleRead (writes (ObserveCompletedWrite (sampleWrite 1 5) NewPBSCollector)) 1 = Inr b"
  using k_regularity[OF collector_ok_completed(1)[OF collector_ok_New], of 1 sampleRead "sampleWrite 1 5"]
  by (auto simp: sampleRead_def antichain_def)

end
