(* ===== verification/GoFormat.thy ===== *)
theory GoFormat
  imports GoFloat GoStd
begin

text \<open>
  Texts that the program builds with the standard library of Go: decimal numbers
  (\<^verbatim>\<open>strconv\<close>, \<^verbatim>\<open>fmt\<close>) and slash-separated paths (\<^verbatim>\<open>path/filepath\<close> on Unix).
\<close>

subsection \<open>Decimal numbers\<close>

text \<open>\<^verbatim>\<open>strconv.Itoa\<close> and \<^verbatim>\<open>strconv.FormatInt\<close> with base ten.\<close>

fun decimal :: "nat \<Rightarrow> string" where
  "decimal n = (if n < 10 then [char_of (48 + n)] else decimal (n div 10) @ [char_of (48 + n mod 10)])"

declare decimal.simps [simp del]

definition Itoa :: "int \<Rightarrow> string" where
  "Itoa n = (if n < 0 then ''-'' @ decimal (nat (- n)) else decimal (nat n))"

text \<open>Exactly \<open>p\<close> digits.\<close>

fun digits :: "nat \<Rightarrow> nat \<Rightarrow> string" where
  "digits 0 n = []"
| "digits (Suc p) n = digits p (n div 10) @ [char_of (48 + n mod 10)]"

definition roundHalfEven :: "rat \<Rightarrow> int" where
  "roundHalfEven x =
     (let f = \<lfloor>x\<rfloor>; r = x - of_int f
      in if r < 1 / 2 then f else if r > 1 / 2 then f + 1 else if even f then f else f + 1)"

text \<open>\<^verbatim>\<open>strconv.FormatFloat\<close> with format \<^verbatim>\<open>'f'\<close>, and the verb \<^verbatim>\<open>%.pf\<close>.\<close>

definition formatFixed :: "nat \<Rightarrow> rat \<Rightarrow> string" where
  "formatFixed p v =
     (let n = nat (roundHalfEven (\<bar>v\<bar> * 10 ^ p))
      in (if v < 0 then ''-'' else '''') @ decimal (n div 10 ^ p) @ (if p = 0 then '''' else ''.'' @ digits p (n mod 10 ^ p)))"

lemma decimal_digits: "c \<in> set (decimal n) \<Longrightarrow> \<exists>d < 10. c = char_of (48 + d :: nat)"
proof (induction n rule: decimal.induct)
  case (1 n)
  then show ?case
    by (subst (asm) decimal.simps) (auto split: if_splits intro: exI[of _ n] exI[of _ "n mod 10"])
qed

subsection \<open>Paths\<close>

fun splitSlash :: "string \<Rightarrow> string list" where
  "splitSlash [] = ['''']"
| "splitSlash (c # cs) =
     (if c = CHR ''/'' then '''' # splitSlash cs
      else case splitSlash cs of w # ws \<Rightarrow> (c # w) # ws | [] \<Rightarrow> [[c]])"

fun joinSlash :: "string list \<Rightarrow> string" where
  "joinSlash [] = ''''"
| "joinSlash [w] = w"
| "joinSlash (w # ws) = w @ ''/'' @ joinSlash ws"

text \<open>
  One element of a path: empty ones and \<^verbatim>\<open>.\<close> are dropped, \<^verbatim>\<open>..\<close> removes the element before it,
  is dropped at the root and kept at the start of a relative path.
\<close>

definition cleanStep :: "bool \<Rightarrow> string \<Rightarrow> string list \<Rightarrow> string list" where
  "cleanStep rooted w out =
     (if w = '''' \<or> w = ''.'' then out
      else if w = ''..'' then
        if out \<noteq> [] \<and> last out \<noteq> ''..'' then butlast out
        else if rooted then out else out @ [''..'']
      else out @ [w])"

definition filepath_Clean :: "string \<Rightarrow> string" where
  "filepath_Clean path =
     (if path = '''' then ''.''
      else let rooted = (hd path = CHR ''/'');
               out = fold (cleanStep rooted) (splitSlash path) []
           in if rooted then ''/'' @ joinSlash out else if out = [] then ''.'' else joinSlash out)"

definition filepath_Join :: "string \<Rightarrow> string \<Rightarrow> string" where
  "filepath_Join dir name =
     (if dir = '''' then if name = '''' then '''' else filepath_Clean name
      else filepath_Clean (dir @ ''/'' @ name))"

text \<open>The suffix that begins at the last dot of the last element.\<close>

definition filepath_Ext :: "string \<Rightarrow> string" where
  "filepath_Ext path =
     (let elem = last (splitSlash path)
      in if CHR ''.'' \<in> set elem then ''.'' @ rev (takeWhile (\<lambda>c. c \<noteq> CHR ''.'') (rev elem)) else '''')"

text \<open>A plain file name joined to a directory is the name after a prefix that only depends on the directory.\<close>

definition plain :: "string \<Rightarrow> bool" where
  "plain w \<longleftrightarrow> w \<noteq> '''' \<and> w \<noteq> ''.'' \<and> w \<noteq> ''..'' \<and> CHR ''/'' \<notin> set w"

lemma splitSlash_nonempty: "splitSlash s \<noteq> []"
  by (induction s) (auto split: list.splits)

lemma splitSlash_append: "splitSlash (a @ CHR ''/'' # b) = splitSlash a @ splitSlash b"
proof (induction a)
  case (Cons c a)
  then show ?case using splitSlash_nonempty[of a] by (auto split: list.splits)
qed simp

lemma splitSlash_plain: "CHR ''/'' \<notin> set w \<Longrightarrow> splitSlash w = [w]"
  by (induction w) auto

lemma joinSlash_snoc: "joinSlash (ws @ [w]) = (if ws = [] then w else joinSlash ws @ ''/'' @ w)"
  by (induction ws rule: joinSlash.induct) auto

lemma Join_plain: "\<exists>pre. \<forall>w. plain w \<longrightarrow> filepath_Join dir w = pre @ w"
proof (cases "dir = ''''")
  case True
  have "filepath_Join dir w = [] @ w" if "plain w" for w
    using that True by (cases w) (auto simp: filepath_Join_def filepath_Clean_def plain_def splitSlash_plain cleanStep_def)
  then show ?thesis by blast
next
  case False
  let ?out = "fold (cleanStep (hd dir = CHR ''/'')) (splitSlash dir) []"
  have "filepath_Join dir w = ((if hd dir = CHR ''/'' then ''/'' else '''') @ (if ?out = [] then '''' else joinSlash ?out @ ''/'')) @ w"
    if "plain w" for w
  proof -
    have "fold (cleanStep (hd dir = CHR ''/'')) (splitSlash (dir @ ''/'' @ w)) [] = ?out @ [w]"
      using that by (simp add: plain_def splitSlash_append splitSlash_plain cleanStep_def)
    then show ?thesis using False by (simp add: filepath_Join_def filepath_Clean_def joinSlash_snoc)
  qed
  then show ?thesis by blast
qed

lemma Join_inj: "plain v \<Longrightarrow> plain w \<Longrightarrow> filepath_Join dir v = filepath_Join dir w \<longleftrightarrow> v = w"
  using Join_plain[of dir] by auto

subsection \<open>Values of decimal numbers\<close>

definition digitsValue :: "string \<Rightarrow> nat" where
  "digitsValue s = foldl (\<lambda>v c. v * 10 + (of_char c - 48)) 0 s"

lemma digitsValue_snoc: "d < 10 \<Longrightarrow> digitsValue (s @ [char_of (48 + d)]) = digitsValue s * 10 + d"
  by (simp add: digitsValue_def of_char_of)

lemma decimal_value: "digitsValue (decimal n) = n"
proof (induction n rule: decimal.induct)
  case (1 n)
  show ?case
  proof (cases "n < 10")
    case True
    then show ?thesis using digitsValue_snoc[of n "[]"] by (subst decimal.simps) (simp add: digitsValue_def)
  next
    case False
    then show ?thesis using 1 by (subst decimal.simps) (simp add: digitsValue_snoc)
  qed
qed

lemma decimal_inj: "decimal m = decimal n \<longleftrightarrow> m = n"
  by (metis decimal_value)

lemma length_digits [simp]: "length (digits p n) = p"
  by (induction p arbitrary: n) auto

lemma digits_value: "digitsValue (digits p n) = n mod 10 ^ p"
proof (induction p arbitrary: n)
  case (Suc p)
  have "n mod 10 ^ Suc p = n div 10 mod 10 ^ p * 10 + n mod 10" by (simp add: mod_mult2_eq)
  then show ?case using Suc by (simp add: digitsValue_snoc)
qed (simp add: digitsValue_def)

lemma roundHalfEven_close: "\<bar>of_int (roundHalfEven x) - x\<bar> \<le> 1 / 2"
proof -
  define r where "r = x - of_int \<lfloor>x\<rfloor>"
  have "0 \<le> r" "r < 1" unfolding r_def by linarith+
  moreover have "x = of_int \<lfloor>x\<rfloor> + r" by (simp add: r_def)
  ultimately show ?thesis unfolding roundHalfEven_def Let_def r_def[symmetric] by (auto simp: abs_le_iff)
qed

text \<open>The number that a decimal text with a point denotes.\<close>

definition fixedValue :: "string \<Rightarrow> rat" where
  "fixedValue s =
     (let (neg, body) = (case s of c # rest \<Rightarrow> if c = CHR ''-'' then (True, rest) else (False, s) | [] \<Rightarrow> (False, s));
          whole = takeWhile (\<lambda>c. c \<noteq> CHR ''.'') body;
          frac = drop (Suc (length whole)) body;
          v = of_nat (digitsValue whole) + of_nat (digitsValue frac) / 10 ^ length frac
      in if neg then - v else v)"

lemma decimal_chars: "CHR ''>'' \<notin> set (decimal n)" "CHR ''-'' \<notin> set (decimal n)" "CHR ''.'' \<notin> set (decimal n)"
proof -
  have "(char_of (48 + d :: nat) :: char) \<notin> {CHR ''>'', CHR ''-'', CHR ''.''}" if "d < 10" for d
  proof -
    have e: "of_char (char_of (48 + d :: nat) :: char) = 48 + d" using that by (simp add: of_char_of)
    have "c \<noteq> char_of (48 + d)" if "of_char c \<in> {62 :: nat, 45, 46}" for c :: char
    proof
      assume "c = char_of (48 + d)"
      then have "of_char c = 48 + d" using e by simp
      then show False using that \<open>d < 10\<close> by auto
    qed
    from this[of "CHR ''>''"] this[of "CHR ''-''"] this[of "CHR ''.''"] show ?thesis by auto
  qed
  then show "CHR ''>'' \<notin> set (decimal n)" "CHR ''-'' \<notin> set (decimal n)" "CHR ''.'' \<notin> set (decimal n)"
    using decimal_digits by fastforce+
qed

lemma decimal_nonempty: "decimal n \<noteq> []"
  by (subst decimal.simps) auto

lemma fixedValue_parts:
  "fixedValue (decimal a @ ''.'' @ f) = of_nat a + of_nat (digitsValue f) / 10 ^ length f"
  "fixedValue (''-'' @ decimal a @ ''.'' @ f) = - (of_nat a + of_nat (digitsValue f) / 10 ^ length f)"
proof -
  have tw: "takeWhile (\<lambda>c. c \<noteq> CHR ''.'') (decimal a @ CHR ''.'' # f) = decimal a"
    using decimal_chars(3)[of a] by (subst takeWhile_append2) auto
  obtain c cs where d: "decimal a = c # cs" using decimal_nonempty by (cases "decimal a") auto
  have "c \<noteq> CHR ''-''" using decimal_chars(2)[of a] d by auto
  then have "(case decimal a @ ''.'' @ f of x # rest \<Rightarrow> if x = CHR ''-'' then (True, rest) else (False, decimal a @ ''.'' @ f)
      | [] \<Rightarrow> (False, decimal a @ ''.'' @ f)) = (False, decimal a @ ''.'' @ f)" by (simp add: d)
  then show "fixedValue (decimal a @ ''.'' @ f) = of_nat a + of_nat (digitsValue f) / 10 ^ length f"
    unfolding fixedValue_def Let_def by (simp only: prod.case) (simp add: tw decimal_value)
  show "fixedValue (''-'' @ decimal a @ ''.'' @ f) = - (of_nat a + of_nat (digitsValue f) / 10 ^ length f)"
    unfolding fixedValue_def by (simp add: tw decimal_value)
qed

lemma formatFixed_value:
  assumes "0 < p"
  shows "\<bar>fixedValue (formatFixed p v) - v\<bar> \<le> 1 / 2 / 10 ^ p"
proof -
  let ?x = "\<bar>v\<bar> * 10 ^ p"
  define n where "n = nat (roundHalfEven ?x)"
  have "0 \<le> roundHalfEven ?x" by (auto simp: roundHalfEven_def Let_def)
  then have n: "of_int (roundHalfEven ?x) = (of_nat n :: rat)" by (simp add: n_def)
  have "(of_nat n :: rat) = of_nat (n div 10 ^ p * 10 ^ p + n mod 10 ^ p)" by (simp only: div_mult_mod_eq)
  also have "\<dots> = of_nat (n div 10 ^ p) * 10 ^ p + of_nat (n mod 10 ^ p)" by (simp only: of_nat_add of_nat_mult of_nat_power of_nat_numeral)
  finally have val: "of_nat (n div 10 ^ p) + of_nat (n mod 10 ^ p) / 10 ^ p = (of_nat n :: rat) / 10 ^ p"
    by (simp add: field_simps)
  have "\<bar>of_nat n - ?x\<bar> \<le> 1 / 2" using roundHalfEven_close[of ?x] unfolding n .
  then have "\<bar>of_nat n - ?x\<bar> / 10 ^ p \<le> 1 / 2 / 10 ^ p" by (intro divide_right_mono) simp_all
  moreover have "\<bar>of_nat n - ?x\<bar> / 10 ^ p = \<bar>(of_nat n - ?x) / 10 ^ p\<bar>" by (simp add: abs_divide)
  moreover have "(of_nat n - ?x) / 10 ^ p = of_nat n / 10 ^ p - \<bar>v\<bar>" by (simp add: diff_divide_distrib)
  ultimately have c: "\<bar>of_nat n / 10 ^ p - \<bar>v\<bar>\<bar> \<le> 1 / 2 / 10 ^ p" by metis
  have d: "of_nat (n div 10 ^ p) + of_nat (digitsValue (digits p (n mod 10 ^ p))) / 10 ^ length (digits p (n mod 10 ^ p)) = of_nat n / (10 ^ p :: rat)"
    using val by (simp add: digits_value)
  have f: "formatFixed p v = (if v < 0 then ''-'' else '''') @ decimal (n div 10 ^ p) @ ''.'' @ digits p (n mod 10 ^ p)"
    using assms by (simp add: formatFixed_def n_def Let_def)
  show ?thesis
  proof (cases "v < 0")
    case True
    have "fixedValue (formatFixed p v) = - (of_nat n / 10 ^ p)"
      unfolding f using True fixedValue_parts(2)[of "n div 10 ^ p" "digits p (n mod 10 ^ p)"] d by simp
    then show ?thesis using c True by (simp add: abs_le_iff)
  next
    case False
    have "fixedValue (formatFixed p v) = of_nat n / 10 ^ p"
      unfolding f using False fixedValue_parts(1)[of "n div 10 ^ p" "digits p (n mod 10 ^ p)"] d by simp
    then show ?thesis using c False by simp
  qed
qed

end
