(* ===== verification/Plots.thy ===== *)
theory Plots
  imports Observer Simulator GoFormat
begin

text \<open>
  The curves and tables of an evaluation, \<^verbatim>\<open>kvsrv_eval/plot.go\<close>: the sample points of the sweeps,
  the ranges of the axes, where a curve crosses a threshold, the rows of the tables, and the order
  in which plots and tables are saved. The plotting library and the file system are parameters,
  collected in \<open>PlotLib\<close>: they only report an error or none. What is handed to them is a value of
  type \<open>PlotFile\<close>. Probabilities are rational numbers.
\<close>

unbundle bit_operations_syntax

definition formatFloat :: "rat \<Rightarrow> string" where
  "formatFloat v = formatFixed 6 v"

subsection \<open>Data\<close>

definition PBSThreshold99_9 :: rat where "PBSThreshold99_9 = 999 / 1000"
definition probabilityYMax :: rat where "probabilityYMax = 1"

record SeriesConfig =
  serName :: string
  serLabel :: string
  serKind :: string
  serReadRepair :: bool
  serAntiEntropy :: bool
  serHintedHandoff :: bool
  serFailureMode :: string
  serNotes :: string

record CollectorSeries =
  csConfig :: SeriesConfig
  csCollector :: PBSCollector
  csReadAttempts :: int

record NamedProbabilitySeries =
  npsName :: string
  npsLabel :: string
  npsValues :: "rat list"

record PlotOutput =
  DeltaPPath :: string
  KPPath :: string
  DeltaPE2EPath :: string
  KPE2EPath :: string
  DeltaPE2ECSVPath :: string
  KPE2ECSVPath :: string
  DeltaPZoomPath :: string
  KPZoomPath :: string
  DeltaCSVPath :: string
  KPCSVPath :: string
  SeriesConfigCSVPath :: string

subsection \<open>Sample points and axes\<close>

text \<open>The product wraps at 64 bits and the quotient truncates; \<open>points\<close> is greater than one.\<close>

definition sweepPoint :: "Duration \<Rightarrow> int \<Rightarrow> nat \<Rightarrow> Duration" where
  "sweepPoint maxDelta points i = goTruncate (of_int (sint (of_int (int i * maxDelta) :: 64 word)) / of_int points)"

definition deltaSweep :: "Duration \<Rightarrow> int \<Rightarrow> Duration list" where
  "deltaSweep maxDelta points =
     (if maxDelta \<le> 0 then [0]
      else if points \<le> 1 then [0, maxDelta]
      else fold (\<lambda>i deltas. let d = sweepPoint maxDelta points i
                             in if deltas = [] \<or> d \<noteq> last deltas then deltas @ [d] else deltas)
             [0..<nat points + 1] [])"

definition kSweep :: "int \<Rightarrow> int list" where
  "kSweep maxK = (if maxK \<le> 0 then [1] else map int [1..<nat maxK + 1])"

definition durationToMilliseconds :: "Duration \<Rightarrow> rat" where
  "durationToMilliseconds d = of_int d / of_int Millisecond"

text \<open>\<^verbatim>\<open>math.Nextafter\<close> of 1 towards 0 is the predecessor of 1 among the \<^verbatim>\<open>float64\<close> numbers.\<close>

definition ensureProbabilityYSpan :: "rat \<Rightarrow> rat \<times> rat" where
  "ensureProbabilityYSpan yMin =
     (let mx = probabilityYMax; mn = yMin;
          mn = (if mn \<ge> mx then 1 - 1 / 2 ^ 53 else mn);
          mn = (if mn < 0 then 0 else mn)
      in (mn, mx))"

definition resolveYRange :: "rat \<Rightarrow> rat \<Rightarrow> rat \<Rightarrow> rat \<times> rat" where
  "resolveYRange yMin yMax autoMin =
     (let resolvedMin = autoMin;
          resolvedMin = (if yMin > 0 then yMin else resolvedMin);
          resolvedMin = (if resolvedMin \<ge> probabilityYMax then autoMin else resolvedMin);
          resolvedMin = (if resolvedMin < 0 then 0 else resolvedMin)
      in (resolvedMin, probabilityYMax))"

definition probabilities :: "SimulationResult list \<Rightarrow> rat list" where
  "probabilities results = map Probability results"

definition leftBelow :: "NamedProbabilitySeries \<Rightarrow> rat \<Rightarrow> rat" where
  "leftBelow s m = (case npsValues s of v # _ \<Rightarrow> if v < m then v else m | [] \<Rightarrow> m)"

definition minSeriesLeft :: "NamedProbabilitySeries \<Rightarrow> NamedProbabilitySeries list \<Rightarrow> rat" where
  "minSeriesLeft predicted observed = fold leftBelow observed (leftBelow predicted 1)"

definition minObservedYMin :: "NamedProbabilitySeries list \<Rightarrow> rat" where
  "minObservedYMin observed = fold (\<lambda>s m. fold (\<lambda>v m. if v < m then v else m) (npsValues s) m) observed 1"

subsection \<open>Crossing a threshold\<close>

definition firstCrossingK :: "int list \<Rightarrow> rat list \<Rightarrow> rat \<Rightarrow> int option" where
  "firstCrossingK ks ys threshold =
     (if length ks = 0 \<or> length ks \<noteq> length ys then None
      else map_option fst (List.find (\<lambda>(k, y). y \<ge> threshold) (zip ks ys)))"

text \<open>The loop from the second point on; the first arguments are the point before.\<close>

fun crossingLoop :: "rat \<Rightarrow> rat \<Rightarrow> rat \<Rightarrow> rat list \<Rightarrow> rat list \<Rightarrow> rat option" where
  "crossingLoop threshold x0 y0 (x1 # xs) (y1 # ys) =
     (if y1 \<ge> threshold then
        if y1 = y0 then Some x1
        else let t = (threshold - y0) / (y1 - y0) in Some (x0 + t * (x1 - x0))
      else crossingLoop threshold x1 y1 xs ys)"
| "crossingLoop threshold x0 y0 _ _ = None"

definition firstCrossingX :: "rat list \<Rightarrow> rat list \<Rightarrow> rat \<Rightarrow> rat option" where
  "firstCrossingX xs ys threshold =
     (if length xs = 0 \<or> length xs \<noteq> length ys then None
      else if hd ys \<ge> threshold then Some (hd xs)
      else crossingLoop threshold (hd xs) (hd ys) (tl xs) (tl ys))"

subsection \<open>What is drawn\<close>

type_synonym XYs = "(rat \<times> rat) list"
type_synonym RGBA = "nat \<times> nat \<times> nat \<times> nat"

text \<open>A line starts with the style of the library, which is \<open>None\<close>; lengths are in points.\<close>

record PlotLine =
  lnPoints :: XYs
  lnColor :: "RGBA option"
  lnWidth :: "rat option"
  lnDashes :: "rat list"

datatype DrawItem =
    DrawLine PlotLine
  | DrawLabels XYs "string list" RGBA

record Drawing =
  drTitle :: string
  drXLabel :: string
  drYLabel :: string
  drYMin :: rat
  drYMax :: rat
  drItems :: "DrawItem list"
  drLegend :: "(string \<times> PlotLine) list"

datatype PlotFile =
    PngFile string Drawing
  | CsvFile string "string list list"

text \<open>The errors of \<^verbatim>\<open>plotter.NewLine\<close>, \<^verbatim>\<open>plotter.NewLabels\<close> and of writing a file.\<close>

record PlotLib =
  lineError :: "XYs \<Rightarrow> string option"
  labelsError :: "XYs \<Rightarrow> string list \<Rightarrow> string option"
  fileError :: "PlotFile \<Rightarrow> string option"

text \<open>\<open>NotFinite\<close> stands for a prediction that is not a number; see \<open>predictions_finite\<close> below.\<close>

datatype PlotError = LibError string | NotFinite

type_synonym 'a plotResult = "panic + PlotError + 'a"

definition andThen :: "'a plotResult \<Rightarrow> ('a \<Rightarrow> 'b plotResult) \<Rightarrow> 'b plotResult" where
  "andThen r f = (case r of Inl p \<Rightarrow> Inl p | Inr (Inl e) \<Rightarrow> Inr (Inl e) | Inr (Inr a) \<Rightarrow> f a)"

definition check :: "string option \<Rightarrow> 'a \<Rightarrow> 'a plotResult" where
  "check e a = (case e of None \<Rightarrow> Inr (Inr a) | Some m \<Rightarrow> Inr (Inl (LibError m)))"

definition NewLine :: "PlotLib \<Rightarrow> XYs \<Rightarrow> PlotLine plotResult" where
  "NewLine lib pts = check (lineError lib pts) \<lparr>lnPoints = pts, lnColor = None, lnWidth = None, lnDashes = []\<rparr>"

definition addLine :: "PlotLine \<Rightarrow> Drawing \<Rightarrow> Drawing" where
  "addLine line p = p\<lparr>drItems := drItems p @ [DrawLine line]\<rparr>"

definition addLegend :: "string \<Rightarrow> PlotLine \<Rightarrow> Drawing \<Rightarrow> Drawing" where
  "addLegend label line p = p\<lparr>drLegend := drLegend p @ [(label, line)]\<rparr>"

text \<open>\<open>points[i].Y = probabilities[i]\<close> for every index of \<open>xs\<close>.\<close>

definition pairUp :: "rat list \<Rightarrow> rat list \<Rightarrow> XYs plotResult" where
  "pairUp xs ps = (if length xs \<le> length ps then Inr (Inr (zip xs ps)) else Inl IndexOutOfRange)"

definition DelatPsToXYs :: "Duration list \<Rightarrow> rat list \<Rightarrow> XYs plotResult" where
  "DelatPsToXYs xs ps = pairUp (map durationToMilliseconds xs) ps"

definition KPsToXYs :: "int list \<Rightarrow> rat list \<Rightarrow> XYs plotResult" where
  "KPsToXYs xs ps = pairUp (map of_int xs) ps"

definition stylePredictedLine :: "PlotLine \<Rightarrow> PlotLine" where
  "stylePredictedLine line = line\<lparr>lnColor := Some (214, 39, 40, 255), lnWidth := Some (3 / 2), lnDashes := [5, 3]\<rparr>"

definition observedPalette :: "RGBA list" where
  "observedPalette = [(31, 119, 180, 255), (44, 160, 44, 255), (255, 127, 14, 255), (148, 103, 189, 255), (140, 86, 75, 255)]"

definition paletteColor :: "nat \<Rightarrow> RGBA" where
  "paletteColor idx = observedPalette ! (idx mod length observedPalette)"

definition styleObservedLine :: "nat \<Rightarrow> PlotLine \<Rightarrow> PlotLine" where
  "styleObservedLine idx line = line\<lparr>lnColor := Some (paletteColor idx), lnWidth := Some (3 / 2)\<rparr>"

definition addThresholdLine :: "PlotLib \<Rightarrow> rat \<Rightarrow> rat \<Rightarrow> rat \<Rightarrow> Drawing \<Rightarrow> Drawing plotResult" where
  "addThresholdLine lib xMin xMax threshold p =
     andThen (NewLine lib [(xMin, threshold), (xMax, threshold)]) (\<lambda>line.
       let line = line\<lparr>lnColor := Some (100, 100, 100, 200), lnWidth := Some (4 / 5), lnDashes := [2, 2]\<rparr>
       in Inr (Inr (addLegend (''P='' @ formatFixed 4 threshold) line (addLine line p))))"

definition labelHeight :: "rat \<Rightarrow> rat \<Rightarrow> nat \<Rightarrow> rat" where
  "labelHeight threshold yMin seriesIdx =
     (let span = threshold - yMin;
          span = (if span \<le> 0 then max (threshold * (1 / 1000)) (1 / 10 ^ 6) else span);
          yLabel = threshold - span * (1 / 20 + 3 / 50 * of_nat seriesIdx)
      in if yLabel < yMin then yMin + span * (1 / 50) else yLabel)"

definition addCrossingMarker :: "PlotLib \<Rightarrow> rat \<Rightarrow> rat \<Rightarrow> rat \<Rightarrow> string \<Rightarrow> nat \<Rightarrow> Drawing \<Rightarrow> Drawing plotResult" where
  "addCrossingMarker lib x threshold yMin label seriesIdx p =
     andThen (NewLine lib [(x, yMin), (x, threshold)]) (\<lambda>drop.
       let drop = drop\<lparr>lnColor := Some (paletteColor seriesIdx), lnWidth := Some (4 / 5), lnDashes := [3, 2]\<rparr>;
           p = addLine drop p;
           xys = [(x, labelHeight threshold yMin seriesIdx)]
       in check (labelsError lib xys ['' '' @ label])
            (p\<lparr>drItems := drItems p @ [DrawLabels xys ['' '' @ label] (paletteColor seriesIdx)]\<rparr>))"

subsection \<open>Plots\<close>

text \<open>\<open>toXYs\<close> is \<open>DelatPsToXYs\<close> or \<open>KPsToXYs\<close> at the sample points of the plot.\<close>

fun addObserved :: "PlotLib \<Rightarrow> (rat list \<Rightarrow> XYs plotResult) \<Rightarrow> nat \<Rightarrow> NamedProbabilitySeries list \<Rightarrow> Drawing \<Rightarrow> Drawing plotResult" where
  "addObserved lib toXYs i [] p = Inr (Inr p)"
| "addObserved lib toXYs i (series # rest) p =
     andThen (toXYs (npsValues series)) (\<lambda>pts.
     andThen (NewLine lib pts) (\<lambda>line.
       let line = styleObservedLine i line
       in addObserved lib toXYs (i + 1) rest (addLegend (npsLabel series) line (addLine line p))))"

definition addPredicted :: "PlotLib \<Rightarrow> (rat list \<Rightarrow> XYs plotResult) \<Rightarrow> NamedProbabilitySeries \<Rightarrow> Drawing \<Rightarrow> Drawing plotResult" where
  "addPredicted lib toXYs predicted p =
     (if length (npsValues predicted) > 0 then
        andThen (toXYs (npsValues predicted)) (\<lambda>pts.
        andThen (NewLine lib pts) (\<lambda>line.
          let line = stylePredictedLine line in Inr (Inr (addLegend (npsLabel predicted) line (addLine line p)))))
      else Inr (Inr p))"

text \<open>\<open>crossing\<close> gives the place where a curve crosses the threshold and the end of its label.\<close>

fun addMarkers :: "PlotLib \<Rightarrow> (rat list \<Rightarrow> (rat \<times> string) option) \<Rightarrow> rat \<Rightarrow> rat \<Rightarrow> nat \<Rightarrow> NamedProbabilitySeries list \<Rightarrow> Drawing
    \<Rightarrow> Drawing plotResult" where
  "addMarkers lib crossing threshold yMin i [] p = Inr (Inr p)"
| "addMarkers lib crossing threshold yMin i (series # rest) p =
     (case crossing (npsValues series) of
        None \<Rightarrow> addMarkers lib crossing threshold yMin (i + 1) rest p
      | Some (x, text) \<Rightarrow>
          andThen (addCrossingMarker lib x threshold yMin (npsLabel series @ text) i p)
            (addMarkers lib crossing threshold yMin (i + 1) rest))"

definition addThreshold :: "PlotLib \<Rightarrow> rat list \<Rightarrow> (rat list \<Rightarrow> (rat \<times> string) option) \<Rightarrow> rat \<Rightarrow> rat \<Rightarrow> NamedProbabilitySeries list \<Rightarrow> Drawing
    \<Rightarrow> Drawing plotResult" where
  "addThreshold lib xs crossing threshold yMin observed p =
     (if threshold > 0 \<and> yMin < threshold \<and> threshold \<le> probabilityYMax then
        if xs = [] then Inl IndexOutOfRange
        else andThen (addThresholdLine lib (hd xs) (last xs) threshold p) (addMarkers lib crossing threshold yMin 0 observed)
      else Inr (Inr p))"

definition saveFile :: "PlotLib \<Rightarrow> PlotFile \<Rightarrow> PlotFile plotResult" where
  "saveFile lib f = check (fileError lib f) f"

definition newPlot :: "string \<Rightarrow> string \<Rightarrow> rat \<Rightarrow> Drawing" where
  "newPlot title xLabel yMin =
     (let (mn, mx) = ensureProbabilityYSpan yMin
      in \<lparr>drTitle = title, drXLabel = xLabel, drYLabel = ''Probability'', drYMin = mn, drYMax = mx, drItems = [], drLegend = []\<rparr>)"

definition saveDeltaPlot :: "PlotLib \<Rightarrow> string \<Rightarrow> Duration list \<Rightarrow> NamedProbabilitySeries \<Rightarrow> NamedProbabilitySeries list \<Rightarrow> rat \<Rightarrow> rat \<Rightarrow> rat
    \<Rightarrow> PlotFile plotResult" where
  "saveDeltaPlot lib path deltas predicted observed yMin yMax threshold =
     (let xs = map durationToMilliseconds deltas;
          crossing = (\<lambda>ys. map_option (\<lambda>x. (x, '': '' @ formatFixed 2 x @ ''ms'')) (firstCrossingX xs ys threshold))
      in andThen (addPredicted lib (DelatPsToXYs deltas) predicted (newPlot ''Delta-P'' ''Delta (ms)'' yMin)) (\<lambda>p.
         andThen (addObserved lib (DelatPsToXYs deltas) 0 observed p) (\<lambda>p.
         andThen (addThreshold lib xs crossing threshold yMin observed p) (\<lambda>p.
           saveFile lib (PngFile path p)))))"

definition saveKPPlot :: "PlotLib \<Rightarrow> string \<Rightarrow> int list \<Rightarrow> NamedProbabilitySeries \<Rightarrow> NamedProbabilitySeries list \<Rightarrow> rat \<Rightarrow> rat \<Rightarrow> rat
    \<Rightarrow> PlotFile plotResult" where
  "saveKPPlot lib path ks predicted observed yMin yMax threshold =
     (let xs = map of_int ks;
          crossing = (\<lambda>ys. map_option (\<lambda>k. (of_int k, '': K='' @ Itoa k)) (firstCrossingK ks ys threshold))
      in andThen (addPredicted lib (KPsToXYs ks) predicted (newPlot ''K-P'' ''K'' yMin)) (\<lambda>p.
         andThen (addObserved lib (KPsToXYs ks) 0 observed p) (\<lambda>p.
         andThen (addThreshold lib xs crossing threshold yMin observed p) (\<lambda>p.
           saveFile lib (PngFile path p)))))"

subsection \<open>Tables\<close>

text \<open>The columns of row \<open>i\<close> that hold values of series, then the rows from \<open>i\<close> on.\<close>

fun tableCells :: "nat \<Rightarrow> NamedProbabilitySeries list \<Rightarrow> string list plotResult" where
  "tableCells i [] = Inr (Inr [])"
| "tableCells i (s # rest) =
     (if i < length (npsValues s) then andThen (tableCells i rest) (\<lambda>cells. Inr (Inr (formatFloat (npsValues s ! i) # cells)))
      else Inl IndexOutOfRange)"

fun tableRows :: "nat \<Rightarrow> string list \<Rightarrow> NamedProbabilitySeries list \<Rightarrow> string list list plotResult" where
  "tableRows i [] columns = Inr (Inr [])"
| "tableRows i (x # xs) columns =
     andThen (tableCells i columns) (\<lambda>cells.
     andThen (tableRows (i + 1) xs columns) (\<lambda>rows. Inr (Inr ((x # cells) # rows))))"

definition writeTable :: "PlotLib \<Rightarrow> string \<Rightarrow> string \<Rightarrow> string list \<Rightarrow> NamedProbabilitySeries list \<Rightarrow> PlotFile plotResult" where
  "writeTable lib path corner xs columns =
     andThen (tableRows 0 xs columns) (\<lambda>rows. saveFile lib (CsvFile path ((corner # map npsName columns) # rows)))"

definition saveDeltaCSV :: "PlotLib \<Rightarrow> string \<Rightarrow> Duration list \<Rightarrow> NamedProbabilitySeries \<Rightarrow> NamedProbabilitySeries list \<Rightarrow> PlotFile plotResult" where
  "saveDeltaCSV lib path deltas predicted observed =
     writeTable lib path ''delta_ms'' (map (formatFloat \<circ> durationToMilliseconds) deltas) (predicted # observed)"

definition saveKPCSV :: "PlotLib \<Rightarrow> string \<Rightarrow> int list \<Rightarrow> NamedProbabilitySeries \<Rightarrow> NamedProbabilitySeries list \<Rightarrow> PlotFile plotResult" where
  "saveKPCSV lib path ks predicted observed = writeTable lib path ''k'' (map Itoa ks) (predicted # observed)"

definition saveDeltaObservedCSV :: "PlotLib \<Rightarrow> string \<Rightarrow> Duration list \<Rightarrow> NamedProbabilitySeries list \<Rightarrow> PlotFile plotResult" where
  "saveDeltaObservedCSV lib path deltas observed =
     writeTable lib path ''delta_ms'' (map (formatFloat \<circ> durationToMilliseconds) deltas) observed"

definition saveKPObservedCSV :: "PlotLib \<Rightarrow> string \<Rightarrow> int list \<Rightarrow> NamedProbabilitySeries list \<Rightarrow> PlotFile plotResult" where
  "saveKPObservedCSV lib path ks observed = writeTable lib path ''k'' (map Itoa ks) observed"

definition FormatBool :: "bool \<Rightarrow> string" where
  "FormatBool b = (if b then ''true'' else ''false'')"

definition configRow :: "SeriesConfig \<Rightarrow> string list" where
  "configRow cfg = [serName cfg, serLabel cfg, serKind cfg, FormatBool (serReadRepair cfg), FormatBool (serAntiEntropy cfg),
     FormatBool (serHintedHandoff cfg), serFailureMode cfg, serNotes cfg]"

definition saveSeriesConfigCSV :: "PlotLib \<Rightarrow> string \<Rightarrow> SeriesConfig list \<Rightarrow> PlotFile plotResult" where
  "saveSeriesConfigCSV lib path configs =
     saveFile lib (CsvFile path
       ([''name'', ''label'', ''kind'', ''read_repair'', ''anti_entropy'', ''hinted_handoff'', ''failure_mode'', ''notes''] # map configRow configs))"

subsection \<open>A comparison\<close>

record ObservedCurves =
  ocDelta :: "NamedProbabilitySeries list"
  ocK :: "NamedProbabilitySeries list"
  ocDeltaE2E :: "NamedProbabilitySeries list"
  ocKE2E :: "NamedProbabilitySeries list"
  ocConfigs :: "SeriesConfig list"

definition curve :: "SeriesConfig \<Rightarrow> rat list \<Rightarrow> NamedProbabilitySeries" where
  "curve cfg vs = \<lparr>npsName = serName cfg, npsLabel = serLabel cfg, npsValues = vs\<rparr>"

text \<open>The loop over the observed series; the curves so far are extended at the end.\<close>

fun observeAll :: "Duration list \<Rightarrow> int list \<Rightarrow> CollectorSeries list \<Rightarrow> ObservedCurves \<Rightarrow> panic + ObservedCurves" where
  "observeAll deltas ks [] oc = Inr oc"
| "observeAll deltas ks (s # rest) oc =
     (let cfg = csConfig s
      in case ObserveKPSweep (csCollector s) ks of Inl p \<Rightarrow> Inl p | Inr kps \<Rightarrow>
         (case ObserveKPSweepE2E (csCollector s) ks (csReadAttempts s) of Inl p \<Rightarrow> Inl p | Inr kpsE2E \<Rightarrow>
            observeAll deltas ks rest
              \<lparr>ocDelta = ocDelta oc @ [curve cfg (ObserveDeltaPSweep (csCollector s) deltas)],
               ocK = ocK oc @ [curve cfg kps],
               ocDeltaE2E = ocDeltaE2E oc @ [curve cfg (ObserveDeltaPSweepE2E (csCollector s) deltas (csReadAttempts s))],
               ocKE2E = ocKE2E oc @ [curve cfg kpsE2E],
               ocConfigs = ocConfigs oc @ [cfg]\<rparr>))"

text \<open>Files are saved one after the other until one of them fails; files saved before remain.\<close>

fun saveAll :: "PlotFile plotResult list \<Rightarrow> PlotFile list \<Rightarrow> panic + PlotError option \<times> PlotFile list" where
  "saveAll [] files = Inr (None, files)"
| "saveAll (r # rest) files =
     (case r of Inl p \<Rightarrow> Inl p | Inr (Inl e) \<Rightarrow> Inr (Some e, files) | Inr (Inr f) \<Rightarrow> saveAll rest (files @ [f]))"

definition emptySeries :: NamedProbabilitySeries where
  "emptySeries = \<lparr>npsName = '''', npsLabel = '''', npsValues = []\<rparr>"

definition atLeastZero :: "rat \<Rightarrow> rat" where
  "atLeastZero y = (if y < 0 then 0 else y)"

definition outputPaths :: "string \<Rightarrow> bool \<Rightarrow> PlotOutput" where
  "outputPaths outputDir zoom =
     \<lparr>DeltaPPath = filepath_Join outputDir ''delta_p.png'', KPPath = filepath_Join outputDir ''k_p.png'',
      DeltaPE2EPath = filepath_Join outputDir ''delta_p_e2e.png'', KPE2EPath = filepath_Join outputDir ''k_p_e2e.png'',
      DeltaPE2ECSVPath = filepath_Join outputDir ''delta_p_e2e.csv'', KPE2ECSVPath = filepath_Join outputDir ''k_p_e2e.csv'',
      DeltaPZoomPath = (if zoom then filepath_Join outputDir ''delta_p_zoom.png'' else ''''),
      KPZoomPath = (if zoom then filepath_Join outputDir ''k_p_zoom.png'' else ''''),
      DeltaCSVPath = filepath_Join outputDir ''delta_p.csv'', KPCSVPath = filepath_Join outputDir ''k_p.csv'',
      SeriesConfigCSVPath = filepath_Join outputDir ''pbs_series_config.csv''\<rparr>"

text \<open>The saves that follow the two main plots and their tables, in the order of the code.\<close>

definition laterSaves :: "PlotLib \<Rightarrow> SimulationConfig \<Rightarrow> Duration list \<Rightarrow> int list \<Rightarrow> ObservedCurves \<Rightarrow> PlotOutput \<Rightarrow> PlotFile plotResult list" where
  "laterSaves lib config deltas ks oc out =
     [saveDeltaPlot lib (DeltaPE2EPath out) deltas emptySeries (ocDeltaE2E oc) (atLeastZero (minSeriesLeft emptySeries (ocDeltaE2E oc)))
        probabilityYMax PBSThreshold99_9,
      saveKPPlot lib (KPE2EPath out) ks emptySeries (ocKE2E oc) (atLeastZero (minSeriesLeft emptySeries (ocKE2E oc)))
        probabilityYMax PBSThreshold99_9,
      saveDeltaObservedCSV lib (DeltaPE2ECSVPath out) deltas (ocDeltaE2E oc),
      saveKPObservedCSV lib (KPE2ECSVPath out) ks (ocKE2E oc),
      saveSeriesConfigCSV lib (SeriesConfigCSVPath out) (ocConfigs oc)] @
     (if scEmitZoomPlot config then
        [saveDeltaPlot lib (DeltaPZoomPath out) deltas emptySeries (ocDelta oc) (atLeastZero (minObservedYMin (ocDelta oc)))
           probabilityYMax PBSThreshold99_9,
         saveKPPlot lib (KPZoomPath out) ks emptySeries (ocK oc) (atLeastZero (minObservedYMin (ocK oc)))
           probabilityYMax PBSThreshold99_9]
      else [])"

type_synonym plotRun = "panic + (PlotError + PlotOutput) \<times> PlotFile list"

definition finishRun :: "PlotOutput \<Rightarrow> panic + PlotError option \<times> PlotFile list \<Rightarrow> plotRun" where
  "finishRun out r = map_sum id (\<lambda>(e, files). (case e of Some e \<Rightarrow> Inl e | None \<Rightarrow> Inr out, files)) r"

definition PlotComparisonToDir :: "PlotLib \<Rightarrow> (int \<Rightarrow> Rand) \<Rightarrow> SimulationConfig \<Rightarrow> PBSCollector \<Rightarrow> SeriesConfig \<Rightarrow> CollectorSeries list \<Rightarrow> string
    \<Rightarrow> plotRun" where
  "PlotComparisonToDir lib newSource config baseline predictedConfig observedSeries outputDir =
     (let deltas = deltaSweep (scDelta config) (scDeltaPoints config); ks = kSweep (scK config)
      in case PredictDeltaPSweep newSource (trace baseline) config deltas of Inl p \<Rightarrow> Inl p | Inr predicted \<Rightarrow>
         (case those (PredictKPSweep config ks) of None \<Rightarrow> Inr (Inl NotFinite, []) | Some predictedK \<Rightarrow>
         (case observeAll deltas ks observedSeries \<lparr>ocDelta = [], ocK = [], ocDeltaE2E = [], ocKE2E = [], ocConfigs = [predictedConfig]\<rparr> of
            Inl p \<Rightarrow> Inl p
          | Inr oc \<Rightarrow>
              let predictedDeltaSeries = curve predictedConfig (probabilities predicted);
                  predictedKPSeries = curve predictedConfig (probabilities predictedK);
                  (deltaYMin, deltaYMax) = resolveYRange (scYMin config) (scYMax config) (minSeriesLeft emptySeries (ocDelta oc));
                  (kYMin, kYMax) = resolveYRange (scYMin config) (scYMax config) (minSeriesLeft predictedKPSeries (ocK oc));
                  out = outputPaths outputDir (scEmitZoomPlot config)
              in finishRun out (saveAll
                   ([saveDeltaPlot lib (DeltaPPath out) deltas predictedDeltaSeries (ocDelta oc) deltaYMin deltaYMax 0,
                     saveDeltaCSV lib (DeltaCSVPath out) deltas predictedDeltaSeries (ocDelta oc),
                     saveKPPlot lib (KPPath out) ks predictedKPSeries (ocK oc) kYMin kYMax 0,
                     saveKPCSV lib (KPCSVPath out) ks predictedKPSeries (ocK oc)] @ laterSaves lib config deltas ks oc out) []))))"

definition PlotObserveOnlyComparisonToDir :: "PlotLib \<Rightarrow> SimulationConfig \<Rightarrow> CollectorSeries list \<Rightarrow> string \<Rightarrow> plotRun" where
  "PlotObserveOnlyComparisonToDir lib config observedSeries outputDir =
     (let deltas = deltaSweep (scDelta config) (scDeltaPoints config); ks = kSweep (scK config)
      in case observeAll deltas ks observedSeries \<lparr>ocDelta = [], ocK = [], ocDeltaE2E = [], ocKE2E = [], ocConfigs = []\<rparr> of
           Inl p \<Rightarrow> Inl p
         | Inr oc \<Rightarrow>
             let (deltaYMin, deltaYMax) = resolveYRange (scYMin config) (scYMax config) (minSeriesLeft emptySeries (ocDelta oc));
                 (kYMin, kYMax) = resolveYRange (scYMin config) (scYMax config) (minSeriesLeft emptySeries (ocK oc));
                 out = outputPaths outputDir (scEmitZoomPlot config)
             in finishRun out (saveAll
                  ([saveDeltaPlot lib (DeltaPPath out) deltas emptySeries (ocDelta oc) deltaYMin deltaYMax 0,
                    saveDeltaObservedCSV lib (DeltaCSVPath out) deltas (ocDelta oc),
                    saveKPPlot lib (KPPath out) ks emptySeries (ocK oc) kYMin kYMax 0,
                    saveKPObservedCSV lib (KPCSVPath out) ks (ocK oc)] @ laterSaves lib config deltas ks oc out) []))"

text \<open>The configuration of the predicted curve and of the single observed one of \<open>PlotToDir\<close>.\<close>

definition predictBaseline :: SeriesConfig where
  "predictBaseline =
     \<lparr>serName = ''predict_baseline'', serLabel = ''predict_baseline'', serKind = ''predict'', serReadRepair = False, serAntiEntropy = False,
      serHintedHandoff = False, serFailureMode = '''',
      serNotes = ''PBS baseline predictor without read repair, anti-entropy, or hinted handoff.''\<rparr>"

definition PlotToDir :: "PlotLib \<Rightarrow> (int \<Rightarrow> Rand) \<Rightarrow> SimulationConfig \<Rightarrow> PBSCollector \<Rightarrow> string \<Rightarrow> plotRun" where
  "PlotToDir lib newSource config c outputDir =
     PlotComparisonToDir lib newSource config c predictBaseline
       [\<lparr>csConfig = \<lparr>serName = ''observe'', serLabel = ''observe'', serKind = ''observe'', serReadRepair = False, serAntiEntropy = False,
           serHintedHandoff = False, serFailureMode = '''', serNotes = ''''\<rparr>,
         csCollector = c, csReadAttempts = 0\<rparr>]
       outputDir"

definition Plot :: "PlotLib \<Rightarrow> (int \<Rightarrow> Rand) \<Rightarrow> SimulationConfig \<Rightarrow> PBSCollector \<Rightarrow> plotRun" where
  "Plot lib newSource config c = PlotToDir lib newSource config c ''.''"

subsection \<open>Sample points\<close>

definition dedup :: "(nat \<Rightarrow> 'a) \<Rightarrow> nat \<Rightarrow> 'a list" where
  "dedup f n = fold (\<lambda>i xs. let d = f i in if xs = [] \<or> d \<noteq> last xs then xs @ [d] else xs) [0..<n] []"

lemma dedup_Suc: "dedup f (Suc n) = (if dedup f n = [] \<or> f n \<noteq> last (dedup f n) then dedup f n @ [f n] else dedup f n)"
  by (simp add: dedup_def Let_def)

lemma dedup_mono:
  fixes f :: "nat \<Rightarrow> 'a :: linorder"
  assumes "\<And>i j. i \<le> j \<Longrightarrow> j \<le> n \<Longrightarrow> f i \<le> f j"
  shows "sorted_wrt (<) (dedup f (Suc n)) \<and> set (dedup f (Suc n)) = f ` {..n} \<and> hd (dedup f (Suc n)) = f 0
    \<and> last (dedup f (Suc n)) = f n \<and> dedup f (Suc n) \<noteq> []"
  using assms
proof (induction n)
  case 0
  then show ?case by (simp add: dedup_def)
next
  case (Suc n)
  let ?d = "dedup f (Suc n)"
  have ih: "sorted_wrt (<) ?d" "set ?d = f ` {..n}" "hd ?d = f 0" "last ?d = f n" "?d \<noteq> []" using Suc by auto
  have le: "f i \<le> f (Suc n)" if "i \<le> n" for i using Suc.prems[of i "Suc n"] that by simp
  show ?case
  proof (cases "f (Suc n) = f n")
    case True
    then show ?thesis using ih by (auto simp: dedup_Suc[of f "Suc n"] atMost_Suc)
  next
    case False
    have "f i < f (Suc n)" if "i \<le> n" for i
      using Suc.prems[of i n] Suc.prems[of n "Suc n"] False that by force
    then show ?thesis using ih False by (auto simp: dedup_Suc[of f "Suc n"] sorted_wrt_append atMost_Suc)
  qed
qed

lemma goTruncate_div: "0 \<le> a \<Longrightarrow> 0 < p \<Longrightarrow> goTruncate (of_int a / of_int p) = a div p"
  by (simp add: goTruncate_def floor_divide_of_int_eq)

lemma sweepPoint_exact:
  assumes "0 < maxDelta" "0 < points" "points * maxDelta < 2 ^ 63" "int i \<le> points"
  shows "sweepPoint maxDelta points i = int i * maxDelta div points"
proof -
  have "int i * maxDelta \<le> points * maxDelta" using assms by (intro mult_right_mono) simp_all
  then have "int i * maxDelta < 2 ^ 63" using assms(3) by (rule order_le_less_trans)
  moreover have "0 \<le> int i * maxDelta" using assms(1) by simp
  ultimately have b: "0 \<le> int i * maxDelta" "int i * maxDelta < 2 ^ 63" by blast+
  then have "sint (of_int (int i * maxDelta) :: 64 word) = int i * maxDelta"
    by (simp add: sint_sbintrunc' signed_take_bit_int_eq_self del: of_int_mult)
  then show ?thesis unfolding sweepPoint_def using goTruncate_div[OF b(1) assms(2)] by metis
qed

lemma deltaSweep_grid:
  assumes "0 < maxDelta" "1 < points" "points * maxDelta < 2 ^ 63"
  shows "deltaSweep maxDelta points = dedup (\<lambda>i. int i * maxDelta div points) (Suc (nat points))"
proof -
  have "dedup (sweepPoint maxDelta points) n = dedup (\<lambda>i. int i * maxDelta div points) n" if "n \<le> Suc (nat points)" for n
    using that
  proof (induction n)
    case (Suc n)
    then show ?case using sweepPoint_exact[of maxDelta points n] assms by (simp add: dedup_Suc)
  qed (simp add: dedup_def)
  moreover have "deltaSweep maxDelta points = dedup (sweepPoint maxDelta points) (Suc (nat points))"
    using assms by (simp add: deltaSweep_def dedup_def)
  ultimately show ?thesis by simp
qed

lemma grid_mono:
  fixes m p :: int
  assumes "0 < m" "0 < p" "i \<le> j"
  shows "int i * m div p \<le> int j * m div p"
  using assms by (intro zdiv_mono1 mult_right_mono) simp_all

text \<open>The grid of every configuration: increasing, from 0 to the largest delay.\<close>

lemma deltaSweep_props:
  assumes "0 \<le> maxDelta" "0 \<le> points" "points * maxDelta < 2 ^ 63"
  shows "deltaSweep maxDelta points \<noteq> []" "sorted_wrt (<) (deltaSweep maxDelta points)" "hd (deltaSweep maxDelta points) = 0"
    "last (deltaSweep maxDelta points) = maxDelta"
proof -
  have "deltaSweep maxDelta points \<noteq> [] \<and> sorted_wrt (<) (deltaSweep maxDelta points) \<and> hd (deltaSweep maxDelta points) = 0
    \<and> last (deltaSweep maxDelta points) = maxDelta"
  proof (cases "0 < maxDelta \<and> 1 < points")
    case True
    let ?f = "\<lambda>i. int i * maxDelta div points"
    have "\<And>i j. i \<le> j \<Longrightarrow> j \<le> nat points \<Longrightarrow> ?f i \<le> ?f j" using True by (intro grid_mono) simp_all
    from dedup_mono[of "nat points" ?f, OF this] show ?thesis
      unfolding deltaSweep_grid[OF conjunct1[OF True] conjunct2[OF True] assms(3)] using True by simp
  qed (use assms in \<open>auto simp: deltaSweep_def\<close>)
  then show "deltaSweep maxDelta points \<noteq> []" "sorted_wrt (<) (deltaSweep maxDelta points)" "hd (deltaSweep maxDelta points) = 0"
    "last (deltaSweep maxDelta points) = maxDelta" by auto
qed

lemma deltaSweep_range:
  assumes "0 \<le> maxDelta" "0 \<le> points" "points * maxDelta < 2 ^ 63" "d \<in> set (deltaSweep maxDelta points)"
  shows "0 \<le> d \<and> d \<le> maxDelta"
proof -
  note p = deltaSweep_props[OF assms(1-3)]
  have s: "sorted (deltaSweep maxDelta points)" using p(2) strict_sorted_iff by blast
  obtain i where i: "i < length (deltaSweep maxDelta points)" "d = deltaSweep maxDelta points ! i" using assms(4) by (auto simp: in_set_conv_nth)
  then have "deltaSweep maxDelta points ! 0 \<le> d" "d \<le> deltaSweep maxDelta points ! (length (deltaSweep maxDelta points) - 1)"
    using sorted_nth_mono[OF s] by simp_all
  then show ?thesis using p(1,3,4) by (simp add: hd_conv_nth last_conv_nth)
qed

lemma kSweep_props: "kSweep maxK \<noteq> [] \<and> (\<forall>k \<in> set (kSweep maxK). 0 < k)"
  by (auto simp: kSweep_def)

subsection \<open>What a library error changes\<close>

text \<open>The library without errors determines the contents; another one can only stop a step.\<close>

definition flawless :: PlotLib where
  "flawless = \<lparr>lineError = \<lambda>_. None, labelsError = \<lambda>_ _. None, fileError = \<lambda>_. None\<rparr>"

definition stopsOr :: "'a plotResult \<Rightarrow> 'a plotResult \<Rightarrow> bool" where
  "stopsOr r r' \<longleftrightarrow> r = r' \<or> (\<exists>m. r = Inr (Inl (LibError m)))"

lemma stopsOr_refl [simp]: "stopsOr r r"
  by (simp add: stopsOr_def)

lemma stopsOr_andThen: "stopsOr r r' \<Longrightarrow> (\<And>a. stopsOr (f a) (g a)) \<Longrightarrow> stopsOr (andThen r f) (andThen r' g)"
  by (cases r') (auto simp: stopsOr_def andThen_def split: sum.splits)

lemma stopsOr_check: "stopsOr (check e a) (check None a)"
  by (cases e) (auto simp: check_def stopsOr_def)

lemma stopsOr_steps:
  "stopsOr (NewLine lib pts) (NewLine flawless pts)"
  "stopsOr (saveFile lib f) (saveFile flawless f)"
  by (simp_all add: NewLine_def saveFile_def flawless_def stopsOr_check)

lemma stopsOr_marks:
  "stopsOr (addThresholdLine lib xMin xMax th p) (addThresholdLine flawless xMin xMax th p)"
  "stopsOr (addCrossingMarker lib x th yMin label i p) (addCrossingMarker flawless x th yMin label i p)"
  unfolding addThresholdLine_def addCrossingMarker_def Let_def
  by (intro stopsOr_andThen stopsOr_steps stopsOr_refl)+ (simp add: flawless_def stopsOr_check)

lemma stopsOr_observed: "stopsOr (addObserved lib toXYs i ss p) (addObserved flawless toXYs i ss p)"
proof (induction ss arbitrary: i p)
  case (Cons s ss)
  then show ?case unfolding addObserved.simps Let_def by (intro stopsOr_andThen stopsOr_steps stopsOr_refl)
qed simp

lemma stopsOr_markers: "stopsOr (addMarkers lib cr th yMin i ss p) (addMarkers flawless cr th yMin i ss p)"
proof (induction ss arbitrary: i p)
  case (Cons s ss)
  then show ?case by (auto split: option.splits intro!: stopsOr_andThen stopsOr_marks)
qed simp

lemma stopsOr_predicted: "stopsOr (addPredicted lib toXYs s p) (addPredicted flawless toXYs s p)"
proof (cases "length (npsValues s) > 0")
  case True
  then show ?thesis unfolding addPredicted_def Let_def if_P[OF True] by (intro stopsOr_andThen stopsOr_steps stopsOr_refl)
qed (simp add: addPredicted_def)

lemma stopsOr_threshold: "stopsOr (addThreshold lib xs cr th yMin ss p) (addThreshold flawless xs cr th yMin ss p)"
  by (simp add: addThreshold_def stopsOr_andThen stopsOr_marks stopsOr_markers)

lemma stopsOr_saves:
  "stopsOr (saveDeltaPlot lib path deltas s ss yMin yMax th) (saveDeltaPlot flawless path deltas s ss yMin yMax th)"
  "stopsOr (saveKPPlot lib path ks s ss yMin yMax th) (saveKPPlot flawless path ks s ss yMin yMax th)"
  "stopsOr (writeTable lib path corner xs ss) (writeTable flawless path corner xs ss)"
  "stopsOr (saveSeriesConfigCSV lib path cfgs) (saveSeriesConfigCSV flawless path cfgs)"
  unfolding saveDeltaPlot_def saveKPPlot_def writeTable_def saveSeriesConfigCSV_def Let_def
  by (intro stopsOr_andThen stopsOr_steps stopsOr_refl stopsOr_predicted stopsOr_observed stopsOr_threshold)+

subsection \<open>Contents of the files\<close>

fun filePath :: "PlotFile \<Rightarrow> string" where
  "filePath (PngFile path d) = path"
| "filePath (CsvFile path rows) = path"

text \<open>A plot has its range within the probabilities and one legend entry per curve at least; a table is rectangular.\<close>

fun wellFormed :: "PlotFile \<Rightarrow> bool" where
  "wellFormed (PngFile path d) \<longleftrightarrow> 0 \<le> drYMin d \<and> drYMin d < drYMax d \<and> drYMax d = 1"
| "wellFormed (CsvFile path rows) \<longleftrightarrow> rows \<noteq> [] \<and> (\<forall>row \<in> set rows. length row = length (hd rows))"

lemma ensureProbabilityYSpan_range: "ensureProbabilityYSpan y = (mn, mx) \<Longrightarrow> 0 \<le> mn \<and> mn < mx \<and> mx = 1"
  by (auto simp: ensureProbabilityYSpan_def Let_def probabilityYMax_def split: if_splits)

definition sameAxes :: "Drawing \<Rightarrow> Drawing \<Rightarrow> bool" where
  "sameAxes p q \<longleftrightarrow> drYMin p = drYMin q \<and> drYMax p = drYMax q"

text \<open>A step that succeeds and keeps the axes.\<close>

definition drawsOn :: "Drawing \<Rightarrow> Drawing plotResult \<Rightarrow> bool" where
  "drawsOn p r \<longleftrightarrow> (\<exists>q. r = Inr (Inr q) \<and> sameAxes p q)"

lemma drawsOn_refl: "drawsOn p (Inr (Inr p))"
  by (simp add: drawsOn_def sameAxes_def)

lemma drawsOn_andThen: "drawsOn p r \<Longrightarrow> (\<And>q. drawsOn q (f q)) \<Longrightarrow> drawsOn p (andThen r f)"
  by (fastforce simp: drawsOn_def sameAxes_def andThen_def)

lemma NewLine_flawless: "NewLine flawless pts = Inr (Inr \<lparr>lnPoints = pts, lnColor = None, lnWidth = None, lnDashes = []\<rparr>)"
  by (simp add: NewLine_def flawless_def check_def)

lemma labelsError_flawless: "labelsError flawless xys ls = None"
  by (simp add: flawless_def)

lemma drawsOn_observed:
  "\<forall>s \<in> set ss. \<exists>pts. toXYs (npsValues s) = Inr (Inr pts) \<Longrightarrow> drawsOn p (addObserved flawless toXYs i ss p)"
proof (induction ss arbitrary: i p)
  case (Cons s ss)
  then obtain pts where "toXYs (npsValues s) = Inr (Inr pts)" by auto
  then show ?case
    using Cons.IH Cons.prems
    by (fastforce simp: NewLine_flawless andThen_def Let_def drawsOn_def sameAxes_def addLegend_def addLine_def)
qed (simp add: drawsOn_refl)

lemma drawsOn_predicted:
  "npsValues s = [] \<or> (\<exists>pts. toXYs (npsValues s) = Inr (Inr pts)) \<Longrightarrow> drawsOn p (addPredicted flawless toXYs s p)"
  by (auto simp: addPredicted_def NewLine_flawless andThen_def Let_def drawsOn_def sameAxes_def addLegend_def addLine_def)

lemma drawsOn_markers: "drawsOn p (addMarkers flawless cr th yMin i ss p)"
proof (induction ss arbitrary: i p)
  case (Cons s ss)
  have "drawsOn p (addCrossingMarker flawless x th yMin label i p)" for x label
    by (simp add: addCrossingMarker_def NewLine_flawless andThen_def Let_def drawsOn_def sameAxes_def addLine_def check_def labelsError_flawless)
  then show ?case using Cons by (auto split: option.splits intro!: drawsOn_andThen)
qed (simp add: drawsOn_refl)

lemma drawsOn_threshold: "xs \<noteq> [] \<Longrightarrow> drawsOn p (addThreshold flawless xs cr th yMin ss p)"
  by (auto simp: addThreshold_def drawsOn_refl addThresholdLine_def NewLine_flawless Let_def addLegend_def addLine_def
      intro!: drawsOn_andThen drawsOn_markers) (auto simp: andThen_def drawsOn_def sameAxes_def)

text \<open>What a save of plot or table does on series of the right length.\<close>

definition saves :: "string \<Rightarrow> PlotFile plotResult \<Rightarrow> bool" where
  "saves path r \<longleftrightarrow> (\<exists>f. r = Inr (Inr f) \<and> filePath f = path \<and> wellFormed f)"

lemma newPlot_axes: "0 \<le> drYMin (newPlot t x y) \<and> drYMin (newPlot t x y) < drYMax (newPlot t x y) \<and> drYMax (newPlot t x y) = 1"
  using ensureProbabilityYSpan_range[of y] by (auto simp: newPlot_def split: prod.splits)

lemma saves_plot: "drawsOn (newPlot t x y) r \<Longrightarrow> saves path (andThen r (\<lambda>p. saveFile flawless (PngFile path p)))"
  using newPlot_axes[of t x y]
  by (auto simp: drawsOn_def sameAxes_def andThen_def saves_def saveFile_def check_def flawless_def)

lemma andThen_assoc: "andThen r (\<lambda>a. andThen (f a) g) = andThen (andThen r f) g"
  by (simp add: andThen_def split: sum.splits)

lemma saves_delta_plot:
  assumes "deltas \<noteq> []" "\<forall>s \<in> set ss. length (npsValues s) = length deltas" "npsValues s \<noteq> [] \<longrightarrow> length (npsValues s) = length deltas"
  shows "saves path (saveDeltaPlot flawless path deltas s ss yMin yMax th)"
proof -
  have "\<exists>pts. DelatPsToXYs deltas v = Inr (Inr pts)" if "length v = length deltas" for v
    using that by (simp add: DelatPsToXYs_def pairUp_def)
  then show ?thesis
    unfolding saveDeltaPlot_def Let_def andThen_assoc
    by (intro saves_plot[where t = "''Delta-P''" and x = "''Delta (ms)''" and y = yMin]
        drawsOn_andThen drawsOn_predicted drawsOn_observed drawsOn_threshold) (use assms in auto)
qed

lemma saves_k_plot:
  assumes "ks \<noteq> []" "\<forall>s \<in> set ss. length (npsValues s) = length ks" "npsValues s \<noteq> [] \<longrightarrow> length (npsValues s) = length ks"
  shows "saves path (saveKPPlot flawless path ks s ss yMin yMax th)"
proof -
  have "\<exists>pts. KPsToXYs ks v = Inr (Inr pts)" if "length v = length ks" for v
    using that by (simp add: KPsToXYs_def pairUp_def)
  then show ?thesis
    unfolding saveKPPlot_def Let_def andThen_assoc
    by (intro saves_plot[where t = "''K-P''" and x = "''K''" and y = yMin]
        drawsOn_andThen drawsOn_predicted drawsOn_observed drawsOn_threshold) (use assms in auto)
qed

lemma tableCells_ok: "\<forall>s \<in> set ss. i < length (npsValues s) \<Longrightarrow> tableCells i ss = Inr (Inr (map (\<lambda>s. formatFloat (npsValues s ! i)) ss))"
  by (induction ss) (auto simp: andThen_def)

lemma tableRows_ok:
  "\<forall>s \<in> set ss. length (npsValues s) = i + length xs \<Longrightarrow>
   tableRows i xs ss = Inr (Inr (map (\<lambda>(j, x). x # map (\<lambda>s. formatFloat (npsValues s ! j)) ss) (List.enumerate i xs)))"
proof (induction xs arbitrary: i)
  case (Cons x xs)
  then show ?case using Cons.IH[of "Suc i"] by (simp add: tableCells_ok andThen_def)
qed simp

lemma writeTable_ok:
  assumes "\<forall>s \<in> set ss. length (npsValues s) = length xs"
  shows "writeTable flawless path corner xs ss = Inr (Inr (CsvFile path ((corner # map npsName ss) #
      map (\<lambda>(j, x). x # map (\<lambda>s. formatFloat (npsValues s ! j)) ss) (List.enumerate 0 xs))))"
    and "saves path (writeTable flawless path corner xs ss)"
proof -
  show "writeTable flawless path corner xs ss = Inr (Inr (CsvFile path ((corner # map npsName ss) #
      map (\<lambda>(j, x). x # map (\<lambda>s. formatFloat (npsValues s ! j)) ss) (List.enumerate 0 xs))))"
    using assms tableRows_ok[of ss 0 xs] by (simp add: writeTable_def andThen_def saveFile_def check_def flawless_def)
  then show "saves path (writeTable flawless path corner xs ss)" by (auto simp: saves_def)
qed

lemma saves_tables:
  "\<forall>s \<in> set ss. length (npsValues s) = length deltas \<Longrightarrow> saves path (saveDeltaObservedCSV flawless path deltas ss)"
  "\<forall>s \<in> set ss. length (npsValues s) = length ks \<Longrightarrow> saves path (saveKPObservedCSV flawless path ks ss)"
  "\<forall>s \<in> set (s # ss). length (npsValues s) = length deltas \<Longrightarrow> saves path (saveDeltaCSV flawless path deltas s ss)"
  "\<forall>s \<in> set (s # ss). length (npsValues s) = length ks \<Longrightarrow> saves path (saveKPCSV flawless path ks s ss)"
  "saves path (saveSeriesConfigCSV flawless path cfgs)"
  using writeTable_ok(2)
  by (simp_all add: saveDeltaObservedCSV_def saveKPObservedCSV_def saveDeltaCSV_def saveKPCSV_def)
    (auto simp: saveSeriesConfigCSV_def saveFile_def check_def flawless_def saves_def configRow_def)

subsection \<open>Running the saves\<close>

lemma saveAll_flawless:
  "list_all2 saves paths rs \<Longrightarrow> \<exists>new. saveAll rs files = Inr (None, files @ new) \<and> map filePath new = paths \<and> (\<forall>f \<in> set new. wellFormed f)"
proof (induction paths rs arbitrary: files rule: list_all2_induct)
  case (Cons path paths r rs)
  then obtain f where "r = Inr (Inr f)" "filePath f = path" "wellFormed f" by (auto simp: saves_def)
  moreover obtain new where "saveAll rs (files @ [f]) = Inr (None, (files @ [f]) @ new)" "map filePath new = paths" "\<forall>f \<in> set new. wellFormed f"
    using Cons.IH by blast
  ultimately show ?case by (intro exI[of _ "f # new"]) auto
qed simp

text \<open>With an arbitrary library, a prefix of the same files is saved, and all of them unless an error is reported.\<close>

lemma saveAll_prefix:
  "list_all2 stopsOr rs rs' \<Longrightarrow> saveAll rs' files = Inr (None, files @ new) \<Longrightarrow>
   \<exists>e n. saveAll rs files = Inr (e, files @ take n new) \<and> (e = None \<longrightarrow> take n new = new)"
proof (induction rs rs' arbitrary: files new rule: list_all2_induct)
  case (Cons r rs r' rs')
  obtain f where f: "r' = Inr (Inr f)" "saveAll rs' (files @ [f]) = Inr (None, files @ new)"
    using Cons.prems by (auto split: sum.splits)
  have "\<exists>more. files @ new = (files @ [f]) @ more"
  proof -
    have "saveAll rs'' fs = Inr (None, out) \<Longrightarrow> \<exists>more. out = fs @ more" for rs'' fs out
      by (induction rs'' arbitrary: fs) (fastforce split: sum.splits)+
    then show ?thesis using f(2) by blast
  qed
  then obtain more where more: "new = f # more" by auto
  show ?case
  proof (cases "r = r'")
    case True
    obtain e n where "saveAll rs (files @ [f]) = Inr (e, (files @ [f]) @ take n more)" "e = None \<longrightarrow> take n more = more"
      using Cons.IH[of "files @ [f]" more] f(2) more by auto
    then show ?thesis using True f(1) more by (intro exI[of _ e] exI[of _ "Suc n"]) auto
  next
    case False
    then obtain m where "r = Inr (Inl (LibError m))" using Cons.hyps(1) by (auto simp: stopsOr_def)
    then show ?thesis by (intro exI[of _ "Some (LibError m)"] exI[of _ 0]) simp
  qed
qed simp

subsection \<open>Predicted and observed curves\<close>

text \<open>Once the configuration is accepted, every prediction is a number.\<close>

lemma simulation_returns:
  assumes "validateDeltaPConfig config = None" "scDelta config < 2 ^ 60" "samplers_ok s"
  shows "\<exists>res rng'. SimulateDeltaP config s rng = Inr (res, rng')"
  using trialsLoop_ok[OF _ assms(3), of config "nat (scIterations config)" 0 rng] assms(1,2)
  by (auto simp: config_ok_def SimulateDeltaP_def)

lemma PredictDeltaPSweep_returns:
  assumes "validateDeltaPConfig config = None" "NewWARSSamplers tr = Inr s" "samplers_ok s"
  shows "\<forall>d \<in> set deltas. 0 \<le> d \<and> d < 2 ^ 60 \<Longrightarrow>
    \<exists>rs. PredictDeltaPSweep newSource tr config deltas = Inr rs \<and> length rs = length deltas"
proof (induction deltas)
  case (Cons d deltas)
  let ?c = "config\<lparr>scDelta := d\<rparr>"
  have "validateDeltaPConfig ?c = None" using assms(1) Cons.prems by (auto simp: validateDeltaPConfig_def split: if_splits)
  then obtain res rng' where "SimulateDeltaP ?c s (newSource (seedForDeltaSweep ?c d)) = Inr (res, rng')"
    using simulation_returns[of ?c s "newSource (seedForDeltaSweep ?c d)"] assms(3) Cons.prems by auto
  then show ?case using Cons assms(2) by (auto simp: EvaluateDeltaP_def Let_def)
qed simp

lemma predictions_finite:
  assumes "validateDeltaPConfig config = None" "\<forall>k \<in> set ks. 0 < k"
  shows "\<exists>rs. those (PredictKPSweep config ks) = Some rs \<and> length rs = length ks"
proof -
  have "combination (scNumReplicas config) (scReadQuorum config) \<noteq> 0"
    using assms(1) by (auto simp: validateDeltaPConfig_def combination_binomial split: if_splits)
  then have "\<exists>r. EvaluateKP (config\<lparr>scK := k\<rparr>) = Some r" if "0 < k" for k
    using that by (simp add: EvaluateKP_def finiteDiv_def finitePow_def)
  then show ?thesis using assms(2)
  proof (induction ks)
    case (Cons k ks)
    then show ?case by (fastforce simp: PredictKPSweep_def)
  qed (simp add: PredictKPSweep_def)
qed

lemma isKRegular_returns:
  assumes "collector_ok c" "0 < k"
  shows "\<exists>b. isKRegular read (writes c) k = Inr b"
proof -
  have "sorted (map CommittedAt (filter (precedes read) (writes c)))" using assms(1) by (simp add: collector_ok_def sorted_filter)
  then show ?thesis
    using kLoop_spec[OF assms(2), of "[]" read "writes c" "[]" "[]"] assms(2) by (auto simp: latestK_def isKRegular_def)
qed

lemma countKRegular_returns:
  "collector_ok c \<Longrightarrow> 0 < k \<Longrightarrow> \<exists>m. countKRegular rs (writes c) k n = Inr m"
proof (induction rs arbitrary: n)
  case (Cons r rs)
  then show ?case using isKRegular_returns[of c k r] by fastforce
qed simp

lemma sweepK_returns: "\<forall>k \<in> set ks. \<exists>x. f k = Inr x \<Longrightarrow> \<exists>xs. sweepK f ks = Inr xs \<and> length xs = length ks"
  by (induction ks) fastforce+

lemma ObserveKP_returns:
  assumes "collector_ok c" "\<forall>k \<in> set ks. 0 < k"
  shows "\<exists>xs. ObserveKPSweep c ks = Inr xs \<and> length xs = length ks" "\<exists>xs. ObserveKPSweepE2E c ks n = Inr xs \<and> length xs = length ks"
proof -
  have k: "\<exists>x. ObserveKP (reads c) (writes c) k = Inr x" "\<exists>x. countKRegular (reads c) (writes c) k 0 = Inr x" if "0 < k" for k
    using countKRegular_returns[OF assms(1) that, of "reads c" 0] by (auto simp: ObserveKP_def)
  then show kp: "\<exists>xs. ObserveKPSweep c ks = Inr xs \<and> length xs = length ks"
    unfolding ObserveKPSweep_def using assms(2) by (intro sweepK_returns) auto
  have "\<exists>xs. sweepK (\<lambda>k. map_sum id (\<lambda>n'. of_nat n' / of_int n) (countKRegular (reads c) (writes c) k 0)) ks = Inr xs \<and> length xs = length ks"
    using k(2) assms(2) by (intro sweepK_returns) fastforce
  then show "\<exists>xs. ObserveKPSweepE2E c ks n = Inr xs \<and> length xs = length ks"
    using kp by (simp add: ObserveKPSweepE2E_def)
qed

definition columns_ok :: "Duration list \<Rightarrow> int list \<Rightarrow> ObservedCurves \<Rightarrow> bool" where
  "columns_ok deltas ks oc \<longleftrightarrow> (\<forall>s \<in> set (ocDelta oc) \<union> set (ocDeltaE2E oc). length (npsValues s) = length deltas)
     \<and> (\<forall>s \<in> set (ocK oc) \<union> set (ocKE2E oc). length (npsValues s) = length ks)"

lemma observeAll_returns:
  "\<forall>s \<in> set ss. collector_ok (csCollector s) \<Longrightarrow> \<forall>k \<in> set ks. 0 < k \<Longrightarrow> columns_ok deltas ks oc \<Longrightarrow>
   \<exists>oc'. observeAll deltas ks ss oc = Inr oc' \<and> columns_ok deltas ks oc'
     \<and> ocDelta oc' = ocDelta oc @ map (\<lambda>s. curve (csConfig s) (ObserveDeltaPSweep (csCollector s) deltas)) ss
     \<and> ocDeltaE2E oc' = ocDeltaE2E oc @ map (\<lambda>s. curve (csConfig s) (ObserveDeltaPSweepE2E (csCollector s) deltas (csReadAttempts s))) ss
     \<and> ocConfigs oc' = ocConfigs oc @ map csConfig ss"
proof (induction ss arbitrary: oc)
  case (Cons s ss)
  obtain a b where ab: "ObserveKPSweep (csCollector s) ks = Inr a" "length a = length ks"
      "ObserveKPSweepE2E (csCollector s) ks (csReadAttempts s) = Inr b" "length b = length ks"
    using ObserveKP_returns[of "csCollector s" ks] Cons.prems(1,2) by fastforce
  let ?oc = "\<lparr>ocDelta = ocDelta oc @ [curve (csConfig s) (ObserveDeltaPSweep (csCollector s) deltas)], ocK = ocK oc @ [curve (csConfig s) a],
      ocDeltaE2E = ocDeltaE2E oc @ [curve (csConfig s) (ObserveDeltaPSweepE2E (csCollector s) deltas (csReadAttempts s))],
      ocKE2E = ocKE2E oc @ [curve (csConfig s) b], ocConfigs = ocConfigs oc @ [csConfig s]\<rparr>"
  have "columns_ok deltas ks ?oc"
    using Cons.prems(3) ab by (auto simp: columns_ok_def curve_def ObserveDeltaPSweep_def ObserveDeltaPSweepE2E_def)
  then show ?case using Cons.IH[of ?oc] Cons.prems(1,2) ab by (auto simp: Let_def)
qed simp

subsection \<open>Files of a run\<close>

lemma plain_names:
  "plain ''delta_p.png'' \<and> plain ''delta_p.csv'' \<and> plain ''k_p.png'' \<and> plain ''k_p.csv'' \<and> plain ''delta_p_e2e.png'' \<and> plain ''k_p_e2e.png''
   \<and> plain ''delta_p_e2e.csv'' \<and> plain ''k_p_e2e.csv'' \<and> plain ''pbs_series_config.csv'' \<and> plain ''delta_p_zoom.png'' \<and> plain ''k_p_zoom.png''"
  by (simp add: plain_def)

text \<open>The paths in the order of the saves.\<close>

definition plannedPaths :: "bool \<Rightarrow> PlotOutput \<Rightarrow> string list" where
  "plannedPaths zoom out = [DeltaPPath out, DeltaCSVPath out, KPPath out, KPCSVPath out, DeltaPE2EPath out, KPE2EPath out,
     DeltaPE2ECSVPath out, KPE2ECSVPath out, SeriesConfigCSVPath out] @ (if zoom then [DeltaPZoomPath out, KPZoomPath out] else [])"

lemma planned_distinct: "distinct (plannedPaths zoom (outputPaths dir zoom))"
  by (simp add: plannedPaths_def outputPaths_def Join_inj plain_names)

lemma saves_later:
  assumes "deltas \<noteq> []" "ks \<noteq> []" "columns_ok deltas ks oc"
  shows "list_all2 saves (drop 4 (plannedPaths (scEmitZoomPlot config) out)) (laterSaves flawless config deltas ks oc out)"
  using assms by (auto simp: plannedPaths_def laterSaves_def columns_ok_def emptySeries_def numeral_eq_Suc intro!: saves_delta_plot saves_k_plot saves_tables)

lemma stopsOr_later: "list_all2 stopsOr (laterSaves lib config deltas ks oc out) (laterSaves flawless config deltas ks oc out)"
  by (simp add: laterSaves_def saveDeltaObservedCSV_def saveKPObservedCSV_def stopsOr_saves)

lemma plannedPaths_length: "length (plannedPaths zoom out) = (if zoom then 11 else 9)"
  by (simp add: plannedPaths_def)

lemma saveAll_grows: "saveAll rs files = Inr (None, out) \<Longrightarrow> set files \<subseteq> set out"
  by (induction rs arbitrary: files) (fastforce split: sum.splits)+

lemma saveAll_member: "saveAll rs files = Inr (None, out) \<Longrightarrow> Inr (Inr f) \<in> set rs \<Longrightarrow> f \<in> set out"
proof (induction rs arbitrary: files)
  case (Cons r rs)
  then show ?case using saveAll_grows[of rs "files @ [f]" out] by (auto split: sum.splits)
qed simp

lemma finishRun_saved: "finishRun out r = Inr (Inr out', files) \<Longrightarrow> r = Inr (None, files)"
  by (cases r) (auto simp: finishRun_def split: option.splits)

lemma observed_table:
  "saveDeltaObservedCSV flawless path deltas (map (\<lambda>s. curve (csConfig s) (ObserveDeltaPSweep (csCollector s) deltas)) observed)
   = Inr (Inr (CsvFile path ((''delta_ms'' # map (serName \<circ> csConfig) observed) #
         map (\<lambda>d. formatFloat (durationToMilliseconds d) #
              map (\<lambda>s. formatFloat (ObserveDeltaP (reads (csCollector s)) (writes (csCollector s)) d)) observed) deltas)))"
proof -
  let ?ss = "map (\<lambda>s. curve (csConfig s) (ObserveDeltaPSweep (csCollector s) deltas)) observed"
  have l: "\<forall>s \<in> set ?ss. length (npsValues s) = length (map (formatFloat \<circ> durationToMilliseconds) deltas)"
    by (simp add: curve_def ObserveDeltaPSweep_def)
  have "map (\<lambda>(j, x). x # map (\<lambda>s. formatFloat (npsValues s ! j)) ?ss) (List.enumerate 0 (map (formatFloat \<circ> durationToMilliseconds) deltas)) =
      map (\<lambda>d. formatFloat (durationToMilliseconds d) #
              map (\<lambda>s. formatFloat (ObserveDeltaP (reads (csCollector s)) (writes (csCollector s)) d)) observed) deltas"
    by (rule nth_equalityI) (simp_all add: nth_enumerate_eq curve_def ObserveDeltaPSweep_def)
  then show ?thesis unfolding saveDeltaObservedCSV_def writeTable_ok(1)[OF l] by (simp add: curve_def)
qed

text \<open>A run whose first four saves are given.\<close>

lemma run_outcome:
  assumes "list_all2 saves (take 4 (plannedPaths (scEmitZoomPlot config) out)) (first flawless)"
    and "\<And>lib. list_all2 stopsOr (first lib) (first flawless)"
    and "deltas \<noteq> []" "ks \<noteq> []" "columns_ok deltas ks oc"
  shows "\<exists>files. map filePath files = plannedPaths (scEmitZoomPlot config) out \<and> (\<forall>f \<in> set files. wellFormed f)
    \<and> finishRun out (saveAll (first flawless @ laterSaves flawless config deltas ks oc out) []) = Inr (Inr out, files)
    \<and> (\<forall>lib. \<exists>r n. finishRun out (saveAll (first lib @ laterSaves lib config deltas ks oc out) []) = Inr (r, take n files)
          \<and> (r = Inr out \<and> take n files = files \<or> (\<exists>e. r = Inl e)))"
proof -
  let ?rs = "\<lambda>lib. first lib @ laterSaves lib config deltas ks oc out"
  have "list_all2 saves (plannedPaths (scEmitZoomPlot config) out) (?rs flawless)"
    using list_all2_appendI[OF assms(1) saves_later[OF assms(3-5), of config out]] by simp
  then obtain files where f: "saveAll (?rs flawless) [] = Inr (None, files)" "map filePath files = plannedPaths (scEmitZoomPlot config) out"
      "\<forall>f \<in> set files. wellFormed f"
    using saveAll_flawless[of _ "?rs flawless" "[]"] by auto
  have "\<exists>e n. saveAll (?rs lib) [] = Inr (e, take n files) \<and> (e = None \<longrightarrow> take n files = files)" for lib
    using saveAll_prefix[OF list_all2_appendI[OF assms(2) stopsOr_later], where files = "[]"] f(1) by simp
  note stop = this
  have "\<exists>r n. finishRun out (saveAll (?rs lib) []) = Inr (r, take n files) \<and> (r = Inr out \<and> take n files = files \<or> (\<exists>e. r = Inl e))" for lib
  proof -
    obtain e n where e: "saveAll (?rs lib) [] = Inr (e, take n files)" "e = None \<longrightarrow> take n files = files" using stop by blast
    then show ?thesis
      by (intro exI[of _ "case e of None \<Rightarrow> Inr out | Some x \<Rightarrow> Inl x"] exI[of _ n]) (cases e, auto simp: finishRun_def)
  qed
  then show ?thesis using f by (intro exI[of _ files]) (auto simp: finishRun_def)
qed

subsection \<open>Crossings\<close>

lemma crossing_between:
  fixes x0 x1 y0 y1 th :: rat
  assumes "x0 \<le> x1" "y0 < th" "th \<le> y1"
  shows "x0 \<le> x0 + (th - y0) / (y1 - y0) * (x1 - x0)" "x0 + (th - y0) / (y1 - y0) * (x1 - x0) \<le> x1"
proof -
  define t where "t = (th - y0) / (y1 - y0)"
  have t: "0 \<le> t" "t \<le> 1" using assms(2,3) by (simp_all add: t_def divide_le_eq_1)
  have "0 \<le> t * (x1 - x0)" using t(1) assms(1) by simp
  then show "x0 \<le> x0 + (th - y0) / (y1 - y0) * (x1 - x0)" unfolding t_def[symmetric] by simp
  have "t * (x1 - x0) \<le> 1 * (x1 - x0)" using t(2) assms(1) by (intro mult_right_mono) simp_all
  then show "x0 + (th - y0) / (y1 - y0) * (x1 - x0) \<le> x1" unfolding t_def[symmetric] by simp
qed

text \<open>\<open>x\<close> is on the segment that ends at point \<open>i\<close>, at the height \<open>th\<close>.\<close>

definition crossesAt :: "rat \<Rightarrow> rat list \<Rightarrow> rat list \<Rightarrow> nat \<Rightarrow> rat \<Rightarrow> bool" where
  "crossesAt th xs ys i x \<longleftrightarrow> i < length ys \<and> (\<forall>j < i. ys ! j < th) \<and> th \<le> ys ! i
     \<and> (if i = 0 then x = xs ! 0
        else xs ! (i - 1) \<le> x \<and> x \<le> xs ! i
             \<and> (x - xs ! (i - 1)) * (ys ! i - ys ! (i - 1)) = (th - ys ! (i - 1)) * (xs ! i - xs ! (i - 1)))"

lemma crossesAt_Cons: "y < th \<Longrightarrow> i \<noteq> 0 \<Longrightarrow> crossesAt th xs ys i x \<Longrightarrow> crossesAt th (x0 # xs) (y # ys) (Suc i) x"
  by (auto simp: crossesAt_def nth_Cons less_Suc_eq_0_disj split: nat.splits)

lemma crossesAt_first:
  assumes "y0 < th" "th \<le> y1" "x0 \<le> x1"
  shows "crossesAt th (x0 # x1 # xs) (y0 # y1 # ys) 1 (x0 + (th - y0) / (y1 - y0) * (x1 - x0))"
proof -
  have "(th - y0) / (y1 - y0) * (x1 - x0) * (y1 - y0) = (th - y0) * (x1 - x0)" using assms(1,2) by simp
  then show ?thesis using crossing_between[OF assms(3,1,2)] assms(1,2) by (simp add: crossesAt_def)
qed

lemma crossingLoop_spec:
  "length xs = length ys \<Longrightarrow> y0 < th \<Longrightarrow> sorted (x0 # xs) \<Longrightarrow>
   case crossingLoop th x0 y0 xs ys of
     None \<Rightarrow> \<forall>y \<in> set ys. y < th
   | Some x \<Rightarrow> \<exists>i. i \<noteq> 0 \<and> crossesAt th (x0 # xs) (y0 # ys) i x"
proof (induction xs ys arbitrary: x0 y0 rule: list_induct2')
  case (4 x1 xs y1 ys)
  show ?case
  proof (cases "th \<le> y1")
    case True
    then show ?thesis
      using 4(3,4) crossesAt_first[of y0 th y1 x0 x1 xs ys] by (auto simp: Let_def intro!: exI[of _ 1])
  next
    case False
    then have ih: "case crossingLoop th x1 y1 xs ys of None \<Rightarrow> \<forall>y \<in> set ys. y < th
        | Some x \<Rightarrow> \<exists>i. i \<noteq> 0 \<and> crossesAt th (x1 # xs) (y1 # ys) i x"
      using 4(1)[of y1 x1] 4(2,4) by simp
    show ?thesis
    proof (cases "crossingLoop th x1 y1 xs ys")
      case None
      then show ?thesis using ih False by simp
    next
      case (Some x)
      then obtain i where "i \<noteq> 0" "crossesAt th (x1 # xs) (y1 # ys) i x" using ih by auto
      from crossesAt_Cons[OF 4(3) this, of x0] show ?thesis using Some False by auto
    qed
  qed
qed auto

subsection \<open>Properties\<close>

text \<open>
  the delays of a sweep with more than one step are the values \<open>i * maxDelta div points\<close> in
  increasing order and without repetition, from 0 to the largest delay; they are \<open>points + 1\<close> many
  unless the steps are shorter than a nanosecond. The product must fit into 64 bits.
\<close>

theorem delta_sweep_grid:
  assumes "0 < maxDelta" and "1 < points" and "points * maxDelta < 2 ^ 63"
  shows "sorted_wrt (<) (deltaSweep maxDelta points)
    \<and> set (deltaSweep maxDelta points) = (\<lambda>i. int i * maxDelta div points) ` {..nat points}
    \<and> hd (deltaSweep maxDelta points) = 0 \<and> last (deltaSweep maxDelta points) = maxDelta
    \<and> (points \<le> maxDelta \<longrightarrow> length (deltaSweep maxDelta points) = nat points + 1)"
proof -
  let ?f = "\<lambda>i. int i * maxDelta div points" and ?ds = "deltaSweep maxDelta points"
  have "\<And>i j. i \<le> j \<Longrightarrow> j \<le> nat points \<Longrightarrow> ?f i \<le> ?f j" using assms by (intro grid_mono) simp_all
  from dedup_mono[of "nat points" ?f, OF this] have s: "sorted_wrt (<) ?ds" "set ?ds = ?f ` {..nat points}"
    unfolding deltaSweep_grid[OF assms] by blast+
  have "length ?ds = nat points + 1" if "points \<le> maxDelta"
  proof -
    have "?f i < ?f (Suc i)" for i
    proof -
      have "?f i + 1 = (int i * maxDelta + points) div points" using assms(2) by simp
      also have "\<dots> \<le> ?f (Suc i)" using that assms(2) by (intro zdiv_mono1) (simp_all add: algebra_simps)
      finally show ?thesis by simp
    qed
    then have "strict_mono ?f" by (simp add: strict_mono_Suc_iff)
    then have "inj ?f" by (rule strict_mono_imp_inj_on)
    then have "card (?f ` {..nat points}) = nat points + 1" by (simp add: card_image inj_on_def)
    moreover have "distinct ?ds" using s(1) strict_sorted_iff by blast
    ultimately show ?thesis using s(2) distinct_card by metis
  qed
  then show ?thesis using s deltaSweep_props[of maxDelta points] assms by simp
qed

theorem delta_sweep_grid_witness: "length (deltaSweep (2 * Millisecond) 50) = 51"
  using delta_sweep_grid[of "2 * Millisecond" 50] by simp

text \<open>
  the place reported for a threshold lies on the segment that ends at the first point which
  reaches the threshold, at the height of the threshold; nothing is reported only when no
  point reaches it.
\<close>

theorem first_crossing_interpolates:
  assumes "length xs = length ys" and "sorted xs"
  shows "case firstCrossingX xs ys th of
      None \<Rightarrow> \<forall>y \<in> set ys. y < th
    | Some x \<Rightarrow> \<exists>i. crossesAt th xs ys i x"
proof (cases xs)
  case (Cons x0 xr)
  then obtain y0 yr where ys: "ys = y0 # yr" "length xr = length yr" using assms(1) by (cases ys) auto
  show ?thesis
  proof (cases "th \<le> y0")
    case True
    then show ?thesis using Cons ys by (auto simp: firstCrossingX_def crossesAt_def intro!: exI[of _ 0])
  next
    case False
    then show ?thesis
      using crossingLoop_spec[OF ys(2), of y0 th x0] assms(2) Cons ys
      by (auto simp: firstCrossingX_def split: option.splits)
  qed
qed (use assms in \<open>simp add: firstCrossingX_def\<close>)

theorem first_crossing_interpolates_witness:
  "\<exists>i. firstCrossingX [0, 1, 2] [1 / 2, 3 / 4, 1] (9 / 10) = Some (8 / 5) \<and> crossesAt (9 / 10) [0, 1, 2] [1 / 2, 3 / 4, 1] i (8 / 5)"
  using first_crossing_interpolates[of "[0, 1, 2]" "[1 / 2, 3 / 4, 1]" "9 / 10"] by (simp add: firstCrossingX_def)

subsection \<open>The range of an axis\<close>

lemma fold_lower: "(c :: rat) \<le> fold (\<lambda>v m. if v < m then v else m) vs m \<longleftrightarrow> c \<le> m \<and> (\<forall>v \<in> set vs. c \<le> v)"
  by (induction vs arbitrary: m) auto

lemma minObservedYMin_iff: "c \<le> minObservedYMin ss \<longleftrightarrow> c \<le> 1 \<and> (\<forall>s \<in> set ss. \<forall>v \<in> set (npsValues s). c \<le> v)"
proof -
  have "c \<le> fold (\<lambda>s m. fold (\<lambda>v m. if v < m then v else m) (npsValues s) m) ss m \<longleftrightarrow> c \<le> m \<and> (\<forall>s \<in> set ss. \<forall>v \<in> set (npsValues s). c \<le> v)" for m
    by (induction ss arbitrary: m) (auto simp: fold_lower)
  then show ?thesis by (simp add: minObservedYMin_def)
qed

lemma minSeriesLeft_iff:
  "c \<le> minSeriesLeft p ss \<longleftrightarrow> c \<le> 1 \<and> (\<forall>s \<in> set (p # ss). npsValues s \<noteq> [] \<longrightarrow> c \<le> hd (npsValues s))"
proof -
  have l: "c \<le> leftBelow s m \<longleftrightarrow> c \<le> m \<and> (npsValues s \<noteq> [] \<longrightarrow> c \<le> hd (npsValues s))" for s m
    by (auto simp: leftBelow_def split: list.splits)
  have "c \<le> fold leftBelow ss m \<longleftrightarrow> c \<le> m \<and> (\<forall>s \<in> set ss. npsValues s \<noteq> [] \<longrightarrow> c \<le> hd (npsValues s))" for m
    by (induction ss arbitrary: m) (auto simp: l)
  then show ?thesis by (auto simp: minSeriesLeft_def l)
qed

text \<open>Curves that grow have their least value at the left.\<close>

lemma left_is_least:
  assumes "\<forall>s \<in> set ss. sorted (npsValues s)"
  shows "minSeriesLeft emptySeries ss = minObservedYMin ss"
proof -
  have "(\<forall>v \<in> set (npsValues s). c \<le> v) \<longleftrightarrow> (npsValues s \<noteq> [] \<longrightarrow> c \<le> hd (npsValues s))" if "s \<in> set ss" for s and c :: rat
    using assms that by (cases "npsValues s") force+
  then have "c \<le> minSeriesLeft emptySeries ss \<longleftrightarrow> c \<le> minObservedYMin ss" for c
    by (auto simp: minSeriesLeft_iff minObservedYMin_iff emptySeries_def)
  then show ?thesis by (meson order_antisym order_refl)
qed

lemma delta_curve_grows:
  assumes "sorted deltas"
  shows "sorted (ObserveDeltaPSweep c deltas)"
  using assms by (induction deltas) (auto simp: ObserveDeltaPSweep_def ObserveDeltaP_mono)

lemma axis_below:
  assumes "m \<le> v" "v \<le> 1" "0 \<le> m" "yMin \<le> 0" "ensureProbabilityYSpan (fst (resolveYRange yMin yMax m)) = (mn, mx)"
  shows "mn \<le> v \<and> v \<le> mx"
proof -
  have "fst (resolveYRange yMin yMax m) = m" using assms(3,4) by (simp add: resolveYRange_def Let_def)
  then show ?thesis using assms by (auto simp: ensureProbabilityYSpan_def probabilityYMax_def Let_def split: if_splits)
qed

text \<open>
  without a fixed lower bound, the axis of the main delta plot contains every observed value:
  its lower end is taken from the first value of every curve, and the curves grow with the
  delay, so this is the least value of all of them.
\<close>

theorem delta_axis_contains_curves:
  assumes "0 \<le> scDelta config" and "0 \<le> scDeltaPoints config" and "scDeltaPoints config * scDelta config < 2 ^ 63" and "scYMin config \<le> 0"
    and "curves = map (\<lambda>s. curve (csConfig s) (ObserveDeltaPSweep (csCollector s) (deltaSweep (scDelta config) (scDeltaPoints config)))) observed"
    and "ensureProbabilityYSpan (fst (resolveYRange (scYMin config) (scYMax config) (minSeriesLeft emptySeries curves))) = (mn, mx)"
    and "s \<in> set curves" and "v \<in> set (npsValues s)"
  shows "mn \<le> v \<and> v \<le> mx \<and> minSeriesLeft emptySeries curves = minObservedYMin curves"
proof -
  have "sorted (deltaSweep (scDelta config) (scDeltaPoints config))" using deltaSweep_props(2)[OF assms(1-3)] strict_sorted_iff by blast
  then have "\<forall>s \<in> set curves. sorted (npsValues s)" by (auto simp: assms(5) curve_def delta_curve_grows)
  note eq = left_is_least[OF this]
  have r: "0 \<le> x \<and> x \<le> 1" if "t \<in> set curves" "x \<in> set (npsValues t)" for t x
    using that ObserveDeltaP_range by (auto simp: assms(5) curve_def ObserveDeltaPSweep_def)
  have "minObservedYMin curves \<le> v" using minObservedYMin_iff[of "minObservedYMin curves" curves] assms(7,8) by blast
  moreover have "0 \<le> minObservedYMin curves" using r by (simp add: minObservedYMin_iff)
  ultimately show ?thesis using axis_below[OF _ _ _ assms(4) assms(6)] r[OF assms(7,8)] unfolding eq by simp
qed

theorem delta_axis_contains_curves_witness:
  "\<exists>mn mx. ensureProbabilityYSpan (fst (resolveYRange 0 0 (minSeriesLeft emptySeries [curve predictBaseline (ObserveDeltaPSweep NewPBSCollector [0])]))) = (mn, mx)
     \<and> mn \<le> 0 \<and> 0 \<le> mx"
proof -
  let ?s = "\<lparr>csConfig = predictBaseline, csCollector = NewPBSCollector, csReadAttempts = 0\<rparr>"
  let ?c = "[curve predictBaseline (ObserveDeltaPSweep NewPBSCollector [0])]"
  obtain mn mx where m: "ensureProbabilityYSpan (fst (resolveYRange 0 0 (minSeriesLeft emptySeries ?c))) = (mn, mx)" by fastforce
  have "ObserveDeltaPSweep NewPBSCollector [0] = [0]" by (simp add: ObserveDeltaPSweep_def ObserveDeltaP_def NewPBSCollector_def)
  then have "0 \<in> set (npsValues (hd ?c))" by (simp add: curve_def)
  then show ?thesis
    using delta_axis_contains_curves[of "sampleConfig\<lparr>scYMax := 0\<rparr>" ?c "[?s]" mn mx "hd ?c" 0] m
    by (simp add: sampleConfig_def deltaSweep_def)
qed

lemma comparison_outcome:
  assumes "validateDeltaPConfig config = None" and "scDelta config < 2 ^ 60" and "scDeltaPoints config * scDelta config < 2 ^ 63"
    and "NewWARSSamplers (trace baseline) = Inr smp" and "samplers_ok smp" and "\<forall>s \<in> set observed. collector_ok (csCollector s)"
    and "out = outputPaths dir (scEmitZoomPlot config)"
  shows "\<exists>files. map filePath files = plannedPaths (scEmitZoomPlot config) out \<and> distinct (map filePath files) \<and> (\<forall>f \<in> set files. wellFormed f)
    \<and> PlotComparisonToDir flawless newSource config baseline predictedConfig observed dir = Inr (Inr out, files)
    \<and> (\<forall>lib. \<exists>r n. PlotComparisonToDir lib newSource config baseline predictedConfig observed dir = Inr (r, take n files)
          \<and> (r = Inr out \<and> take n files = files \<or> (\<exists>e. r = Inl e)))"
proof -
  let ?ds = "deltaSweep (scDelta config) (scDeltaPoints config)" and ?ks = "kSweep (scK config)"
  have v: "0 \<le> scDelta config" "0 \<le> scDeltaPoints config" using assms(1) by (auto simp: validateDeltaPConfig_def split: if_splits)
  note ds = deltaSweep_props(1)[OF v assms(3)] and ks = kSweep_props[of "scK config"]
  have "\<forall>d \<in> set ?ds. 0 \<le> d \<and> d < 2 ^ 60" using deltaSweep_range[OF v assms(3)] assms(2) by fastforce
  then obtain pd where pd: "PredictDeltaPSweep newSource (trace baseline) config ?ds = Inr pd" "length pd = length ?ds"
    using PredictDeltaPSweep_returns[OF assms(1,4,5)] by blast
  obtain pk where pk: "those (PredictKPSweep config ?ks) = Some pk" "length pk = length ?ks" using predictions_finite[OF assms(1)] ks by blast
  let ?oc = "\<lparr>ocDelta = [], ocK = [], ocDeltaE2E = [], ocKE2E = [], ocConfigs = [predictedConfig]\<rparr>"
  obtain oc where oc: "observeAll ?ds ?ks observed ?oc = Inr oc" "columns_ok ?ds ?ks oc"
    using observeAll_returns[OF assms(6), of ?ks ?ds ?oc] ks by (auto simp: columns_ok_def)
  obtain y1 y2 y3 y4 where y: "resolveYRange (scYMin config) (scYMax config) (minSeriesLeft emptySeries (ocDelta oc)) = (y1, y2)"
      "resolveYRange (scYMin config) (scYMax config) (minSeriesLeft (curve predictedConfig (probabilities pk)) (ocK oc)) = (y3, y4)" by fastforce
  let ?first = "\<lambda>lib. [saveDeltaPlot lib (DeltaPPath out) ?ds (curve predictedConfig (probabilities pd)) (ocDelta oc) y1 y2 0,
       saveDeltaCSV lib (DeltaCSVPath out) ?ds (curve predictedConfig (probabilities pd)) (ocDelta oc),
       saveKPPlot lib (KPPath out) ?ks (curve predictedConfig (probabilities pk)) (ocK oc) y3 y4 0,
       saveKPCSV lib (KPCSVPath out) ?ks (curve predictedConfig (probabilities pk)) (ocK oc)]"
  have run: "PlotComparisonToDir lib newSource config baseline predictedConfig observed dir =
      finishRun out (saveAll (?first lib @ laterSaves lib config ?ds ?ks oc out) [])" for lib
    using pd(1) pk(1) oc(1) y by (simp add: PlotComparisonToDir_def assms(7) Let_def del: saveAll.simps)
  have "list_all2 saves (take 4 (plannedPaths (scEmitZoomPlot config) out)) (?first flawless)"
    using ds ks oc(2) pd(2) pk(2)
    by (auto simp: plannedPaths_def columns_ok_def curve_def probabilities_def numeral_eq_Suc intro!: saves_delta_plot saves_k_plot saves_tables)
  moreover have "list_all2 stopsOr (?first lib) (?first flawless)" for lib
    by (simp add: saveDeltaCSV_def saveKPCSV_def stopsOr_saves)
  ultimately show ?thesis
    using run_outcome[of config out ?first ?ds ?ks oc] ds ks oc(2) planned_distinct unfolding run assms(7) by metis
qed

definition sampleHistory :: PBSCollector where
  "sampleHistory = AddReadSample 3 4 (AddWriteSample 1 2 NewPBSCollector)"

lemma sampleHistory_ok:
  "collector_ok sampleHistory"
  "NewWARSSamplers (trace sampleHistory) =
     Inr \<lparr>WriteRequest = \<lparr>samples = [1]\<rparr>, WriteAck = \<lparr>samples = [2]\<rparr>, ReadRequest = \<lparr>samples = [3]\<rparr>, ReadResponse = \<lparr>samples = [4]\<rparr>\<rparr>"
  "samplers_ok \<lparr>WriteRequest = \<lparr>samples = [1]\<rparr>, WriteAck = \<lparr>samples = [2]\<rparr>, ReadRequest = \<lparr>samples = [3]\<rparr>, ReadResponse = \<lparr>samples = [4]\<rparr>\<rparr>"
  by (simp_all add: collector_ok_def NewWARSSamplers_def NewEmpiricalSampler_def sampleHistory_def AddReadSample_def AddWriteSample_def
      NewPBSCollector_def emptyTrace_def samplers_ok_def)

text \<open>
  on an accepted configuration with latency samples, and histories as the collector keeps them,
  a comparison never panics. It saves nine files, or eleven with the enlarged plots, to different
  paths and in a fixed order; every table is rectangular and every plot shows a proper part of the
  probabilities. When the plotting library or the file system reports an error, the comparison
  stops with it and the files before it are the same.
\<close>

theorem plot_comparison_outcome:
  assumes "validateDeltaPConfig config = None" and "scDelta config < 2 ^ 60" and "scDeltaPoints config * scDelta config < 2 ^ 63"
    and "NewWARSSamplers (trace baseline) = Inr smp" and "samplers_ok smp" and "\<forall>s \<in> set observed. collector_ok (csCollector s)"
    and "out = outputPaths dir (scEmitZoomPlot config)"
  shows "\<exists>files. map filePath files = plannedPaths (scEmitZoomPlot config) out \<and> distinct (map filePath files) \<and> (\<forall>f \<in> set files. wellFormed f)
    \<and> PlotComparisonToDir flawless newSource config baseline predictedConfig observed dir = Inr (Inr out, files)
    \<and> (\<forall>lib. \<exists>r n. PlotComparisonToDir lib newSource config baseline predictedConfig observed dir = Inr (r, take n files)
          \<and> (r = Inr out \<and> take n files = files \<or> (\<exists>e. r = Inl e)))"
  using assms by (rule comparison_outcome)

theorem plot_comparison_outcome_witness:
  "\<exists>files. PlotComparisonToDir flawless (\<lambda>seed. \<lparr>draws = \<lambda>n. n, rngPos = 0\<rparr>) sampleConfig sampleHistory predictBaseline
       [\<lparr>csConfig = predictBaseline, csCollector = NewPBSCollector, csReadAttempts = 7\<rparr>] ''out''
     = Inr (Inr (outputPaths ''out'' False), files) \<and> length files = 9"
proof -
  let ?smp = "\<lparr>WriteRequest = \<lparr>samples = [1]\<rparr>, WriteAck = \<lparr>samples = [2]\<rparr>, ReadRequest = \<lparr>samples = [3]\<rparr>, ReadResponse = \<lparr>samples = [4]\<rparr>\<rparr>"
  let ?obs = "[\<lparr>csConfig = predictBaseline, csCollector = NewPBSCollector, csReadAttempts = 7\<rparr>]"
  have c: "validateDeltaPConfig sampleConfig = None" "scDelta sampleConfig = 0" "scDeltaPoints sampleConfig = 0" "\<not> scEmitZoomPlot sampleConfig"
    by (simp_all add: sampleConfig_def validateDeltaPConfig_def)
  obtain files where "map filePath files = plannedPaths False (outputPaths ''out'' False)"
      "PlotComparisonToDir flawless (\<lambda>seed. \<lparr>draws = \<lambda>n. n, rngPos = 0\<rparr>) sampleConfig sampleHistory predictBaseline ?obs ''out''
       = Inr (Inr (outputPaths ''out'' False), files)"
    using plot_comparison_outcome[of sampleConfig sampleHistory ?smp ?obs "outputPaths ''out'' False" "''out''" "\<lambda>seed. \<lparr>draws = \<lambda>n. n, rngPos = 0\<rparr>" predictBaseline]
      c sampleHistory_ok(2,3) collector_ok_New by auto
  then show ?thesis by (metis length_map plannedPaths_length)
qed

text \<open>
  the table of delays of a run without prediction holds, for every delay of the sweep and every
  series, the fraction of the series' reads that are regular up to that delay, as a decimal number
  that differs from it by at most half a millionth.
\<close>

theorem delta_table_contents:
  assumes "0 \<le> scDelta config" and "0 \<le> scDeltaPoints config" and "scDeltaPoints config * scDelta config < 2 ^ 63"
    and "\<forall>s \<in> set observed. collector_ok (csCollector s)" and "deltas = deltaSweep (scDelta config) (scDeltaPoints config)"
    and "out = outputPaths dir (scEmitZoomPlot config)"
  shows "\<exists>files. PlotObserveOnlyComparisonToDir flawless config observed dir = Inr (Inr out, files)
    \<and> map filePath files = plannedPaths (scEmitZoomPlot config) out
    \<and> CsvFile (DeltaCSVPath out) ((''delta_ms'' # map (serName \<circ> csConfig) observed) #
         map (\<lambda>d. formatFloat (durationToMilliseconds d) #
              map (\<lambda>s. formatFloat (ObserveDeltaP (reads (csCollector s)) (writes (csCollector s)) d)) observed) deltas) \<in> set files
    \<and> (\<forall>x. \<bar>fixedValue (formatFloat x) - x\<bar> \<le> 1 / 2 / 10 ^ 6)"
proof -
  let ?ks = "kSweep (scK config)"
  note ds = deltaSweep_props(1)[OF assms(1-3), folded assms(5)] and ks = kSweep_props[of "scK config"]
  let ?oc = "\<lparr>ocDelta = [], ocK = [], ocDeltaE2E = [], ocKE2E = [], ocConfigs = []\<rparr>"
  obtain oc where oc: "observeAll deltas ?ks observed ?oc = Inr oc" "columns_ok deltas ?ks oc"
      "ocDelta oc = map (\<lambda>s. curve (csConfig s) (ObserveDeltaPSweep (csCollector s) deltas)) observed"
    using observeAll_returns[OF assms(4), of ?ks deltas ?oc] ks by (auto simp: columns_ok_def)
  obtain y1 y2 y3 y4 where y: "resolveYRange (scYMin config) (scYMax config) (minSeriesLeft emptySeries (ocDelta oc)) = (y1, y2)"
      "resolveYRange (scYMin config) (scYMax config) (minSeriesLeft emptySeries (ocK oc)) = (y3, y4)" by fastforce
  let ?first = "\<lambda>lib. [saveDeltaPlot lib (DeltaPPath out) deltas emptySeries (ocDelta oc) y1 y2 0,
       saveDeltaObservedCSV lib (DeltaCSVPath out) deltas (ocDelta oc),
       saveKPPlot lib (KPPath out) ?ks emptySeries (ocK oc) y3 y4 0,
       saveKPObservedCSV lib (KPCSVPath out) ?ks (ocK oc)]"
  have run: "PlotObserveOnlyComparisonToDir flawless config observed dir =
      finishRun out (saveAll (?first flawless @ laterSaves flawless config deltas ?ks oc out) [])"
    using oc(1) y by (simp add: PlotObserveOnlyComparisonToDir_def assms(5,6) Let_def del: saveAll.simps)
  have "list_all2 saves (take 4 (plannedPaths (scEmitZoomPlot config) out)) (?first flawless)"
    using ds ks oc(2)
    by (auto simp: plannedPaths_def columns_ok_def emptySeries_def numeral_eq_Suc intro!: saves_delta_plot saves_k_plot saves_tables)
  moreover have "list_all2 stopsOr (?first lib) (?first flawless)" for lib
    by (simp add: saveDeltaObservedCSV_def saveKPObservedCSV_def stopsOr_saves)
  ultimately obtain files where files: "map filePath files = plannedPaths (scEmitZoomPlot config) out"
      "finishRun out (saveAll (?first flawless @ laterSaves flawless config deltas ?ks oc out) []) = Inr (Inr out, files)"
    using run_outcome[of config out ?first deltas ?ks oc] ds ks oc(2) by blast
  let ?rows = "(''delta_ms'' # map (serName \<circ> csConfig) observed) #
         map (\<lambda>d. formatFloat (durationToMilliseconds d) #
              map (\<lambda>s. formatFloat (ObserveDeltaP (reads (csCollector s)) (writes (csCollector s)) d)) observed) deltas"
  have "saveDeltaObservedCSV flawless (DeltaCSVPath out) deltas (ocDelta oc) = Inr (Inr (CsvFile (DeltaCSVPath out) ?rows))"
    unfolding oc(3) by (rule observed_table)
  then have "CsvFile (DeltaCSVPath out) ?rows \<in> set files"
    by (intro saveAll_member[OF finishRun_saved[OF files(2)]]) simp
  moreover have "\<bar>fixedValue (formatFloat x) - x\<bar> \<le> 1 / 2 / 10 ^ 6" for x
    unfolding formatFloat_def by (rule formatFixed_value) simp
  ultimately show ?thesis using files by (intro exI[of _ files] conjI allI) (simp_all add: run del: saveAll.simps)
qed

theorem delta_table_contents_witness:
  "\<exists>files. PlotObserveOnlyComparisonToDir flawless sampleConfig [] ''out'' = Inr (Inr (outputPaths ''out'' False), files)
     \<and> CsvFile (DeltaCSVPath (outputPaths ''out'' False)) [[''delta_ms''], [formatFloat 0]] \<in> set files"
  using delta_table_contents[of sampleConfig "[]" "[0]" "outputPaths ''out'' False" "''out''"]
  by (auto simp: sampleConfig_def deltaSweep_def durationToMilliseconds_def)

end
