(* ===== verification/TestGroups.thy ===== *)
theory TestGroups
  imports LabRpc GoFormat Results
begin

text \<open>
  The groups of servers of the test framework, \<^verbatim>\<open>tester/group.go\<close>, \<^verbatim>\<open>tester/srv.go\<close>, \<^verbatim>\<open>tester/persister.go\<close>
  and \<^verbatim>\<open>tester/clnts.go\<close>: servers with an end to every server of their group, connections, partitions, restarts,
  and the clients with their ends. They change the simulated network of \<open>LabRpc\<close>. Names that \<open>Randstring\<close> draws are
  arguments; a daemon is its address, the outcome of starting it and the persister that it hands over at its
  end are arguments. Slices of a server's end names are made by \<open>makeServer\<close>, so they are never nil.
\<close>

subsection \<open>Persisters\<close>

record Persister =
  raftstate :: bytes
  snapshot :: bytes

definition MakePersister :: Persister where
  "MakePersister = \<lparr>raftstate = [], snapshot = []\<rparr>"

definition Checkpoint :: "Persister \<Rightarrow> Persister" where
  "Checkpoint ps = MakePersister\<lparr>raftstate := raftstate ps, snapshot := snapshot ps\<rparr>"

definition ReadRaftState :: "Persister \<Rightarrow> bytes" where "ReadRaftState ps = raftstate ps"

definition RaftStateSize :: "Persister \<Rightarrow> nat" where "RaftStateSize ps = length (raftstate ps)"

definition Save :: "bytes \<Rightarrow> bytes \<Rightarrow> Persister \<Rightarrow> Persister" where
  "Save rs sn ps = ps\<lparr>raftstate := rs, snapshot := sn\<rparr>"

definition ReadSnapshot :: "Persister \<Rightarrow> bytes" where "ReadSnapshot ps = snapshot ps"

definition SnapshotSize :: "Persister \<Rightarrow> nat" where "SnapshotSize ps = length (snapshot ps)"

subsection \<open>Servers\<close>

definition ServerName :: "int \<Rightarrow> int \<Rightarrow> string" where
  "ServerName gid i = ''server-'' @ Itoa gid @ ''-'' @ Itoa i"

definition GRP0 :: int where "GRP0 = 0"

record TestServer =
  saved :: "Persister option"
  endNames :: "string list"
  dc :: "nat option"

text \<open>The ends of a server from the \<open>j\<close>th on.\<close>

fun makeEnds :: "int \<Rightarrow> nat \<Rightarrow> string list \<Rightarrow> Network \<Rightarrow> panic + Network" where
  "makeEnds gid j [] net = Inr net"
| "makeEnds gid j (name # names) net =
     andThen (MakeEnd name net) (\<lambda>net. makeEnds gid (Suc j) names (Connect name (ServerName gid (int j)) net))"

definition makeServer :: "int \<Rightarrow> string list \<Rightarrow> Network \<Rightarrow> panic + TestServer \<times> Network" where
  "makeServer gid names net =
     andThen (makeEnds gid 0 names net) (\<lambda>net. Inr (\<lparr>saved = None, endNames = names, dc = None\<rparr>, net))"

text \<open>As many names are drawn as the server had.\<close>

definition startServer :: "int \<Rightarrow> string list \<Rightarrow> TestServer \<Rightarrow> Network \<Rightarrow> panic + TestServer \<times> Network" where
  "startServer gid names s net =
     andThen (makeServer gid (take (length (endNames s)) names) net) (\<lambda>(srv, net).
       Inr (case saved s of None \<Rightarrow> srv\<lparr>saved := Some MakePersister\<rparr> | Some p \<Rightarrow> srv\<lparr>saved := Some p\<rparr>, net))"

text \<open>The persister \<open>handed\<close> is what \<open>checkpointPersister\<close> of the daemon returns; the daemon is killed.\<close>

definition shutdownTestServer :: "Persister \<Rightarrow> TestServer \<Rightarrow> TestServer" where
  "shutdownTestServer handed s = (if dc s \<noteq> None then s\<lparr>saved := Some handed, dc := None\<rparr> else s)"

text \<open>The sizes: \<open>sizes\<close> is what \<open>stateSize\<close> of the daemon returns. A server without a persister is dereferenced.\<close>

definition snapshotSize :: "nat \<times> nat \<Rightarrow> TestServer \<Rightarrow> panic + nat" where
  "snapshotSize sizes s =
     (if dc s \<noteq> None then Inr (snd sizes) else case saved s of None \<Rightarrow> Inl NilDereference | Some p \<Rightarrow> Inr (SnapshotSize p))"

definition raftSize :: "nat \<times> nat \<Rightarrow> TestServer \<Rightarrow> panic + nat" where
  "raftSize sizes s =
     (if dc s \<noteq> None then Inr (fst sizes) else case saved s of None \<Rightarrow> Inl NilDereference | Some p \<Rightarrow> Inr (RaftStateSize p))"

subsection \<open>Groups of servers\<close>

record ServerGrp =
  grpSrvs :: "TestServer list"
  servernames :: "string list"
  grpId :: int
  isConn :: "bool list"

type_synonym grpState = "Network \<times> ServerGrp"

fun makeServers :: "int \<Rightarrow> string list list \<Rightarrow> Network \<Rightarrow> panic + TestServer list \<times> Network" where
  "makeServers gid [] net = Inr ([], net)"
| "makeServers gid (names # draws) net =
     andThen (makeServer gid names net) (\<lambda>(srv, net).
       andThen (makeServers gid draws net) (\<lambda>(rest, net). Inr (srv # rest, net)))"

definition makeSrvGrp :: "int \<Rightarrow> string list list \<Rightarrow> Network \<Rightarrow> panic + grpState" where
  "makeSrvGrp gid draws net =
     andThen (makeServers gid draws net) (\<lambda>(ss, net).
       Inr (net, \<lparr>grpSrvs = ss, servernames = map (\<lambda>i. ServerName gid (int i)) [0..<length draws], grpId = gid,
                  isConn = replicate (length draws) False\<rparr>))"

definition grpN :: "ServerGrp \<Rightarrow> nat" where "grpN sg = length (grpSrvs sg)"

definition SrvName :: "nat \<Rightarrow> ServerGrp \<Rightarrow> panic + string" where
  "SrvName i sg = index (servernames sg) i"

fun SrvNamesTo :: "nat list \<Rightarrow> ServerGrp \<Rightarrow> panic + string list" where
  "SrvNamesTo [] sg = Inr []"
| "SrvNamesTo (i # to) sg = andThen (index (servernames sg) i) (\<lambda>n. andThen (SrvNamesTo to sg) (\<lambda>ns. Inr (n # ns)))"

definition allIdx :: "ServerGrp \<Rightarrow> nat list" where "allIdx sg = [0..<length (grpSrvs sg)]"

definition IsConnected :: "nat \<Rightarrow> ServerGrp \<Rightarrow> panic + bool" where
  "IsConnected i sg = index (isConn sg) i"

text \<open>The loop of \<open>Server.connect\<close>: the server's own ends to the connected servers of \<open>to\<close>.\<close>

definition srvConnect :: "TestServer \<Rightarrow> ServerGrp \<Rightarrow> nat list \<Rightarrow> Network \<Rightarrow> panic + Network" where
  "srvConnect s sg = forEach (\<lambda>j net. andThen (IsConnected j sg) (\<lambda>c.
     if c then andThen (index (endNames s) j) (\<lambda>e. Inr (Enable e True net)) else Inr net))"

definition srvDisconnect :: "TestServer \<Rightarrow> nat list \<Rightarrow> Network \<Rightarrow> panic + Network" where
  "srvDisconnect s = forEach (\<lambda>j net. andThen (index (endNames s) j) (\<lambda>e. Inr (Enable e False net)))"

text \<open>The ends of the servers of \<open>to\<close> that lead to server \<open>i\<close>.\<close>

definition connectIncoming :: "nat \<Rightarrow> ServerGrp \<Rightarrow> nat list \<Rightarrow> Network \<Rightarrow> panic + Network" where
  "connectIncoming i sg = forEach (\<lambda>j net. andThen (IsConnected j sg) (\<lambda>c.
     if c then andThen (index (grpSrvs sg) j) (\<lambda>s. andThen (index (endNames s) i) (\<lambda>e. Inr (Enable e True net))) else Inr net))"

definition disconnectIncoming :: "nat \<Rightarrow> ServerGrp \<Rightarrow> nat list \<Rightarrow> Network \<Rightarrow> panic + Network" where
  "disconnectIncoming i sg = forEach (\<lambda>j net.
     andThen (index (grpSrvs sg) j) (\<lambda>s. andThen (index (endNames s) i) (\<lambda>e. Inr (Enable e False net))))"

definition setConn :: "nat \<Rightarrow> bool \<Rightarrow> ServerGrp \<Rightarrow> panic + ServerGrp" where
  "setConn i b sg = andThen (index (isConn sg) i) (\<lambda>_. Inr (sg\<lparr>isConn := (isConn sg)[i := b]\<rparr>))"

definition grpConnect :: "nat \<Rightarrow> nat list \<Rightarrow> grpState \<Rightarrow> panic + grpState" where
  "grpConnect i to = (\<lambda>(net, sg).
     andThen (setConn i True sg) (\<lambda>sg.
     andThen (index (grpSrvs sg) i) (\<lambda>s.
     andThen (srvConnect s sg to net) (\<lambda>net.
     andThen (connectIncoming i sg to net) (\<lambda>net. Inr (net, sg))))))"

definition grpDisconnect :: "nat \<Rightarrow> nat list \<Rightarrow> grpState \<Rightarrow> panic + grpState" where
  "grpDisconnect i from = (\<lambda>(net, sg).
     andThen (setConn i False sg) (\<lambda>sg.
     andThen (index (grpSrvs sg) i) (\<lambda>s.
     andThen (srvDisconnect s from net) (\<lambda>net.
     andThen (disconnectIncoming i sg from net) (\<lambda>net. Inr (net, sg))))))"

definition ConnectOne :: "nat \<Rightarrow> grpState \<Rightarrow> panic + grpState" where
  "ConnectOne i st = grpConnect i (allIdx (snd st)) st"

definition ConnectAll :: "grpState \<Rightarrow> panic + grpState" where
  "ConnectAll st = forEach ConnectOne (allIdx (snd st)) st"

definition DisconnectAll :: "nat \<Rightarrow> grpState \<Rightarrow> panic + grpState" where
  "DisconnectAll i st = grpDisconnect i (allIdx (snd st)) st"

definition Partition :: "nat list \<Rightarrow> nat list \<Rightarrow> grpState \<Rightarrow> panic + grpState" where
  "Partition p1 p2 st =
     andThen (forEach (\<lambda>i st. andThen (grpDisconnect i p2 st) (grpConnect i p1)) p1 st)
       (forEach (\<lambda>i st. andThen (grpDisconnect i p1 st) (grpConnect i p2)) p2)"

text \<open>The loop of \<open>MakePartition\<close> with its counter \<open>j\<close>, and the slices with their zero values.\<close>

fun fillPartition :: "nat \<Rightarrow> nat list \<Rightarrow> nat \<Rightarrow> nat list \<times> nat list \<Rightarrow> panic + nat list \<times> nat list" where
  "fillPartition l [] j (p1, p2) = Inr (p1, p2)"
| "fillPartition l (i # is) j (p1, p2) =
     (if i = l then fillPartition l is j (p1, p2)
      else if j < length p1 then fillPartition l is (Suc j) (p1[j := i], p2)
      else if j - length p1 < length p2 then fillPartition l is (Suc j) (p1, p2[j - length p1 := i])
      else Inl IndexOutOfRange)"

definition MakePartition :: "nat \<Rightarrow> ServerGrp \<Rightarrow> panic + nat list \<times> nat list" where
  "MakePartition l sg =
     (let n = length (grpSrvs sg)
      in andThen (fillPartition l [0..<n] 0 (replicate (n div 2 + 1) 0, replicate (n div 2) 0)) (\<lambda>(p1, p2).
           if p2 = [] then Inl IndexOutOfRange else Inr (p1, p2[length p2 - 1 := l])))"

subsection \<open>Starting and stopping servers\<close>

text \<open>
  Starting server \<open>i\<close>: new ends, a daemon (\<open>None\<close> when it cannot be started, which is an error and leaves the new server
  without a daemon), and the entry in the network. \<open>rs\<close> is the address of the new \<^verbatim>\<open>labrpc.Server\<close>. The result says
  whether an error was returned.
\<close>

definition StartServer :: "nat \<Rightarrow> string list \<Rightarrow> nat option \<Rightarrow> serverPtr \<Rightarrow> grpState \<Rightarrow> panic + bool \<times> grpState" where
  "StartServer i names daemon rs = (\<lambda>(net, sg).
     andThen (index (grpSrvs sg) i) (\<lambda>s.
     andThen (startServer (grpId sg) names s net) (\<lambda>(srv, net).
     (case daemon of
        None \<Rightarrow> Inr (True, net, sg\<lparr>grpSrvs := (grpSrvs sg)[i := srv]\<rparr>)
      | Some d \<Rightarrow> Inr (False, AddServer (ServerName (grpId sg) (int i)) rs net, sg\<lparr>grpSrvs := (grpSrvs sg)[i := srv\<lparr>dc := Some d\<rparr>]\<rparr>)))))"

text \<open>The draws of one start: the names, the daemon and the address of its network server.\<close>

type_synonym start = "string list \<times> nat option \<times> serverPtr"

definition StartSrvs :: "(nat \<times> start) list \<Rightarrow> grpState \<Rightarrow> panic + grpState" where
  "StartSrvs = forEach (\<lambda>(i, names, daemon, rs) st. andThen (StartServer i names daemon rs st) (\<lambda>(e, st). Inr st))"

definition StartServers :: "start list \<Rightarrow> grpState \<Rightarrow> panic + grpState" where
  "StartServers starts st = andThen (StartSrvs (zip (allIdx (snd st)) starts) st) ConnectAll"

definition ShutdownServer :: "nat \<Rightarrow> Persister \<Rightarrow> grpState \<Rightarrow> panic + grpState" where
  "ShutdownServer i handed st =
     andThen (grpDisconnect i (allIdx (snd st)) st) (\<lambda>(net, sg).
     let net = DeleteServer (ServerName (grpId sg) (int i)) net
     in andThen (index (grpSrvs sg) i) (\<lambda>s. Inr (net, sg\<lparr>grpSrvs := (grpSrvs sg)[i := shutdownTestServer handed s]\<rparr>)))"

definition Kill :: "(nat \<Rightarrow> Persister) \<Rightarrow> nat list \<Rightarrow> grpState \<Rightarrow> panic + grpState" where
  "Kill handed = forEach (\<lambda>i. ShutdownServer i (handed i))"

definition ShutdownGrp :: "(nat \<Rightarrow> Persister) \<Rightarrow> grpState \<Rightarrow> panic + grpState" where
  "ShutdownGrp handed st = Kill handed (allIdx (snd st)) st"

text \<open>The largest size among the servers.\<close>

fun maxSize :: "(nat \<times> TestServer \<Rightarrow> panic + nat) \<Rightarrow> (nat \<times> TestServer) list \<Rightarrow> nat \<Rightarrow> panic + nat" where
  "maxSize f [] m = Inr m"
| "maxSize f (x # xs) m = andThen (f x) (\<lambda>n. maxSize f xs (if n > m then n else m))"

definition RaftSize :: "(nat \<Rightarrow> nat \<times> nat) \<Rightarrow> ServerGrp \<Rightarrow> panic + nat" where
  "RaftSize sizes sg = maxSize (\<lambda>(i, s). raftSize (sizes i) s) (enumerate 0 (grpSrvs sg)) 0"

definition grpSnapshotSize :: "(nat \<Rightarrow> nat \<times> nat) \<Rightarrow> ServerGrp \<Rightarrow> panic + nat" where
  "grpSnapshotSize sizes sg = maxSize (\<lambda>(i, s). snapshotSize (sizes i) s) (enumerate 0 (grpSrvs sg)) 0"

subsection \<open>The table of groups\<close>

type_synonym groupsState = "Network \<times> (int, ServerGrp) gomap"

definition MakeGroup :: "int \<Rightarrow> string list list \<Rightarrow> groupsState \<Rightarrow> panic + groupsState" where
  "MakeGroup gid draws = (\<lambda>(net, grps). andThen (makeSrvGrp gid draws net) (\<lambda>(net, sg). Inr (net, gm_put gid sg grps)))"

definition lookupGroup :: "int \<Rightarrow> groupsState \<Rightarrow> ServerGrp option" where
  "lookupGroup gid st = map_of (snd st) gid"

definition deleteGroup :: "int \<Rightarrow> groupsState \<Rightarrow> groupsState" where
  "deleteGroup gid st = (fst st, gm_del gid (snd st))"

text \<open>An operation on the group of \<open>gid\<close>; a missing group is a nil pointer, whose slices are read.\<close>

definition onGroup :: "int \<Rightarrow> (grpState \<Rightarrow> panic + grpState) \<Rightarrow> groupsState \<Rightarrow> panic + groupsState" where
  "onGroup gid f st =
     (case lookupGroup gid st of
        None \<Rightarrow> Inl NilDereference
      | Some sg \<Rightarrow> andThen (f (fst st, sg)) (\<lambda>(net, sg). Inr (net, gm_put gid sg (snd st))))"

definition groupsCleanup :: "(int \<Rightarrow> nat \<Rightarrow> Persister) \<Rightarrow> groupsState \<Rightarrow> panic + groupsState" where
  "groupsCleanup handed st = forEach (\<lambda>gid. onGroup gid (ShutdownGrp (handed gid))) (map fst (snd st)) st"

definition MakeGroupStart :: "int \<Rightarrow> string list list \<Rightarrow> start list \<Rightarrow> groupsState \<Rightarrow> panic + groupsState" where
  "MakeGroupStart gid draws starts st = andThen (MakeGroup gid draws st) (onGroup gid (StartServers starts))"

definition ExitGroup :: "int \<Rightarrow> (nat \<Rightarrow> Persister) \<Rightarrow> groupsState \<Rightarrow> panic + groupsState" where
  "ExitGroup gid handed st = andThen (onGroup gid (ShutdownGrp handed) st) (\<lambda>st. Inr (deleteGroup gid st))"

subsection \<open>Clients\<close>

text \<open>The ends of a client, by server name, and the servers it may connect to; \<open>None\<close> is nil and means all.\<close>

record Clnt =
  ends :: "(string, string) gomap"
  clSrvs :: "string list option"

type_synonym clntState = "Network \<times> Clnt"

definition makeClntTo :: "string list option \<Rightarrow> Clnt" where
  "makeClntTo ss = \<lparr>ends = [], clSrvs = ss\<rparr>"

definition allowedL :: "string \<Rightarrow> Clnt \<Rightarrow> bool" where
  "allowedL server c = (case clSrvs c of None \<Rightarrow> True | Some ss \<Rightarrow> server \<in> set ss)"

definition clntMakeEnd :: "string \<Rightarrow> string \<Rightarrow> clntState \<Rightarrow> panic + string \<times> clntState" where
  "clntMakeEnd server name = (\<lambda>(net, c).
     case map_of (ends c) server of
       Some e \<Rightarrow> Inr (e, net, c)
     | None \<Rightarrow> andThen (MakeEnd name net) (\<lambda>net.
         let net = Connect name server net;
             net = (if allowedL server c then Enable name True net else Enable name False net)
         in Inr (name, net, c\<lparr>ends := gm_put server name (ends c)\<rparr>)))"

definition clntConnectAll :: "clntState \<Rightarrow> clntState" where
  "clntConnectAll = (\<lambda>(net, c). (fold (\<lambda>(s, e). Enable e True) (ends c) net, c\<lparr>clSrvs := None\<rparr>))"

definition clntConnectTo :: "string list option \<Rightarrow> clntState \<Rightarrow> clntState" where
  "clntConnectTo ss = (\<lambda>(net, c).
     let c = c\<lparr>clSrvs := ss\<rparr>
     in (fold (\<lambda>(s, e) net. if allowedL s c then Enable e True net else net) (ends c) net, c))"

definition clntDisconnect :: "string \<Rightarrow> clntState \<Rightarrow> clntState" where
  "clntDisconnect srv = (\<lambda>(net, c). (fold (\<lambda>(s, e) net. if s = srv then Enable e False net else net) (ends c) net, c))"

definition clntDisconnectAll :: "clntState \<Rightarrow> clntState" where
  "clntDisconnectAll = (\<lambda>(net, c). (fold (\<lambda>(s, e). Enable e False) (ends c) net, c\<lparr>clSrvs := Some []\<rparr>))"

definition clntRemove :: "clntState \<Rightarrow> panic + Network" where
  "clntRemove = (\<lambda>(net, c). forEach (\<lambda>(s, e). DeleteEnd e) (ends c) net)"

text \<open>The clients of a test by their addresses.\<close>

type_synonym clntsState = "Network \<times> (nat, Clnt) gomap"

definition clntsMakeEnd :: "string \<Rightarrow> string \<Rightarrow> Network \<Rightarrow> panic + Network" where
  "clntsMakeEnd servername name net =
     andThen (MakeEnd name net) (\<lambda>net. Inr (Enable name True (Connect name servername net)))"

definition MakeClientTo :: "nat \<Rightarrow> string list option \<Rightarrow> clntsState \<Rightarrow> clntsState" where
  "MakeClientTo a ss st = (fst st, gm_put a (makeClntTo ss) (snd st))"

definition MakeClient :: "nat \<Rightarrow> clntsState \<Rightarrow> clntsState" where
  "MakeClient a = MakeClientTo a None"

definition DeleteClient :: "nat \<Rightarrow> clntsState \<Rightarrow> panic + clntsState" where
  "DeleteClient a st =
     (case map_of (snd st) a of
        None \<Rightarrow> Inr st
      | Some c \<Rightarrow> andThen (clntRemove (fst st, c)) (\<lambda>net. Inr (net, gm_del a (snd st))))"

definition clntsCleanup :: "clntsState \<Rightarrow> panic + clntsState" where
  "clntsCleanup st = andThen (forEach (\<lambda>(a, c) net. clntRemove (net, c)) (snd st) (fst st)) (\<lambda>net. Inr (net, []))"

subsection \<open>Ends and links\<close>

lemma nth_concat_inj:
  "distinct (concat xss) \<Longrightarrow> i < length xss \<Longrightarrow> j < length (xss ! i) \<Longrightarrow> a < length xss \<Longrightarrow> b < length (xss ! a) \<Longrightarrow>
   xss ! i ! j = xss ! a ! b \<Longrightarrow> i = a \<and> j = b"
proof (induction xss arbitrary: i a)
  case (Cons xs xss)
  have d: "distinct xs" "set xs \<inter> set (concat xss) = {}" "distinct (concat xss)" using Cons.prems(1) by auto
  have c: "k < length xss \<Longrightarrow> m < length (xss ! k) \<Longrightarrow> xss ! k ! m \<in> set (concat xss)" for k m
    by (auto simp: set_concat) (meson nth_mem)
  show ?case using Cons.prems(2-) Cons.IH[OF d(3)] d(1,2) c
    by (cases i; cases a) (auto simp: nth_eq_iff_index_eq disjoint_iff dest: nth_mem, (metis nth_mem)+)
qed simp

definition grp_ok :: "Network \<Rightarrow> ServerGrp \<Rightarrow> bool" where
  "grp_ok net sg \<longleftrightarrow> length (isConn sg) = length (grpSrvs sg)
     \<and> (\<forall>s \<in> set (grpSrvs sg). length (endNames s) = length (grpSrvs sg) \<and> set (endNames s) \<subseteq> netEnds net)
     \<and> distinct (concat (map endNames (grpSrvs sg)))"

text \<open>Whether requests of server \<open>i\<close> to server \<open>j\<close> leave the end of \<open>i\<close>.\<close>

definition link :: "grpState \<Rightarrow> nat \<Rightarrow> nat \<Rightarrow> bool" where
  "link st i j = endEnabled (fst st) (endNames (grpSrvs (snd st) ! i) ! j)"

lemma end_inj:
  assumes "grp_ok net sg" "i < grpN sg" "j < grpN sg" "a < grpN sg" "b < grpN sg"
  shows "endNames (grpSrvs sg ! i) ! j = endNames (grpSrvs sg ! a) ! b \<longleftrightarrow> i = a \<and> j = b"
  using assms nth_concat_inj[of "map endNames (grpSrvs sg)" i j a b] by (auto simp: grp_ok_def grpN_def)

definition enables :: "(nat \<Rightarrow> bool) \<Rightarrow> (nat \<Rightarrow> string) \<Rightarrow> bool \<Rightarrow> nat list \<Rightarrow> Network \<Rightarrow> Network" where
  "enables P g b xs net = fold (\<lambda>j net. if P j then Enable (g j) b net else net) xs net"

lemma forEach_enables:
  "(\<And>j net. j \<in> set xs \<Longrightarrow> f j net = Inr (if P j then Enable (g j) b net else net)) \<Longrightarrow> forEach f xs net = Inr (enables P g b xs net)"
  by (induction xs arbitrary: net) (simp_all add: enables_def)

lemma endEnabled_Enable [simp]: "endEnabled (Enable e b net) e' = (if e' = e then b else endEnabled net e')"
  by (simp add: endEnabled_def Enable_def)

lemma enables_eq: "endEnabled (enables P g b xs net) e = (if \<exists>j \<in> set xs. P j \<and> g j = e then b else endEnabled net e)"
  unfolding enables_def by (induction xs arbitrary: net) auto

lemma netEnds_enables [simp]: "netEnds (enables P g b xs net) = netEnds net"
  unfolding enables_def by (induction xs arbitrary: net) (simp_all add: Enable_def)

lemma grp_ok_index:
  assumes "grp_ok net sg" "i < grpN sg" "j < grpN sg"
  shows "index (isConn sg) i = Inr (isConn sg ! i)" "index (grpSrvs sg) i = Inr (grpSrvs sg ! i)"
    "index (endNames (grpSrvs sg ! i)) j = Inr (endNames (grpSrvs sg ! i) ! j)"
  using assms by (simp_all add: grp_ok_def grpN_def)

text \<open>The abstract view of a group: which servers count as connected, and the links.\<close>

definition absConnect :: "nat \<Rightarrow> nat list \<Rightarrow> (nat \<Rightarrow> bool) \<times> (nat \<Rightarrow> nat \<Rightarrow> bool) \<Rightarrow> (nat \<Rightarrow> bool) \<times> (nat \<Rightarrow> nat \<Rightarrow> bool)" where
  "absConnect i to = (\<lambda>(conn, lk).
     (conn(i := True), \<lambda>a b. lk a b \<or> (a = i \<and> b \<in> set to \<and> (conn(i := True)) b) \<or> (b = i \<and> a \<in> set to \<and> (conn(i := True)) a)))"

definition absDisconnect :: "nat \<Rightarrow> nat list \<Rightarrow> (nat \<Rightarrow> bool) \<times> (nat \<Rightarrow> nat \<Rightarrow> bool) \<Rightarrow> (nat \<Rightarrow> bool) \<times> (nat \<Rightarrow> nat \<Rightarrow> bool)" where
  "absDisconnect i from = (\<lambda>(conn, lk).
     (conn(i := False), \<lambda>a b. lk a b \<and> \<not> (a = i \<and> b \<in> set from) \<and> \<not> (b = i \<and> a \<in> set from)))"

definition represents :: "nat \<Rightarrow> grpState \<Rightarrow> (nat \<Rightarrow> bool) \<times> (nat \<Rightarrow> nat \<Rightarrow> bool) \<Rightarrow> bool" where
  "represents n st A \<longleftrightarrow> grp_ok (fst st) (snd st) \<and> grpN (snd st) = n
     \<and> (\<forall>i < n. isConn (snd st) ! i = fst A i \<and> (\<forall>j < n. link st i j = snd A i j))"

lemma grpConnect_refines:
  assumes r: "represents n st A" and i: "i < n" and to: "set to \<subseteq> {..<n}"
  shows "\<exists>st'. grpConnect i to st = Inr st' \<and> grpSrvs (snd st') = grpSrvs (snd st) \<and> represents n st' (absConnect i to A)"
proof -
  obtain net sg where st: "st = (net, sg)" by (cases st)
  have ok: "grp_ok net sg" and n: "grpN sg = n" using r st by (auto simp: represents_def)
  let ?sg = "sg\<lparr>isConn := (isConn sg)[i := True]\<rparr>"
  have ok': "grp_ok net ?sg" "grpN ?sg = n" using ok n by (simp_all add: grp_ok_def grpN_def)
  let ?net1 = "enables (\<lambda>j. isConn ?sg ! j) (\<lambda>j. endNames (grpSrvs sg ! i) ! j) True to net"
  let ?net2 = "enables (\<lambda>j. isConn ?sg ! j) (\<lambda>j. endNames (grpSrvs sg ! j) ! i) True to ?net1"
  have s: "setConn i True sg = Inr ?sg" using grp_ok_index(1)[OF ok] i n by (simp add: setConn_def)
  have 1: "srvConnect (grpSrvs sg ! i) ?sg to net = Inr ?net1" unfolding srvConnect_def
    using to i grp_ok_index[OF ok'(1)] ok'(2) by (intro forEach_enables) (auto simp: IsConnected_def)
  have 2: "connectIncoming i ?sg to ?net1 = Inr ?net2" unfolding connectIncoming_def
    using to i grp_ok_index[OF ok'(1)] ok'(2) by (intro forEach_enables) (auto simp: IsConnected_def)
  have e: "grpConnect i to st = Inr (?net2, ?sg)"
    using s 1 2 i n grp_ok_index(2)[OF ok] unfolding st grpConnect_def by simp
  have l: "length (isConn sg) = n" using ok n by (simp add: grp_ok_def grpN_def)
  have c: "isConn ?sg ! a = ((fst A)(i := True)) a" if "a < n" for a using r st that l i by (auto simp: represents_def nth_list_update)
  have lk: "link (?net2, ?sg) a b = snd (absConnect i to A) a b" if ab: "a < n" "b < n" for a b
  proof -
    have inj: "j \<in> set to \<Longrightarrow> (endNames (grpSrvs sg ! i) ! j = endNames (grpSrvs sg ! a) ! b) = (i = a \<and> j = b)"
      "j \<in> set to \<Longrightarrow> (endNames (grpSrvs sg ! j) ! i = endNames (grpSrvs sg ! a) ! b) = (j = a \<and> i = b)" for j
      using end_inj[OF ok] to i ab n by auto
    have "link (net, sg) a b = snd A a b" using r st ab by (simp add: represents_def)
    then show ?thesis using c ab to inj
      by (auto simp: link_def enables_eq absConnect_def split: prod.splits)
  qed
  have "grp_ok ?net2 ?sg" using ok'(1) by (simp add: grp_ok_def)
  moreover have "fst (absConnect i to A) = (fst A)(i := True)" by (simp add: absConnect_def split: prod.splits)
  ultimately have "represents n (?net2, ?sg) (absConnect i to A)" using c lk ok'(2) unfolding represents_def by (metis fst_conv snd_conv)
  with e st show ?thesis by simp
qed

lemma grpDisconnect_refines:
  assumes r: "represents n st A" and i: "i < n" and fr: "set from \<subseteq> {..<n}"
  shows "\<exists>st'. grpDisconnect i from st = Inr st' \<and> grpSrvs (snd st') = grpSrvs (snd st) \<and> grpId (snd st') = grpId (snd st)
    \<and> represents n st' (absDisconnect i from A)"
proof -
  obtain net sg where st: "st = (net, sg)" by (cases st)
  have ok: "grp_ok net sg" and n: "grpN sg = n" using r st by (auto simp: represents_def)
  let ?sg = "sg\<lparr>isConn := (isConn sg)[i := False]\<rparr>"
  have ok': "grp_ok net ?sg" "grpN ?sg = n" using ok n by (simp_all add: grp_ok_def grpN_def)
  let ?net1 = "enables (\<lambda>_. True) (\<lambda>j. endNames (grpSrvs sg ! i) ! j) False from net"
  let ?net2 = "enables (\<lambda>_. True) (\<lambda>j. endNames (grpSrvs sg ! j) ! i) False from ?net1"
  have s: "setConn i False sg = Inr ?sg" using grp_ok_index(1)[OF ok] i n by (simp add: setConn_def)
  have 1: "srvDisconnect (grpSrvs sg ! i) from net = Inr ?net1" unfolding srvDisconnect_def
    using fr i grp_ok_index[OF ok] n by (intro forEach_enables) auto
  have 2: "disconnectIncoming i ?sg from ?net1 = Inr ?net2" unfolding disconnectIncoming_def
    using fr i grp_ok_index[OF ok'(1)] ok'(2) by (intro forEach_enables) auto
  have e: "grpDisconnect i from st = Inr (?net2, ?sg)"
    using s 1 2 i n grp_ok_index(2)[OF ok] unfolding st grpDisconnect_def by simp
  have l: "length (isConn sg) = n" using ok n by (simp add: grp_ok_def grpN_def)
  have c: "isConn ?sg ! a = ((fst A)(i := False)) a" if "a < n" for a using r st that l i by (auto simp: represents_def nth_list_update)
  have lk: "link (?net2, ?sg) a b = snd (absDisconnect i from A) a b" if ab: "a < n" "b < n" for a b
  proof -
    have inj: "j \<in> set from \<Longrightarrow> (endNames (grpSrvs sg ! i) ! j = endNames (grpSrvs sg ! a) ! b) = (i = a \<and> j = b)"
      "j \<in> set from \<Longrightarrow> (endNames (grpSrvs sg ! j) ! i = endNames (grpSrvs sg ! a) ! b) = (j = a \<and> i = b)" for j
      using end_inj[OF ok] fr i ab n by auto
    have "link (net, sg) a b = snd A a b" using r st ab by (simp add: represents_def)
    then show ?thesis using ab fr inj by (auto simp: link_def enables_eq absDisconnect_def split: prod.splits)
  qed
  have "grp_ok ?net2 ?sg" using ok'(1) by (simp add: grp_ok_def)
  moreover have "fst (absDisconnect i from A) = (fst A)(i := False)" by (simp add: absDisconnect_def split: prod.splits)
  ultimately have "represents n (?net2, ?sg) (absDisconnect i from A)" using c lk ok'(2) unfolding represents_def by (metis fst_conv snd_conv)
  with e st show ?thesis by simp
qed

text \<open>One side of a partition: every server of \<open>p\<close> leaves \<open>q\<close> and joins \<open>p\<close>.\<close>

definition absSide :: "nat list \<Rightarrow> nat list \<Rightarrow> nat list \<Rightarrow> (nat \<Rightarrow> bool) \<times> (nat \<Rightarrow> nat \<Rightarrow> bool) \<Rightarrow> (nat \<Rightarrow> bool) \<times> (nat \<Rightarrow> nat \<Rightarrow> bool)" where
  "absSide p q is = fold (\<lambda>i A. absConnect i p (absDisconnect i q A)) is"

lemma side_refines:
  assumes "represents n st A" "set is \<subseteq> {..<n}" "set p \<subseteq> {..<n}" "set q \<subseteq> {..<n}"
  shows "\<exists>st'. forEach (\<lambda>i st. andThen (grpDisconnect i q st) (grpConnect i p)) is st = Inr st' \<and> represents n st' (absSide p q is A)
    \<and> grpSrvs (snd st') = grpSrvs (snd st)"
  using assms(1,2)
proof (induction "is" arbitrary: st A)
  case (Cons i "is")
  then have i: "i < n" by simp
  obtain st1 where 1: "grpDisconnect i q st = Inr st1" "grpSrvs (snd st1) = grpSrvs (snd st)" "represents n st1 (absDisconnect i q A)"
    using grpDisconnect_refines[OF Cons.prems(1) i assms(4)] by blast
  obtain st2 where 2: "grpConnect i p st1 = Inr st2" "grpSrvs (snd st2) = grpSrvs (snd st1)" "represents n st2 (absConnect i p (absDisconnect i q A))"
    using grpConnect_refines[OF 1(3) i assms(3)] by blast
  from Cons.IH[OF 2(3)] Cons.prems(2) 1 2 show ?case by (auto simp: absSide_def)
qed (simp add: absSide_def)

lemma absSide_snoc:
  "fst (absSide p q (is @ [i]) A) = (fst (absSide p q is A))(i := True)"
  "snd (absSide p q (is @ [i]) A) a b =
     ((snd (absSide p q is A) a b \<and> \<not> (a = i \<and> b \<in> set q) \<and> \<not> (b = i \<and> a \<in> set q))
      \<or> (a = i \<and> b \<in> set p \<and> (b = i \<or> fst (absSide p q is A) b)) \<or> (b = i \<and> a \<in> set p \<and> (a = i \<or> fst (absSide p q is A) a)))"
  by (cases "absSide p q is A"; simp add: absSide_def absConnect_def absDisconnect_def)+

text \<open>The invariant of the loop over one side, with the servers \<open>is\<close> done.\<close>

lemma absSide_links:
  assumes "set p \<inter> set q = {}" "set is \<subseteq> set p"
  shows "\<forall>a \<in> set is. fst (absSide p q is A) a"
    "\<forall>a \<in> set is. \<forall>b \<in> set is. snd (absSide p q is A) a b"
    "\<forall>a \<in> set is. \<forall>b \<in> set q. \<not> snd (absSide p q is A) a b \<and> \<not> snd (absSide p q is A) b a"
    "\<forall>a. a \<notin> set p \<longrightarrow> fst (absSide p q is A) a = fst A a"
    "\<forall>a b. a \<notin> set p \<and> b \<notin> set p \<longrightarrow> snd (absSide p q is A) a b = snd A a b"
    "\<forall>a b. \<not> (a \<in> set p \<and> b \<in> set p) \<longrightarrow> snd (absSide p q is A) a b \<longrightarrow> snd A a b"
  using assms(2)
proof (induction "is" rule: rev_induct)
  case (snoc i "is")
  {
    case 1 show ?case using snoc 1 by (auto simp: absSide_snoc)
  next
    case 2 show ?case using snoc 2 assms(1) by (auto simp: absSide_snoc)
  next
    case 3 show ?case using snoc 3 assms(1) by (auto simp: absSide_snoc)
  next
    case 4 show ?case using snoc 4 by (auto simp: absSide_snoc)
  next
    case 5 show ?case using snoc 5 by (auto simp: absSide_snoc)
  next
    case 6 show ?case using snoc 6 by (auto simp: absSide_snoc)
  }
qed (simp_all add: absSide_def)

lemma represents_self: "grp_ok (fst st) (snd st) \<Longrightarrow> represents (grpN (snd st)) st (\<lambda>i. isConn (snd st) ! i, link st)"
  by (simp add: represents_def)

lemma partition_lemma:
  assumes ok: "grp_ok (fst st) (snd st)" and p: "set p1 \<inter> set p2 = {}" "set p1 \<union> set p2 = {..<grpN (snd st)}"
  shows "\<exists>st'. Partition p1 p2 st = Inr st' \<and> grp_ok (fst st') (snd st') \<and> grpSrvs (snd st') = grpSrvs (snd st)
    \<and> (\<forall>i < grpN (snd st). isConn (snd st') ! i \<and> (\<forall>j < grpN (snd st). link st' i j \<longleftrightarrow> (i \<in> set p1 \<longleftrightarrow> j \<in> set p1)))"
proof -
  let ?n = "grpN (snd st)" let ?A = "(\<lambda>i. isConn (snd st) ! i, link st)"
  have sub: "set p1 \<subseteq> {..<?n}" "set p2 \<subseteq> {..<?n}" using p(2) by auto
  let ?B = "absSide p1 p2 p1 ?A" let ?C = "absSide p2 p1 p2 ?B"
  obtain st1 where 1: "forEach (\<lambda>i st. andThen (grpDisconnect i p2 st) (grpConnect i p1)) p1 st = Inr st1" "represents ?n st1 ?B"
      "grpSrvs (snd st1) = grpSrvs (snd st)"
    using side_refines[OF represents_self[OF ok] sub(1) sub] by blast
  obtain st2 where 2: "forEach (\<lambda>i st. andThen (grpDisconnect i p1 st) (grpConnect i p2)) p2 st1 = Inr st2" "represents ?n st2 ?C"
      "grpSrvs (snd st2) = grpSrvs (snd st)"
    using side_refines[OF 1(2) sub(2) sub(2,1)] 1(3) by auto
  have q: "set p2 \<inter> set p1 = {}" using p(1) by blast
  note B = absSide_links[OF p(1) order_refl, of ?A] and C = absSide_links[OF q order_refl, of ?B]
  have m: "i \<in> set p1 \<or> i \<in> set p2" "i \<in> set p1 \<Longrightarrow> i \<notin> set p2" if "i < ?n" for i using that p by auto
  have c: "fst ?C i" if "i < ?n" for i using m[OF that] B(1) C(1,4) by auto
  have l: "snd ?C i j \<longleftrightarrow> (i \<in> set p1 \<longleftrightarrow> j \<in> set p1)" if "i < ?n" "j < ?n" for i j
    using m[OF that(1)] m[OF that(2)] B(2) C(2,3,5) by blast
  have "Partition p1 p2 st = Inr st2" using 1(1) 2(1) by (simp add: Partition_def)
  then show ?thesis using 2(2,3) c l by (auto simp: represents_def)
qed

subsection \<open>Groups that are only connected and disconnected\<close>

lemma makeEnds_Inr:
  "makeEnds gid j names net = Inr net' \<Longrightarrow>
   distinct names \<and> set names \<inter> netEnds net = {} \<and> netEnds net' = netEnds net \<union> set names
   \<and> (\<forall>e. endEnabled net' e \<longleftrightarrow> e \<notin> set names \<and> endEnabled net e)"
proof (induction names arbitrary: j net)
  case (Cons name names)
  from Cons.prems obtain net1 where 1: "MakeEnd name net = Inr net1" by (cases "MakeEnd name net") auto
  let ?net2 = "Connect name (ServerName gid (int j)) net1"
  from 1 have n: "name \<notin> netEnds net" "netEnds ?net2 = insert name (netEnds net)" "endEnabled ?net2 e \<longleftrightarrow> e \<noteq> name \<and> endEnabled net e" for e
    by (auto simp: MakeEnd_def Connect_def endEnabled_def split: if_splits)
  from Cons.prems 1 Cons.IH[of "Suc j" ?net2] n show ?case by auto
qed simp

lemma makeServer_Inr:
  assumes "makeServer gid names net = Inr (s, net')"
  shows "makeEnds gid 0 names net = Inr net'" "s = \<lparr>saved = None, endNames = names, dc = None\<rparr>"
  using assms by (cases "makeEnds gid 0 names net"; simp add: makeServer_def)+

lemma makeServers_Inr:
  "makeServers gid draws net = Inr (ss, net') \<Longrightarrow>
   map endNames ss = draws \<and> distinct (concat draws) \<and> set (concat draws) \<inter> netEnds net = {} \<and> netEnds net' = netEnds net \<union> set (concat draws)
   \<and> (\<forall>e. endEnabled net' e \<longleftrightarrow> e \<notin> set (concat draws) \<and> endEnabled net e)"
proof (induction draws arbitrary: net ss)
  case (Cons names draws)
  obtain s net1 where 1: "makeServer gid names net = Inr (s, net1)" using Cons.prems by (cases "makeServer gid names net") auto
  obtain rest net2 where 2: "makeServers gid draws net1 = Inr (rest, net2)" using Cons.prems 1 by (cases "makeServers gid draws net1") auto
  have e: "ss = s # rest" "net' = net2" using Cons.prems 1 2 by auto
  note m = makeEnds_Inr[OF makeServer_Inr(1)[OF 1]] and s = makeServer_Inr(2)[OF 1]
  show ?case using Cons.IH[OF 2[folded e(2)]] m s e(1) by (auto simp del: set_concat)
qed simp

inductive grp_reach :: "nat \<Rightarrow> grpState \<Rightarrow> bool" for n where
  made: "length draws = n \<Longrightarrow> \<forall>names \<in> set draws. length names = n \<Longrightarrow> makeSrvGrp gid draws net = Inr st \<Longrightarrow> grp_reach n st"
| connect_one: "grp_reach n st \<Longrightarrow> i < n \<Longrightarrow> ConnectOne i st = Inr st' \<Longrightarrow> grp_reach n st'"
| disconnect_all: "grp_reach n st \<Longrightarrow> i < n \<Longrightarrow> DisconnectAll i st = Inr st' \<Longrightarrow> grp_reach n st'"
| shutdown: "grp_reach n st \<Longrightarrow> i < n \<Longrightarrow> ShutdownServer i handed st = Inr st' \<Longrightarrow> grp_reach n st'"
| start: "grp_reach n st \<Longrightarrow> i < n \<Longrightarrow> \<not> isConn (snd st) ! i \<Longrightarrow> length names = n \<Longrightarrow> StartServer i names d rs st = Inr (e, st') \<Longrightarrow> grp_reach n st'"
| other: "grp_reach n (net, sg) \<Longrightarrow> \<forall>s \<in> set (grpSrvs sg). \<forall>e \<in> set (endNames s). e \<in> netEnds net' \<and> endEnabled net' e = endEnabled net e
    \<Longrightarrow> grp_reach n (net', sg)"

definition precise :: "nat \<Rightarrow> grpState \<Rightarrow> bool" where
  "precise n st \<longleftrightarrow> grp_ok (fst st) (snd st) \<and> grpN (snd st) = n
     \<and> (\<forall>i < n. \<forall>j < n. link st i j \<longleftrightarrow> isConn (snd st) ! i \<and> isConn (snd st) ! j)"

lemma precise_represents:
  "precise n st \<longleftrightarrow> (\<exists>A. represents n st A \<and> (\<forall>i < n. \<forall>j < n. snd A i j \<longleftrightarrow> fst A i \<and> fst A j))"
proof
  assume "precise n st"
  then show "\<exists>A. represents n st A \<and> (\<forall>i < n. \<forall>j < n. snd A i j \<longleftrightarrow> fst A i \<and> fst A j)"
    by (intro exI[of _ "(\<lambda>i. isConn (snd st) ! i, link st)"]) (auto simp: represents_def precise_def)
qed (auto simp: represents_def precise_def)

lemma precise_connect: "precise n st \<Longrightarrow> i < n \<Longrightarrow> \<exists>st'. ConnectOne i st = Inr st' \<and> precise n st' \<and> isConn (snd st') = (isConn (snd st))[i := True]"
proof -
  assume p: "precise n st" and i: "i < n"
  then obtain A where A: "represents n st A" "\<forall>i < n. \<forall>j < n. snd A i j \<longleftrightarrow> fst A i \<and> fst A j" by (auto simp: precise_represents)
  have all: "set (allIdx (snd st)) = {..<n}" using p by (auto simp: allIdx_def precise_def grpN_def)
  obtain st' where st': "grpConnect i (allIdx (snd st)) st = Inr st'" "represents n st' (absConnect i (allIdx (snd st)) A)"
    using grpConnect_refines[OF A(1) i] all by blast
  have "precise n st'" unfolding precise_represents using A(2) i all
    by (intro exI[of _ "absConnect i (allIdx (snd st)) A"] conjI st'(2)) (auto simp: absConnect_def split: prod.splits)
  moreover have "isConn (snd st') = (isConn (snd st))[i := True]"
    using st'(2) A(1) i by (intro nth_equalityI) (auto simp: represents_def grp_ok_def grpN_def absConnect_def nth_list_update split: prod.splits)
  ultimately show ?thesis using st'(1) by (simp add: ConnectOne_def)
qed

lemma precise_disconnect:
  "precise n st \<Longrightarrow> i < n \<Longrightarrow> \<exists>st'. grpDisconnect i (allIdx (snd st)) st = Inr st' \<and> precise n st' \<and> grpSrvs (snd st') = grpSrvs (snd st)
     \<and> \<not> isConn (snd st') ! i"
proof -
  assume p: "precise n st" and i: "i < n"
  then obtain A where A: "represents n st A" "\<forall>i < n. \<forall>j < n. snd A i j \<longleftrightarrow> fst A i \<and> fst A j" by (auto simp: precise_represents)
  have all: "set (allIdx (snd st)) = {..<n}" using p by (auto simp: allIdx_def precise_def grpN_def)
  obtain st' where st': "grpDisconnect i (allIdx (snd st)) st = Inr st'" "grpSrvs (snd st') = grpSrvs (snd st)"
      "represents n st' (absDisconnect i (allIdx (snd st)) A)"
    using grpDisconnect_refines[OF A(1) i] all by blast
  have "precise n st'" unfolding precise_represents using A(2) i all
    by (intro exI[of _ "absDisconnect i (allIdx (snd st)) A"] conjI st'(3)) (auto simp: absDisconnect_def split: prod.splits)
  then show ?thesis using st' i by (auto simp: represents_def absDisconnect_def split: prod.splits)
qed

text \<open>Servers and networks that agree on the ends have the same links.\<close>

lemma precise_cong:
  assumes "precise n st" "map endNames (grpSrvs (snd st')) = map endNames (grpSrvs (snd st))" "isConn (snd st') = isConn (snd st)"
    "\<forall>s \<in> set (grpSrvs (snd st)). \<forall>e \<in> set (endNames s). e \<in> netEnds (fst st') \<and> endEnabled (fst st') e = endEnabled (fst st) e"
  shows "precise n st'"
proof -
  have l: "length (grpSrvs (snd st')) = length (grpSrvs (snd st))" using assms(2) by (metis length_map)
  have e: "i < length (grpSrvs (snd st)) \<Longrightarrow> endNames (grpSrvs (snd st') ! i) = endNames (grpSrvs (snd st) ! i)" for i
    using assms(2) l by (metis nth_map)
  have "grp_ok (fst st') (snd st')" using assms(1,4) e l unfolding precise_def grp_ok_def all_set_conv_all_nth assms(2,3)
    by (auto simp: subset_iff in_set_conv_nth) 
  moreover have "link st' i j = link st i j" if "i < n" "j < n" for i j
  proof -
    have i: "grpSrvs (snd st) ! i \<in> set (grpSrvs (snd st))" "i < length (grpSrvs (snd st))" using assms(1) that by (auto simp: precise_def grpN_def)
    then have "endNames (grpSrvs (snd st) ! i) ! j \<in> set (endNames (grpSrvs (snd st) ! i))"
      using assms(1) that by (auto simp: precise_def grp_ok_def grpN_def)
    then have "endEnabled (fst st') (endNames (grpSrvs (snd st) ! i) ! j) = endEnabled (fst st) (endNames (grpSrvs (snd st) ! i) ! j)"
      using assms(4) i(1) by blast
    then show ?thesis using e[OF i(2)] by (simp add: link_def)
  qed
  ultimately show ?thesis using assms(1,3) l by (simp add: precise_def grpN_def)
qed

lemma precise_shutdown:
  assumes "precise n st" "i < n"
  shows "\<exists>st'. ShutdownServer i handed st = Inr st' \<and> precise n st' \<and> \<not> isConn (snd st') ! i"
proof -
  obtain net sg where d: "grpDisconnect i (allIdx (snd st)) st = Inr (net, sg)" "precise n (net, sg)" "\<not> isConn sg ! i"
    using precise_disconnect[OF assms] by (metis prod.collapse)
  let ?st = "(DeleteServer (ServerName (grpId sg) (int i)) net, sg\<lparr>grpSrvs := (grpSrvs sg)[i := shutdownTestServer handed (grpSrvs sg ! i)]\<rparr>)"
  have i: "i < length (grpSrvs sg)" using d(2) assms(2) by (simp add: precise_def grpN_def)
  have "map endNames ((grpSrvs sg)[i := shutdownTestServer handed (grpSrvs sg ! i)]) = map endNames (grpSrvs sg)"
    using i by (simp add: map_update shutdownTestServer_def list_update_same)
  moreover have "set (endNames s) \<subseteq> netEnds net" if "s \<in> set (grpSrvs sg)" for s using d(2) that by (simp add: precise_def grp_ok_def)
  ultimately have "precise n ?st" using precise_cong[OF d(2), of ?st] by (auto simp: DeleteServer_def endEnabled_def)
  then show ?thesis using d i by (simp add: ShutdownServer_def)
qed

interpretation kills: safe_steps "\<lambda>i. ShutdownServer i (handed i)" "precise n" "\<lambda>i. i < n" for handed n
  by unfold_locales (metis precise_shutdown)

text \<open>A group is shut down without a panic.\<close>

lemma ShutdownGrp_ok: "precise n st \<Longrightarrow> \<exists>st'. ShutdownGrp handed st = Inr st' \<and> precise n st'"
  unfolding ShutdownGrp_def Kill_def by (rule kills.loop_safe) (auto simp: precise_def grpN_def allIdx_def)

lemma distinct_concat_update:
  "distinct (concat xss) \<Longrightarrow> distinct ys \<Longrightarrow> set ys \<inter> set (concat xss) = {} \<Longrightarrow> distinct (concat (xss[i := ys]))"
proof (induction xss arbitrary: i)
  case (Cons xs xss)
  have "set (concat (xss[k := ys])) \<subseteq> set ys \<union> set (concat xss)" for k
    using set_update_subset_insert[of xss k ys] by auto
  then show ?case using Cons by (cases i) (auto simp del: set_concat, blast+)
qed simp

lemma startServer_Inr:
  assumes "startServer gid names s net = Inr (srv, net')" "length names = length (endNames s)"
  shows "makeEnds gid 0 names net = Inr net'" "endNames srv = names"
proof -
  obtain s0 where "makeServer gid names net = Inr (s0, net')" "endNames srv = endNames s0"
    using assms by (cases "makeServer gid names net") (auto simp: startServer_def split: option.splits)
  then show "makeEnds gid 0 names net = Inr net'" "endNames srv = names" using makeServer_Inr[of gid names net s0 net'] by auto
qed

lemma precise_start_srv:
  assumes p: "precise n (net, sg)" and i: "i < n" "\<not> isConn sg ! i" and names: "length names = n"
    and m: "makeEnds gid 0 names net = Inr net'" and srv: "endNames srv = names"
  shows "precise n (net', sg\<lparr>grpSrvs := (grpSrvs sg)[i := srv]\<rparr>)"
proof -
  note e = makeEnds_Inr[OF m]
  have l: "length (grpSrvs sg) = n" and ok: "grp_ok net sg" using p by (simp_all add: precise_def grpN_def)
  have old: "set (endNames (grpSrvs sg ! a)) \<subseteq> netEnds net" "length (endNames (grpSrvs sg ! a)) = n" if "a < n" for a
    using ok l that by (auto simp: grp_ok_def)
  have "set (concat (map endNames (grpSrvs sg))) \<subseteq> netEnds net" using ok by (auto simp: grp_ok_def)
  then have "distinct (concat ((map endNames (grpSrvs sg))[i := names]))"
    using ok e by (intro distinct_concat_update) (auto simp: grp_ok_def)
  then have "grp_ok net' (sg\<lparr>grpSrvs := (grpSrvs sg)[i := srv]\<rparr>)" using ok e l srv names set_update_subset_insert[of "grpSrvs sg" i srv]
    by (auto simp: grp_ok_def map_update)
  moreover have "link (net', sg\<lparr>grpSrvs := (grpSrvs sg)[i := srv]\<rparr>) a b \<longleftrightarrow> isConn sg ! a \<and> isConn sg ! b" if ab: "a < n" "b < n" for a b
  proof (cases "a = i")
    case True
    then have "endNames ((grpSrvs sg)[i := srv] ! a) ! b \<in> set names" using ab names l srv by simp
    then show ?thesis using True i(2) e by (simp add: link_def)
  next
    case False
    have "endNames (grpSrvs sg ! a) ! b \<in> netEnds net" using old[OF ab(1)] ab by (metis nth_mem subsetD)
    then have "endNames (grpSrvs sg ! a) ! b \<notin> set names" using e by blast
    then have "link (net', sg\<lparr>grpSrvs := (grpSrvs sg)[i := srv]\<rparr>) a b = link (net, sg) a b" using False e by (simp add: link_def)
    then show ?thesis using p ab by (simp add: precise_def)
  qed
  ultimately show ?thesis using l by (simp add: precise_def grpN_def)
qed

lemma precise_start:
  assumes p: "precise n st" and i: "i < n" "\<not> isConn (snd st) ! i" and names: "length names = n"
    and s: "StartServer i names d rs st = Inr (e, st')"
  shows "precise n st' \<and> isConn (snd st') = isConn (snd st)"
proof -
  obtain net sg where st: "st = (net, sg)" by (cases st)
  have l: "i < length (grpSrvs sg)" "length (endNames (grpSrvs sg ! i)) = n" using p i(1) st by (auto simp: precise_def grpN_def grp_ok_def)
  obtain srv net1 where 1: "startServer (grpId sg) names (grpSrvs sg ! i) net = Inr (srv, net1)"
    using s st l(1) by (cases "startServer (grpId sg) names (grpSrvs sg ! i) net") (auto simp: StartServer_def)
  note m = startServer_Inr[OF 1] 
  have srv: "precise n (net1, sg\<lparr>grpSrvs := (grpSrvs sg)[i := srv']\<rparr>)" if "endNames srv' = names" for srv'
    using precise_start_srv[OF _ _ _ names m(1) that] p i st l(2) names by simp
  have add: "precise n (net, g) \<Longrightarrow> precise n (AddServer sn rs net, g)" for net sn g
  proof -
    assume p: "precise n (net, g)"
    then have "\<forall>s \<in> set (grpSrvs g). set (endNames s) \<subseteq> netEnds net" by (simp add: precise_def grp_ok_def)
    then show ?thesis using precise_cong[OF p, of "(AddServer sn rs net, g)"] by (auto simp: AddServer_def endEnabled_def)
  qed
  show ?thesis using s st l(1) 1 srv[of srv] srv[of "srv\<lparr>dc := d\<rparr>"] add m(2) l(2) names
    by (cases d) (auto simp: StartServer_def)
qed

lemma precise_made:
  assumes "length draws = n" "\<forall>names \<in> set draws. length names = n" "makeSrvGrp gid draws net = Inr st"
  shows "precise n st"
proof -
  obtain ss net' where m: "makeServers gid draws net = Inr (ss, net')" using assms(3) by (cases "makeServers gid draws net") (auto simp: makeSrvGrp_def)
  note d = makeServers_Inr[OF m]
  then have e: "length ss = n" "\<And>i. i < n \<Longrightarrow> endNames (ss ! i) = draws ! i" using assms(1) by (metis length_map, metis length_map nth_map)
  have st: "fst st = net'" "grpSrvs (snd st) = ss" "isConn (snd st) = replicate n False" using assms(1,3) m by (auto simp: makeSrvGrp_def)
  have "length (endNames s) = n \<and> set (endNames s) \<subseteq> netEnds net'" if "s \<in> set ss" for s
  proof -
    have "endNames s \<in> set draws" using d that by (metis image_eqI list.set_map)
    then show ?thesis using d assms(2) by auto
  qed
  then have "grp_ok (fst st) (snd st)" using d e(1) by (simp add: grp_ok_def st)
  moreover have "\<not> link st i j" if "i < n" "j < n" for i j
  proof -
    have "draws ! i ! j \<in> set (concat draws)" using that assms(1,2) by (auto simp: set_concat) (metis nth_mem)
    then show ?thesis using d that e by (auto simp: link_def st)
  qed
  ultimately show ?thesis using e(1) by (simp add: precise_def grpN_def st)
qed

lemma grp_reach_precise: "grp_reach n st \<Longrightarrow> precise n st"
proof (induction rule: grp_reach.induct)
  case (made draws gid net st)
  then show ?case by (rule precise_made)
next
  case (connect_one st i st')
  then show ?case using precise_connect[of n st i] by auto
next
  case (disconnect_all st i st')
  then show ?case using precise_disconnect[of n st i] by (auto simp: DisconnectAll_def)
next
  case (shutdown st i handed st')
  then show ?case using precise_shutdown[of n st i handed] by auto
next
  case (start st i names d rs e st')
  then show ?case using precise_start by blast
next
  case (other net sg net')
  then show ?case using precise_cong[of n "(net, sg)" "(net', sg)"] by simp
qed

subsection \<open>Starting a group\<close>

lemma makeEnds_ok: "distinct names \<Longrightarrow> set names \<inter> netEnds net = {} \<Longrightarrow> \<exists>net'. makeEnds gid j names net = Inr net'"
proof (induction names arbitrary: j net)
  case (Cons name names)
  then have "MakeEnd name net = Inr (net\<lparr>netEnds := insert name (netEnds net), enabled := (enabled net)(name \<mapsto> False), connections := (connections net)(name \<mapsto> None)\<rparr>)"
    by (simp add: MakeEnd_def)
  then show ?case using Cons by (simp add: Connect_def)
qed simp

lemma makeServers_ok:
  "distinct (concat draws) \<Longrightarrow> set (concat draws) \<inter> netEnds net = {} \<Longrightarrow> \<exists>ss net'. makeServers gid draws net = Inr (ss, net')"
proof (induction draws arbitrary: net)
  case (Cons names draws)
  then obtain net1 where 1: "makeEnds gid 0 names net = Inr net1" using makeEnds_ok[of names net gid 0] by auto
  have "distinct (concat draws)" "set (concat draws) \<inter> netEnds net1 = {}" using makeEnds_Inr[OF 1] Cons.prems by auto
  from Cons.IH[OF this] 1 show ?case by (auto simp: makeServer_def)
qed simp

lemma StartServer_ok:
  assumes "precise n st" "i < n" "length names = n" "distinct names" "set names \<inter> netEnds (fst st) = {}"
  shows "\<exists>e st'. StartServer i names d rs st = Inr (e, st') \<and> netEnds (fst st') = netEnds (fst st) \<union> set names"
proof -
  obtain net sg where st: "st = (net, sg)" by (cases st)
  have l: "i < length (grpSrvs sg)" "length (endNames (grpSrvs sg ! i)) = n" using assms(1,2) st by (auto simp: precise_def grpN_def grp_ok_def)
  obtain net1 where m: "makeEnds (grpId sg) 0 names net = Inr net1" using makeEnds_ok[OF assms(4), of net "grpId sg" 0] assms(5) st by auto
  have "\<exists>srv. startServer (grpId sg) names (grpSrvs sg ! i) net = Inr (srv, net1)"
    using m l(2) assms(3) by (auto simp: startServer_def makeServer_def)
  then show ?thesis using l(1) st makeEnds_Inr[OF m] by (cases d) (auto simp: StartServer_def AddServer_def)
qed

lemma StartSrvs_ok:
  assumes "precise n st" "\<forall>(i, names, d, rs) \<in> set xs. i < n \<and> \<not> isConn (snd st) ! i \<and> length names = n"
    "distinct (concat (map (\<lambda>x. fst (snd x)) xs))" "set (concat (map (\<lambda>x. fst (snd x)) xs)) \<inter> netEnds (fst st) = {}"
  shows "\<exists>st'. StartSrvs xs st = Inr st' \<and> precise n st'"
  using assms
proof (induction xs arbitrary: st)
  case (Cons x xs)
  obtain i names d rs where x: "x = (i, names, d, rs)" by (cases x)
  have a: "i < n" "\<not> isConn (snd st) ! i" "length names = n" "distinct names" "set names \<inter> netEnds (fst st) = {}" using Cons.prems x by auto
  obtain e st1 where 1: "StartServer i names d rs st = Inr (e, st1)" "netEnds (fst st1) = netEnds (fst st) \<union> set names"
    using StartServer_ok[OF Cons.prems(1) a(1,3,4,5)] by blast
  have p: "precise n st1" "isConn (snd st1) = isConn (snd st)" using precise_start[OF Cons.prems(1) a(1,2,3) 1(1)] by blast+
  let ?N = "concat (map (\<lambda>x. fst (snd x)) xs)"
  have N: "distinct ?N" "set names \<inter> set ?N = {}" "set ?N \<inter> netEnds (fst st) = {}" using Cons.prems(3,4) x by (auto simp del: set_concat)
  have "\<forall>(i, names, d, rs) \<in> set xs. i < n \<and> \<not> isConn (snd st1) ! i \<and> length names = n" using Cons.prems(2) p(2) by simp
  moreover have "set ?N \<inter> netEnds (fst st1) = {}" using N(2,3) 1(2) by blast
  ultimately have "\<exists>st'. StartSrvs xs st1 = Inr st' \<and> precise n st'" using Cons.IH[OF p(1)] N(1) by blast
  then show ?case using 1(1) x by (simp add: StartSrvs_def)
qed (simp add: StartSrvs_def)

lemma connectList_ok:
  "precise n st \<Longrightarrow> set is \<subseteq> {..<n} \<Longrightarrow>
   \<exists>st'. forEach ConnectOne is st = Inr st' \<and> precise n st' \<and> (\<forall>i < n. isConn (snd st') ! i \<longleftrightarrow> i \<in> set is \<or> isConn (snd st) ! i)"
proof (induction "is" arbitrary: st)
  case (Cons i "is")
  then have i: "i < n" by simp
  obtain st1 where 1: "ConnectOne i st = Inr st1" "precise n st1" "isConn (snd st1) = (isConn (snd st))[i := True]"
    using precise_connect[OF Cons.prems(1) i] by blast
  have "length (isConn (snd st)) = n" using Cons.prems(1) by (simp add: precise_def grp_ok_def grpN_def)
  then show ?case using Cons.IH[OF 1(2)] Cons.prems(2) 1 i by (auto simp: nth_list_update)
qed simp

lemma ConnectAll_links:
  assumes "precise n st"
  shows "\<exists>st'. ConnectAll st = Inr st' \<and> precise n st' \<and> (\<forall>i < n. \<forall>j < n. link st' i j)"
proof -
  have all: "set (allIdx (snd st)) = {..<n}" using assms by (auto simp: allIdx_def precise_def grpN_def)
  obtain st' where "forEach ConnectOne (allIdx (snd st)) st = Inr st'" "precise n st'" "\<forall>i < n. isConn (snd st') ! i"
    using connectList_ok[OF assms, of "allIdx (snd st)"] all by auto
  then show ?thesis by (auto simp: ConnectAll_def precise_def)
qed



subsection \<open>Choosing a partition\<close>

definition place :: "nat \<Rightarrow> 'a list \<Rightarrow> 'a list \<Rightarrow> 'a list" where
  "place j xs ys = take j ys @ xs @ drop (j + length xs) ys"

lemma place_Cons: "j < length ys \<Longrightarrow> place (Suc j) xs (ys[j := x]) = place j (x # xs) ys"
  by (simp add: place_def take_Suc_conv_app_nth take_update_cancel)

lemma place_Nil [simp]: "place j [] ys = ys"
  by (simp add: place_def)

lemma fillPartition_place:
  "j + length (filter (\<lambda>i. i \<noteq> l) is) \<le> length p1 + length p2 \<Longrightarrow>
   fillPartition l is j (p1, p2) =
     Inr (take (length p1) (place j (filter (\<lambda>i. i \<noteq> l) is) (p1 @ p2)), drop (length p1) (place j (filter (\<lambda>i. i \<noteq> l) is) (p1 @ p2)))"
proof (induction "is" arbitrary: j p1 p2)
  case (Cons i "is")
  show ?case
  proof (cases "i = l")
    case False
    let ?xs = "filter (\<lambda>i. i \<noteq> l) is"
    have j: "j < length (p1 @ p2)" using Cons.prems False by simp
    show ?thesis
    proof (cases "j < length p1")
      case True
      have "place (Suc j) ?xs (p1[j := i] @ p2) = place j (i # ?xs) (p1 @ p2)"
        using place_Cons[OF j, of ?xs i] True by (simp add: list_update_append1)
      then show ?thesis using Cons.IH[of "Suc j" "p1[j := i]" p2] Cons.prems True False by simp
    next
      case ge: False
      have "place (Suc j) ?xs (p1 @ p2[j - length p1 := i]) = place j (i # ?xs) (p1 @ p2)"
        using place_Cons[OF j, of ?xs i] ge by (simp add: list_update_append)
      then show ?thesis using Cons.IH[of "Suc j" p1 "p2[j - length p1 := i]"] Cons.prems ge False j by simp
    qed
  qed (use Cons in simp)
qed simp

lemma others_length: "l < n \<Longrightarrow> length (filter (\<lambda>i. i \<noteq> l) [0..<n]) = n - 1"
proof -
  assume l: "l < n"
  have "distinct (filter (\<lambda>i. i \<noteq> l) [0..<n])" "set (filter (\<lambda>i. i \<noteq> l) [0..<n]) = {..<n} - {l}" by auto
  then show ?thesis using l by (metis distinct_card card_Diff_singleton card_lessThan lessThan_iff)
qed

text \<open>Both slices one after the other: the other servers, slots that no server fills, and \<open>l\<close>.\<close>

lemma MakePartition_eq:
  assumes "l < grpN sg" "2 \<le> grpN sg"
  shows "\<exists>p1 p2. MakePartition l sg = Inr (p1, p2) \<and> length p1 = grpN sg div 2 + 1 \<and> length p2 = grpN sg div 2
    \<and> p1 @ p2 = filter (\<lambda>i. i \<noteq> l) [0..<grpN sg] @ (if odd (grpN sg) then [l] else [0, l])"
proof -
  let ?n = "grpN sg" let ?xs = "filter (\<lambda>i. i \<noteq> l) [0..<grpN sg]"
  let ?m = "?n div 2 + 1 + ?n div 2"
  note len = others_length[OF assms(1)]
  define w where "w = place 0 ?xs (replicate ?m (0::nat))"
  have m: "?m = (if odd ?n then ?n else ?n + 1)" by presburger
  have "place 0 xs (replicate m 0) = xs @ replicate (m - length xs) (0::nat)" for xs m by (simp add: place_def)
  then have w: "w = ?xs @ replicate (?m - (?n - 1)) 0" by (simp only: w_def len)
  have k: "?m - (?n - 1) = (if odd ?n then 1 else 2)" using m assms(2) by simp
  have lw: "length w = ?m" using w len k m assms(2) by (simp split: if_splits)
  have f: "fillPartition l [0..<?n] 0 (replicate (?n div 2 + 1) 0, replicate (?n div 2) 0) = Inr (take (?n div 2 + 1) w, drop (?n div 2 + 1) w)"
    using fillPartition_place[of 0 l "[0..<?n]" "replicate (?n div 2 + 1) 0" "replicate (?n div 2) 0", unfolded replicate_add[symmetric] length_replicate, folded w_def]
      len m assms(2) by (simp del: replicate_Suc split: if_splits)
  let ?p1 = "take (?n div 2 + 1) w" let ?p2 = "(drop (?n div 2 + 1) w)[?n div 2 - 1 := l]"
  have pos: "0 < ?n div 2" using assms(2) by (simp add: div_greater_zero_iff)
  have ne: "drop (?n div 2 + 1) w \<noteq> []" using lw assms(2) by simp
  have "?p1 @ ?p2 = (?p1 @ drop (?n div 2 + 1) w)[?m - 1 := l]" using lw pos by (simp add: list_update_append del: append_take_drop_id)
  then have "?p1 @ ?p2 = w[?m - 1 := l]" by simp
  also have "\<dots> = ?xs @ (if odd ?n then [l] else [0, l])"
    unfolding w k using len m assms(2) by (auto simp: list_update_append numeral_2_eq_2 split: if_splits)
  finally have "?p1 @ ?p2 = ?xs @ (if odd ?n then [l] else [0, l])" .
  moreover have "MakePartition l sg = Inr (?p1, ?p2)" using f ne lw by (simp add: MakePartition_def grpN_def Let_def)
  moreover have "length ?p1 = ?n div 2 + 1" "length ?p2 = ?n div 2" using lw by simp_all
  ultimately show ?thesis by blast
qed

lemma MakePartition_odd:
  assumes "l < grpN sg" "2 \<le> grpN sg" "odd (grpN sg)"
  shows "\<exists>p1 p2. MakePartition l sg = Inr (p1, p2) \<and> distinct (p1 @ p2) \<and> set (p1 @ p2) = {..<grpN sg} \<and> l \<in> set p2 \<and> length p2 < length p1"
proof -
  obtain p1 p2 where p: "MakePartition l sg = Inr (p1, p2)" "length p1 = grpN sg div 2 + 1" "length p2 = grpN sg div 2"
      "p1 @ p2 = filter (\<lambda>i. i \<noteq> l) [0..<grpN sg] @ [l]"
    using MakePartition_eq[OF assms(1,2)] assms(3) by auto
  have "distinct (p1 @ p2)" "set (p1 @ p2) = {..<grpN sg}" unfolding p(4) using assms(1) by auto
  moreover have "p2 \<noteq> []" using p(3) assms(2) by auto
  then have "last p2 = l" using arg_cong[OF p(4), of last] by simp
  then have "l \<in> set p2" using \<open>p2 \<noteq> []\<close> last_in_set by blast
  ultimately show ?thesis using p(1-3) by auto
qed

text \<open>
  C34: For a group with an odd number of servers, at least three, \<open>MakePartition\<close> splits the servers into a majority and a
  minority that contains \<open>l\<close>, and \<open>Partition\<close> with these sides connects two servers exactly if they are on the same side,
  whatever was connected before.
\<close>

theorem partition_isolates_leader:
  assumes "grp_ok net sg" "l < grpN sg" "2 \<le> grpN sg" "odd (grpN sg)"
  shows "\<exists>p1 p2 st'. MakePartition l sg = Inr (p1, p2) \<and> distinct (p1 @ p2) \<and> set (p1 @ p2) = {..<grpN sg} \<and> l \<in> set p2 \<and> length p2 < length p1
    \<and> Partition p1 p2 (net, sg) = Inr st' \<and> (\<forall>i < grpN sg. \<forall>j < grpN sg. link st' i j \<longleftrightarrow> (i \<in> set p1 \<longleftrightarrow> j \<in> set p1))"
proof -
  obtain p1 p2 where p: "MakePartition l sg = Inr (p1, p2)" "distinct (p1 @ p2)" "set (p1 @ p2) = {..<grpN sg}" "l \<in> set p2" "length p2 < length p1"
    using MakePartition_odd[OF assms(2-4)] by blast
  then show ?thesis using partition_lemma[of "(net, sg)" p1 p2] assms(1) by auto
qed

definition exampleGrp :: ServerGrp where
  "exampleGrp = \<lparr>grpSrvs = map (\<lambda>names. \<lparr>saved = None, endNames = names, dc = None\<rparr>)
       [[''a'', ''b'', ''c''], [''d'', ''e'', ''f''], [''g'', ''h'', ''i'']],
     servernames = map (\<lambda>i. ServerName 0 (int i)) [0..<3], grpId = 0, isConn = replicate 3 False\<rparr>"

definition exampleNet :: Network where
  "exampleNet = MakeNetwork\<lparr>netEnds := set (concat (map endNames (grpSrvs exampleGrp)))\<rparr>"

lemma exampleGrp_ok: "grp_ok exampleNet exampleGrp" "grpN exampleGrp = 3"
  by (simp_all add: grp_ok_def exampleNet_def exampleGrp_def grpN_def upt_rec)

theorem partition_isolates_leader_witness:
  "\<exists>p1 p2 st'. MakePartition 1 exampleGrp = Inr (p1, p2) \<and> Partition p1 p2 (exampleNet, exampleGrp) = Inr st' \<and> 1 \<in> set p2
     \<and> (\<forall>i < 3. \<forall>j < 3. link st' i j \<longleftrightarrow> (i \<in> set p1 \<longleftrightarrow> j \<in> set p1))"
  using partition_isolates_leader[OF exampleGrp_ok(1), of 1] by (auto simp: exampleGrp_ok(2))


lemma exampleMade: "\<exists>st. makeSrvGrp 0 [[''a'']] MakeNetwork = Inr st \<and> isConn (snd st) = [False]"
  by (simp add: makeSrvGrp_def makeServer_def MakeEnd_def MakeNetwork_def)


text \<open>
  For an even number of servers, at least four, and \<open>l\<close> other than 0, \<open>MakePartition\<close> does not split the servers: server 0 is
  on both sides.
\<close>

theorem even_partition_overlaps:
  assumes "l < grpN sg" "l \<noteq> 0" "4 \<le> grpN sg" "even (grpN sg)"
  shows "\<exists>p1 p2. MakePartition l sg = Inr (p1, p2) \<and> 0 \<in> set p1 \<and> 0 \<in> set p2"
proof -
  obtain p1 p2 where p: "MakePartition l sg = Inr (p1, p2)" "length p1 = grpN sg div 2 + 1" "length p2 = grpN sg div 2"
      "p1 @ p2 = filter (\<lambda>i. i \<noteq> l) [0..<grpN sg] @ [0, l]"
    using MakePartition_eq[OF assms(1)] assms(3,4) by auto
  have "p1 \<noteq> []" using p(2) by auto
  moreover have "hd (p1 @ p2) = 0" unfolding p(4) using assms(2,3) by (simp add: upt_rec)
  ultimately have "0 \<in> set p1" by (metis hd_append2 list.set_sel(1))
  moreover have "butlast p2 \<noteq> []" using p(3) assms(3) by (metis length_butlast list.size(3) div_le_mono numeral_Bit0_div_2 not_numeral_le_zero One_nat_def diff_is_0_eq le_trans numeral_2_eq_2 Suc_n_not_le_n)
  then have "last (butlast p2) = last (butlast (p1 @ p2))" by (auto simp: butlast_append)
  then have "last (butlast p2) = 0" unfolding p(4) by (simp add: butlast_append)
  then have "0 \<in> set p2" using \<open>butlast p2 \<noteq> []\<close> by (metis last_in_set in_set_butlastD)
  ultimately show ?thesis using p(1) by blast
qed

theorem even_partition_overlaps_witness:
  "\<exists>p1 p2. MakePartition 2 (exampleGrp\<lparr>grpSrvs := replicate 4 \<lparr>saved = None, endNames = [], dc = None\<rparr>\<rparr>) = Inr (p1, p2) \<and> 0 \<in> set p1 \<and> 0 \<in> set p2"
  using even_partition_overlaps[of 2 "exampleGrp\<lparr>grpSrvs := replicate 4 \<lparr>saved = None, endNames = [], dc = None\<rparr>\<rparr>"] by (simp add: grpN_def)

subsection \<open>Clients\<close>

definition clnt_ok :: "clntState \<Rightarrow> bool" where
  "clnt_ok st \<longleftrightarrow> (\<forall>s e. (s, e) \<in> set (ends (snd st)) \<longrightarrow> e \<in> netEnds (fst st) \<and> (endEnabled (fst st) e \<longrightarrow> allowedL s (snd st)))"

lemma netEnds_Enable [simp]: "netEnds (Enable e b net) = netEnds net"
  by (simp add: Enable_def)

lemma fold_Enable:
  "netEnds (fold (\<lambda>(s, e) net. if P s then Enable e b net else net) m net) = netEnds net"
  "endEnabled (fold (\<lambda>(s, e) net. if P s then Enable e b net else net) m net) e
     = (if \<exists>s. (s, e) \<in> set m \<and> P s then b else endEnabled net e)"
  by (induction m arbitrary: net) (auto split: if_splits)

lemmas fold_Enable_all = fold_Enable[where P = "\<lambda>_. True", simplified]

lemma clntMakeEnd_cases:
  assumes "clntMakeEnd server name st = Inr (e, st')"
  obtains "map_of (ends (snd st)) server = Some e" "st' = st"
  | "e = name" "name \<notin> netEnds (fst st)" "netEnds (fst st') = insert name (netEnds (fst st))"
    "snd st' = (snd st)\<lparr>ends := gm_put server name (ends (snd st))\<rparr>"
    "\<And>e. endEnabled (fst st') e = (if e = name then allowedL server (snd st) else endEnabled (fst st) e)"
  using assms by (cases st)
    (auto simp: clntMakeEnd_def MakeEnd_def Connect_def Enable_def endEnabled_def Let_def split: option.splits if_splits)

lemma clnt_ok_makeEnd: "clnt_ok st \<Longrightarrow> clntMakeEnd server name st = Inr (e, st') \<Longrightarrow> clnt_ok st'"
proof (erule clntMakeEnd_cases)
  assume ok: "clnt_ok st" and n: "name \<notin> netEnds (fst st)" and net: "netEnds (fst st') = insert name (netEnds (fst st))"
    and c: "snd st' = (snd st)\<lparr>ends := gm_put server name (ends (snd st))\<rparr>"
    and en: "\<And>e. endEnabled (fst st') e = (if e = name then allowedL server (snd st) else endEnabled (fst st) e)"
  have al: "allowedL s (snd st') = allowedL s (snd st)" for s by (simp add: c allowedL_def)
  have sub: "set (ends (snd st')) \<subseteq> insert (server, name) (set (ends (snd st)))" by (simp add: c set_gm_put)
  show ?thesis unfolding clnt_ok_def
  proof (intro allI impI)
    fix s e assume "(s, e) \<in> set (ends (snd st'))"
    then show "e \<in> netEnds (fst st') \<and> (endEnabled (fst st') e \<longrightarrow> allowedL s (snd st'))"
      using subsetD[OF sub] ok n net en al unfolding clnt_ok_def by (metis insertE insertI1 insertI2 prod.inject)
  qed
qed simp

text \<open>The calls of tests on a client, and their effect on the client's ends.\<close>

datatype clnt_op = MakeEndOp string string | ConnectAllOp | DisconnectOp string | DisconnectAllOp

fun clntStep :: "clnt_op \<Rightarrow> clntState \<Rightarrow> panic + clntState" where
  "clntStep (MakeEndOp server name) st = andThen (clntMakeEnd server name st) (\<lambda>(e, st). Inr st)"
| "clntStep ConnectAllOp st = Inr (clntConnectAll st)"
| "clntStep (DisconnectOp srv) st = Inr (clntDisconnect srv st)"
| "clntStep DisconnectAllOp st = Inr (clntDisconnectAll st)"

lemma clnt_ok_step: "clnt_ok st \<Longrightarrow> clntStep op st = Inr st' \<Longrightarrow> clnt_ok st'"
proof (induction op)
  case (MakeEndOp server name)
  then show ?case by (cases "clntMakeEnd server name st") (auto simp: clnt_ok_makeEnd)
next
  case (DisconnectOp srv)
  then show ?case by (cases st) (auto simp: clnt_ok_def clntDisconnect_def fold_Enable split: if_splits)
next
  case ConnectAllOp
  then show ?case by (cases st) (auto simp: clnt_ok_def clntConnectAll_def fold_Enable_all allowedL_def)
next
  case DisconnectAllOp
  then show ?case by (cases st) (auto simp: clnt_ok_def clntDisconnectAll_def fold_Enable_all split: if_splits)
qed

interpretation clients: keeping_steps clntStep clnt_ok
  by unfold_locales (rule clnt_ok_step)

text \<open>
  A client never has an enabled end to a server that it may not talk to, after any sequence of calls that make ends,
  connect to all servers, disconnect from one and disconnect from all.
\<close>

theorem client_ends_allowed:
  assumes "forEach clntStep ops (net, makeClntTo ss) = Inr (net', c)" "(s, e) \<in> set (ends c)" "endEnabled net' e"
  shows "allowedL s c"
proof -
  have "clnt_ok (net, makeClntTo ss)" by (simp add: clnt_ok_def makeClntTo_def)
  from clients.loop_keeps[OF this assms(1)] show ?thesis using assms(2,3) by (auto simp: clnt_ok_def)
qed

theorem client_ends_allowed_witness:
  "\<exists>net' c. forEach clntStep [MakeEndOp ''s'' ''e''] (MakeNetwork, makeClntTo None) = Inr (net', c) \<and> allowedL ''s'' c"
  using client_ends_allowed[of "[MakeEndOp ''s'' ''e'']" MakeNetwork None _ _ "''s''" "''e''"]
  by (auto simp: clntMakeEnd_def MakeEnd_def MakeNetwork_def makeClntTo_def allowedL_def Enable_def Connect_def endEnabled_def gm_put_def)

text \<open>
  \<open>ConnectTo\<close> only enables ends: an enabled end to a server that is not among the new ones stays enabled, although the client
  may not talk to it any more.
\<close>

theorem ConnectTo_keeps_others:
  assumes "(s, e) \<in> set (ends c)" "endEnabled net e" "s \<notin> set ss"
  shows "endEnabled (fst (clntConnectTo (Some ss) (net, c))) e \<and> \<not> allowedL s (snd (clntConnectTo (Some ss) (net, c)))"
  using assms by (simp add: clntConnectTo_def Let_def fold_Enable allowedL_def)

theorem ConnectTo_keeps_others_witness:
  "endEnabled (fst (clntConnectTo (Some []) (Enable ''e'' True MakeNetwork, \<lparr>ends = [(''s'', ''e'')], clSrvs = None\<rparr>))) ''e''"
  using ConnectTo_keeps_others[of "''s''" "''e''" "\<lparr>ends = [(''s'', ''e'')], clSrvs = None\<rparr>" "Enable ''e'' True MakeNetwork" "[]"]
  by simp

end
