(* ===== verification/PBSDemo.thy ===== *)
theory PBSDemo
  imports PBSFailures Coordinator Client Plots TestGroups
begin

text \<open>
  The experiment driver \<^verbatim>\<open>kvsrv/pbs_demo.go\<close> around the failure loop: default options, the
  checks of \<open>RunPBSDemo\<close>, the cluster it builds, the choice of coordinators, and the bodies of
  the reader and writer loops with their counters. The coordinator's handlers are functions on
  the state \<open>'w\<close> of the cluster; a worker iteration is one event, so a run is the sequence of
  the iterations of all workers in the order of their effects. The collector that the servers
  share is stored in each of them by value. File names, plots and printing are not modelled.
\<close>

unbundle bit_operations_syntax

subsection \<open>Names and numbers\<close>

definition pbsDemoNumSectors :: nat where "pbsDemoNumSectors = 512"

definition demoNodeIDs :: "int \<Rightarrow> string list" where
  "demoNodeIDs numNodes = map (\<lambda>i. ServerName GRP0 (int i)) [0..<nat numNodes]"

subsection \<open>Defaults\<close>

definition DefaultPBSDemoScenarios :: "PBSDemoScenario list" where
  "DefaultPBSDemoScenarios =
     [\<lparr>scenarioName = ''observe_baseline'', scenarioLabel = ''observe_baseline'', EnableReadRepair = False,
       EnableAntiEntropy = False, EnableHintedHandoff = False, FailureMode = ''single_dead_replica''\<rparr>,
      \<lparr>scenarioName = ''observe_read_repair'', scenarioLabel = ''observe_read_repair'', EnableReadRepair = True,
       EnableAntiEntropy = False, EnableHintedHandoff = False, FailureMode = ''single_dead_replica''\<rparr>,
      \<lparr>scenarioName = ''observe_anti_entropy'', scenarioLabel = ''observe_anti_entropy'', EnableReadRepair = False,
       EnableAntiEntropy = True, EnableHintedHandoff = False, FailureMode = ''single_dead_replica''\<rparr>,
      \<lparr>scenarioName = ''observe_hinted_handoff'', scenarioLabel = ''observe_hinted_handoff'', EnableReadRepair = False,
       EnableAntiEntropy = False, EnableHintedHandoff = True, FailureMode = ''single_dead_replica''\<rparr>]"

definition DefaultPBSDemoOptions :: PBSDemoOptions where
  "DefaultPBSDemoOptions =
     \<lparr>OutputDir = ''.'', Keys = [''pbs-demo-key''], WorkloadDuration = 3000 * Millisecond, NumWriters = 1,
      SleepBetweenOps = 10 * Millisecond, NumReaders = 5, ReadSleep = 2 * Millisecond, SleepJitterRatio = 1 / 2,
      NumNodes = 5, UnreliableNetwork = True, LongReorderingNet = True, RandomCoordinator = True,
      FailureStartAfter = 0, FailureDownDuration = 0, FailureUpDuration = 0, FailureRecoverAfter = 0,
      FailureOverlap = 0, DeadReplicaPickSeed = 0,
      PlotConfig = \<lparr>scNumReplicas = 3, scReadQuorum = 1, scWriteQuorum = 1, scDelta = 2 * Millisecond,
        scDeltaPoints = 50, scK = 3, scIterations = 3, scYMin = 0, scYMax = 0, scEmitZoomPlot = True\<rparr>,
      Scenarios = DefaultPBSDemoScenarios\<rparr>"

subsection \<open>Checks of RunPBSDemo\<close>

fun emptyKey :: "nat \<Rightarrow> string list \<Rightarrow> nat option" where
  "emptyKey i [] = None"
| "emptyKey i (k # keys) = (if k = '''' then Some i else emptyKey (i + 1) keys)"

definition defaultKeys :: "PBSDemoOptions \<Rightarrow> PBSDemoOptions" where
  "defaultKeys opts = (if Keys opts = [] then opts\<lparr>Keys := [''pbs-demo-key'']\<rparr> else opts)"

text \<open>The options as the function goes on with them; creating the output directory succeeds.\<close>

definition checkPBSDemoOptions :: "PBSDemoOptions \<Rightarrow> DemoError + PBSDemoOptions" where
  "checkPBSDemoOptions opts =
     (let opts = (if OutputDir opts = '''' then opts\<lparr>OutputDir := ''.''\<rparr> else opts);
          opts = defaultKeys opts
      in case emptyKey 0 (Keys opts) of
           Some i \<Rightarrow> Inl (KeyEmpty i)
         | None \<Rightarrow>
             if WorkloadDuration opts \<le> 0 then Inl WorkloadNotPositive
             else if NumWriters opts \<le> 0 then Inl WritersNotPositive
             else if NumReaders opts \<le> 0 then Inl ReadersNotPositive
             else if NumNodes opts \<le> 0 then Inl NodesNotPositive
             else case validatePBSDemoFailureOptions opts of
                    Some e \<Rightarrow> Inl e
                  | None \<Rightarrow>
                      let opts = (if Scenarios opts = [] then opts\<lparr>Scenarios := DefaultPBSDemoScenarios\<rparr> else opts);
                          c = PlotConfig opts
                      in if scNumReplicas c \<le> 0 then Inl ReplicasNotPositive
                         else if scNumReplicas c > NumNodes opts then Inl ReplicasExceedNodes
                         else if scReadQuorum c \<le> 0 \<or> scReadQuorum c > scNumReplicas c then Inl ReadQuorumRange
                         else if scWriteQuorum c \<le> 0 \<or> scWriteQuorum c > scNumReplicas c then Inl WriteQuorumRange
                         else Inr opts)"

definition makePBSDemoHashRing :: "PBSDemoOptions \<Rightarrow> panic + ConsistentHashRing" where
  "makePBSDemoHashRing opts =
     MakeConsistentHashRing (nat (scNumReplicas (PlotConfig opts))) pbsDemoNumSectors (NumNodes opts) (demoNodeIDs (NumNodes opts))"

text \<open>The victims of an experiment; \<open>None\<close> when the search for them does not end.\<close>

definition failureSequenceFor :: "PBSDemoOptions \<Rightarrow> PBSDemoScenario list \<Rightarrow> PBSDemoScenario \<Rightarrow> (panic + DemoError + string list) option" where
  "failureSequenceFor opts scenarios scenario =
     (if scenariosUseSingleDeadReplica scenarios then
        (case countPBSDemoScheduledFailurePhases opts of
           None \<Rightarrow> None
         | Some n \<Rightarrow>
             (case makePBSDemoHashRing opts of
                Inl e \<Rightarrow> Some (Inl e)
              | Inr chr \<Rightarrow>
                  if Keys opts = [] then Some (Inl IndexOutOfRange)
                  else buildPBSFailureReplicaSequence (hd (Keys opts)) chr n scenario))
      else Some (Inr (Inr [])))"

subsection \<open>Seeds, jitter and contexts\<close>

definition fnvPrime :: u64 where "fnvPrime = 1099511628211"

definition fnvByte :: "u8 \<Rightarrow> u64 \<Rightarrow> u64" where
  "fnvByte b h = (h XOR ucast b) * fnvPrime"

definition workerSeed :: "string \<Rightarrow> string \<Rightarrow> int \<Rightarrow> int" where
  "workerSeed scenario role i =
     (let h = fold fnvByte (string_bytes scenario) 1469598103934665603;
          h = (h XOR ucast (byte_of (CHR ''|''))) * fnvPrime;
          h = fold fnvByte (string_bytes role) h;
          h = h XOR (of_int i * fnvPrime)
      in sint (drop_bit 1 h))"

definition deadReplicaPickSeed :: "PBSDemoOptions \<Rightarrow> int" where
  "deadReplicaPickSeed opts =
     (if DeadReplicaPickSeed opts \<noteq> 0 then DeadReplicaPickSeed opts
      else let h = (ucast (crc32_ChecksumIEEE (string_bytes (hd (Keys opts)))) :: u64);
               h = h XOR (of_int (NumNodes opts) * 0x9e3779b97f4a7c15);
               h = h XOR push_bit 8 (of_int (scNumReplicas (PlotConfig opts)))
           in sint h)"

definition selectSingleDeadReplicaID :: "string \<Rightarrow> ConsistentHashRing \<Rightarrow> PBSDemoScenario \<Rightarrow> Rand
    \<Rightarrow> (panic + DemoError + string \<times> Rand) option" where
  "selectSingleDeadReplicaID key chr scenario rng =
     (if FailureMode scenario = '''' \<or> FailureMode scenario = ''none'' then Some (Inr (Inr ('''', rng)))
      else if FailureMode scenario \<noteq> ''single_dead_replica''
      then Some (Inr (Inl (UnsupportedFailureMode (FailureMode scenario))))
      else map_option (map_sum id (\<lambda>prefList.
             if length prefList < 2 then Inl TooFewReplicas
             else let (i, rng) = rng_Intn (length prefList) rng in Inr (prefList ! i, rng)))
             (GetPreferenceList chr key))"

text \<open>How long \<open>jitteredSleep\<close> sleeps; \<open>u\<close> is the draw of \<^verbatim>\<open>rng.Float64\<close>.\<close>

definition jitteredSleep :: "Duration \<Rightarrow> rat \<Rightarrow> rat \<Rightarrow> Duration" where
  "jitteredSleep base ratio u =
     (if base \<le> 0 then 0
      else if ratio \<le> 0 then base
      else let ratio = (if ratio > 1 then 1 else ratio);
               scale = 1 + ratio * (2 * u - 1);
               d = goTruncate (of_int base * scale)
           in if d > 0 then d else 0)"

definition nextDemoContext :: "Context \<Rightarrow> string \<Rightarrow> Context" where
  "nextDemoContext ctx writerLabel =
     (let next = CopyCtx ctx
      in next\<lparr>VC := SetVersion writerLabel (GetVersion (VC next) writerLabel + 1) (VC next),
              Timestamp := Timestamp next + 1\<rparr>)"

subsection \<open>The cluster\<close>

text \<open>The ends of one node, then of all nodes.\<close>

fun connectEnds :: "string \<Rightarrow> string list \<Rightarrow> Network \<Rightarrow> panic + Network" where
  "connectEnds from [] net = Inr net"
| "connectEnds from (to # ids) net =
     (case MakeEnd (endName from to) net of
        Inl e \<Rightarrow> Inl e
      | Inr net \<Rightarrow> connectEnds from ids (Enable (endName from to) True (Connect (endName from to) to net)))"

fun connectAll :: "string list \<Rightarrow> string list \<Rightarrow> Network \<Rightarrow> panic + Network" where
  "connectAll ids [] net = Inr net"
| "connectAll ids (from # rest) net =
     (case connectEnds from ids net of Inl e \<Rightarrow> Inl e | Inr net \<Rightarrow> connectAll ids rest net)"

record DemoCluster =
  dcRing :: ConsistentHashRing
  dcNodes :: "string list"
  dcServers :: "(string, KVServer) gomap"
  dcNet :: Network

definition makeDemoServer :: "ConsistentHashRing \<Rightarrow> int \<Rightarrow> int \<Rightarrow> string list \<Rightarrow> PBSCollector option \<Rightarrow> Time \<Rightarrow> string \<Rightarrow> KVServer" where
  "makeDemoServer chr readQ writeQ ids shared now nodeID =
     (let s = MakeKVServer nodeID chr writeQ readQ ids now
      in if shared \<noteq> None then s\<lparr>collector := shared\<rparr> else s)"

text \<open>The address of the \<open>i\<close>-th server object is \<open>i\<close>.\<close>

definition makePBSDemoCluster :: "int \<Rightarrow> int \<Rightarrow> int \<Rightarrow> int \<Rightarrow> bool \<Rightarrow> bool \<Rightarrow> PBSCollector option \<Rightarrow> Time \<Rightarrow> panic + DemoCluster" where
  "makePBSDemoCluster numNodes nReplicas readQ writeQ unreliable longReord shared now =
     (let ids = demoNodeIDs numNodes
      in case MakeConsistentHashRing (nat nReplicas) pbsDemoNumSectors numNodes ids of
           Inl e \<Rightarrow> Inl e
         | Inr chr \<Rightarrow>
             let net = MakeNetwork;
                 net = (if unreliable then Reliable False net else net);
                 net = (if longReord then LongReordering True net else net)
             in case connectAll ids ids net of
                  Inl e \<Rightarrow> Inl e
                | Inr net \<Rightarrow>
                    let srvs = map (\<lambda>nodeID. (nodeID, makeDemoServer chr readQ writeQ ids shared now nodeID)) ids;
                        net = fold (\<lambda>(i, nodeID). AddServer nodeID i) (List.enumerate 0 ids) net
                    in Inr \<lparr>dcRing = chr, dcNodes = ids, dcServers = srvs, dcNet = net\<rparr>)"

text \<open>What \<open>runPBSDemoScenario\<close> switches on a server before the workload.\<close>

definition configureServer :: "PBSDemoScenario \<Rightarrow> KVServer \<Rightarrow> KVServer" where
  "configureServer scenario kv =
     kv\<lparr>readRepairEnabled := EnableReadRepair scenario, hintedHandoffEnabled := EnableHintedHandoff scenario\<rparr>"

subsection \<open>Coordinators\<close>

definition pbsLiveCoordinatorCandidates :: "KVServer list \<Rightarrow> KVServer list" where
  "pbsLiveCoordinatorCandidates cands =
     (case cands of
        [] \<Rightarrow> cands
      | ref # _ \<Rightarrow> let out = filter (\<lambda>c. \<not> isDead ref (srvID c)) cands in if out = [] then cands else out)"

definition coordinatorCandidates :: "bool \<Rightarrow> ConsistentHashRing \<Rightarrow> (string, KVServer) gomap \<Rightarrow> string
    \<Rightarrow> (panic + DemoError + KVServer list) option" where
  "coordinatorCandidates randomCoord chr srvs key =
     map_option (map_sum id (\<lambda>cands. if cands = [] then Inl (NoCandidates key) else Inr cands))
       (if randomCoord
        then map_option (map_sum id (List.map_filter (map_of srvs))) (GetPreferenceList chr key)
        else Some (Inr (case map_of srvs (GetCoordinator chr key) of None \<Rightarrow> [] | Some s \<Rightarrow> [s])))"

type_synonym pickCounts = "(string, int) gomap"

definition pickCoordinator :: "KVServer list \<Rightarrow> Rand \<Rightarrow> pickCounts \<Rightarrow> panic + KVServer \<times> Rand \<times> pickCounts" where
  "pickCoordinator candidates rng counts =
     (let cands = pbsLiveCoordinatorCandidates candidates
      in if cands = [] then Inl (ExplicitPanic ''invalid argument to Intn'')
         else let (s, rng) = (if length cands = 1 then (hd cands, rng)
                              else case rng_Intn (length cands) rng of (i, rng) \<Rightarrow> (cands ! i, rng))
              in Inr (s, rng, gm_put (srvID s) (gm_get 0 counts (srvID s) + 1) counts))"

definition pickKey :: "string list \<Rightarrow> Rand \<Rightarrow> string \<times> Rand" where
  "pickKey keys rng =
     (if length keys = 1 then (hd keys, rng) else case rng_Intn (length keys) rng of (i, rng) \<Rightarrow> (keys ! i, rng))"

subsection \<open>Operations of the workload\<close>

type_synonym 'w putHandler = "string \<Rightarrow> PutArgs \<Rightarrow> 'w \<Rightarrow> (PutArgs \<times> PutReply) \<times> 'w"
type_synonym 'w getHandler = "string \<Rightarrow> GetArgs \<Rightarrow> 'w \<Rightarrow> GetReply \<times> 'w"

definition demoPut :: "'w putHandler \<Rightarrow> string \<Rightarrow> string \<Rightarrow> string \<Rightarrow> Context \<Rightarrow> 'w \<Rightarrow> (Err \<times> Context) \<times> 'w" where
  "demoPut put coordinator key value baseCtx w =
     (let ((args, reply), w') = put coordinator \<lparr>putKey = key, putObject = NewObject value baseCtx, BaseContext = baseCtx\<rparr> w
      in ((putErr reply, CopyCtx (Ctx (putObject args))), w'))"

definition demoGet :: "'w getHandler \<Rightarrow> string \<Rightarrow> string \<Rightarrow> 'w \<Rightarrow> (Err \<times> DemoError option) \<times> 'w" where
  "demoGet get coordinator key w =
     (let (reply, w') = get coordinator \<lparr>getKey = key\<rparr> w
      in (if getErr reply = OK \<and> length (getObjects reply) = 0 then (OK, Some OKWithoutObjects) else (getErr reply, None), w'))"

definition demoGetLatestContext :: "'w getHandler \<Rightarrow> string \<Rightarrow> string \<Rightarrow> 'w \<Rightarrow> (DemoError + Context option) \<times> 'w" where
  "demoGetLatestContext get coordinator key w =
     (let (reply, w') = get coordinator \<lparr>getKey = key\<rparr> w
      in (if getErr reply \<noteq> OK then Inr None
          else case pickLatestObject (getObjects reply) of
                 Inl _ \<Rightarrow> Inl OKWithoutObjects
               | Inr latest \<Rightarrow> Inr (Some (CopyCtx (Ctx latest))), w'))"

definition initialAttempts :: nat where "initialAttempts = 50"

text \<open>\<open>n\<close> attempts are left and \<open>i\<close> were made; \<open>now\<close> gives the clock of every attempt.\<close>

fun initialWriteLoop :: "'w putHandler \<Rightarrow> (nat \<Rightarrow> u64) \<Rightarrow> string \<Rightarrow> string \<Rightarrow> nat \<Rightarrow> nat \<Rightarrow> 'w \<Rightarrow> (DemoError + Context) \<times> 'w" where
  "initialWriteLoop put now coordinator key 0 i w = (Inl (InitialWriteExhausted i), w)"
| "initialWriteLoop put now coordinator key (Suc n) i w =
     (let ((putErr, ctx), w') = demoPut put coordinator key ''initial-value'' (NewContext (now i)) w
      in if putErr = OK then (Inr ctx, w')
         else if putErr = ErrWriteQuorumNotMet \<or> putErr = ErrNoKey \<or> putErr = ErrVersion
         then initialWriteLoop put now coordinator key n (i + 1) w'
         else (Inl (InitialWriteFailed i putErr), w'))"

definition writeInitialValue :: "'w putHandler \<Rightarrow> (nat \<Rightarrow> u64) \<Rightarrow> string \<Rightarrow> string \<Rightarrow> 'w \<Rightarrow> (DemoError + Context) \<times> 'w" where
  "writeInitialValue put now coordinator key w = initialWriteLoop put now coordinator key initialAttempts 0 w"

subsection \<open>Workers and their counters\<close>

record PBSDemoStats =
  WriteOK :: int
  WriteErrVersion :: int
  WriteQuorumRetry :: int
  WriteNoKeyRetry :: int
  WriteOtherErr :: int
  ReadOK :: int
  ReadNoKey :: int
  ReadQuorumRetry :: int
  ReadErr :: int
  RefreshOK :: int
  RefreshErr :: int
  ReadAttemptTotal :: int

definition noStats :: PBSDemoStats where
  "noStats = \<lparr>WriteOK = 0, WriteErrVersion = 0, WriteQuorumRetry = 0, WriteNoKeyRetry = 0, WriteOtherErr = 0, ReadOK = 0,
     ReadNoKey = 0, ReadQuorumRetry = 0, ReadErr = 0, RefreshOK = 0, RefreshErr = 0, ReadAttemptTotal = 0\<rparr>"

text \<open>One iteration of a reader: the error that stops all workers, if any.\<close>

definition readerStep :: "'w getHandler \<Rightarrow> string \<Rightarrow> string \<Rightarrow> PBSDemoStats \<Rightarrow> 'w \<Rightarrow> (DemoError option \<times> PBSDemoStats) \<times> 'w" where
  "readerStep get coordinator key st w =
     (let st = st\<lparr>ReadAttemptTotal := ReadAttemptTotal st + 1\<rparr>;
          ((softErr, hardErr), w') = demoGet get coordinator key w
      in (case hardErr of
            Some e \<Rightarrow> (Some e, st\<lparr>ReadErr := ReadErr st + 1\<rparr>)
          | None \<Rightarrow>
              (case softErr of
                 OK \<Rightarrow> (None, st\<lparr>ReadOK := ReadOK st + 1\<rparr>)
               | ErrNoKey \<Rightarrow> (None, st\<lparr>ReadNoKey := ReadNoKey st + 1\<rparr>)
               | ErrReadQuorumNotMet \<Rightarrow> (None, st\<lparr>ReadQuorumRetry := ReadQuorumRetry st + 1\<rparr>)
               | _ \<Rightarrow> (Some (ReaderUnexpected softErr), st\<lparr>ReadErr := ReadErr st + 1\<rparr>)), w'))"

datatype WriterNext = NextWrite | RetryWrite | WriterStops DemoError

text \<open>
  One round of the inner loop of a writer: a put of \<open>value\<close> at \<open>coordinator\<close> with a context derived
  from \<open>ctx\<close>, and the refresh at \<open>refresher\<close> after a failure. The new context of the writer for
  the key is part of the result.
\<close>

definition writerRound :: "'w putHandler \<Rightarrow> 'w getHandler \<Rightarrow> u64 \<Rightarrow> string \<Rightarrow> string \<Rightarrow> string \<Rightarrow> string \<Rightarrow> string \<Rightarrow> Context \<Rightarrow> PBSDemoStats
    \<Rightarrow> 'w \<Rightarrow> (WriterNext \<times> Context \<times> PBSDemoStats) \<times> 'w" where
  "writerRound put get now coordinator refresher key label value ctx st w =
     (let nextCtx = UpdateCtx now label value (CopyCtx ctx);
          ((putErr, committedCtx), w) = demoPut put coordinator key value nextCtx w
      in case putErr of
           OK \<Rightarrow> ((NextWrite, committedCtx, st\<lparr>WriteOK := WriteOK st + 1\<rparr>), w)
         | ErrVersion \<Rightarrow>
             let st = st\<lparr>WriteErrVersion := WriteErrVersion st + 1, ReadAttemptTotal := ReadAttemptTotal st + 1\<rparr>;
                 (latest, w) = demoGetLatestContext get refresher key w
             in (case latest of
                   Inl e \<Rightarrow> (WriterStops e, ctx, st\<lparr>RefreshErr := RefreshErr st + 1\<rparr>)
                 | Inr None \<Rightarrow> (RetryWrite, ctx, st\<lparr>RefreshErr := RefreshErr st + 1\<rparr>)
                 | Inr (Some latestCtx) \<Rightarrow> (RetryWrite, latestCtx, st\<lparr>RefreshOK := RefreshOK st + 1\<rparr>), w)
         | _ \<Rightarrow>
             if putErr = ErrWriteQuorumNotMet \<or> putErr = ErrNoKey then
               let st = (if putErr = ErrWriteQuorumNotMet then st\<lparr>WriteQuorumRetry := WriteQuorumRetry st + 1\<rparr>
                         else st\<lparr>WriteNoKeyRetry := WriteNoKeyRetry st + 1\<rparr>);
                   st = st\<lparr>ReadAttemptTotal := ReadAttemptTotal st + 1\<rparr>;
                   (latest, w) = demoGetLatestContext get refresher key w
               in (case latest of
                     Inl e \<Rightarrow> (WriterStops e, ctx, st\<lparr>RefreshErr := RefreshErr st + 1\<rparr>)
                   | Inr None \<Rightarrow> (RetryWrite, ctx, st)
                   | Inr (Some latestCtx) \<Rightarrow> (RetryWrite, latestCtx, st\<lparr>RefreshOK := RefreshOK st + 1\<rparr>), w)
             else ((WriterStops (WriterPutFailed putErr), ctx, st\<lparr>WriteOtherErr := WriteOtherErr st + 1\<rparr>), w))"

text \<open>An iteration of some worker; writers keep a context for every key.\<close>

datatype WorkerEvent =
    ReaderEvent string string
  | WriterEvent nat u64 string string string string string

record 'w Workload =
  wlStats :: PBSDemoStats
  wlCtx :: "nat \<times> string \<Rightarrow> Context"
  wlErrors :: "DemoError list"
  wlWorld :: 'w

definition reportFatal :: "DemoError option \<Rightarrow> DemoError list \<Rightarrow> DemoError list" where
  "reportFatal e errs = (case e of None \<Rightarrow> errs | Some x \<Rightarrow> if errs = [] then [x] else errs)"

fun workerEvent :: "'w putHandler \<Rightarrow> 'w getHandler \<Rightarrow> WorkerEvent \<Rightarrow> 'w Workload \<Rightarrow> 'w Workload" where
  "workerEvent put get (ReaderEvent coordinator key) s =
     (let ((e, st), w) = readerStep get coordinator key (wlStats s) (wlWorld s)
      in s\<lparr>wlStats := st, wlErrors := reportFatal e (wlErrors s), wlWorld := w\<rparr>)"
| "workerEvent put get (WriterEvent i now coordinator refresher key label value) s =
     (let ((next, ctx, st), w) = writerRound put get now coordinator refresher key label value (wlCtx s (i, key)) (wlStats s) (wlWorld s)
      in s\<lparr>wlStats := st, wlCtx := (wlCtx s)((i, key) := ctx),
           wlErrors := reportFatal (case next of WriterStops e \<Rightarrow> Some e | _ \<Rightarrow> None) (wlErrors s), wlWorld := w\<rparr>)"

text \<open>The end of \<open>runPBSDemoScenario\<close>: the reported error, or the counters.\<close>

definition workloadResult :: "'w Workload \<Rightarrow> DemoError + PBSDemoStats" where
  "workloadResult s = (case wlErrors s of e # _ \<Rightarrow> Inl e | [] \<Rightarrow> Inr (wlStats s))"

subsection \<open>Scenarios of an experiment\<close>

definition failureApplies :: "PBSDemoScenario \<Rightarrow> string list \<Rightarrow> bool" where
  "failureApplies scenario failureSequence \<longleftrightarrow> FailureMode scenario = ''single_dead_replica'' \<and> length failureSequence > 0"

definition legacyAlwaysDead :: "PBSDemoOptions \<Rightarrow> PBSDemoScenario \<Rightarrow> string list \<Rightarrow> bool" where
  "legacyAlwaysDead opts scenario failureSequence \<longleftrightarrow> failureApplies scenario failureSequence \<and> FailureStartAfter opts = 0
     \<and> FailureDownDuration opts = 0 \<and> FailureUpDuration opts = 0 \<and> FailureRecoverAfter opts = 0"

text \<open>The failure of the first victim for the whole run, and the links that the end of the scenario restores.\<close>

definition legacyFailure :: "FailureEnv \<Rightarrow> string list \<Rightarrow> string list \<Rightarrow> DemoWorld \<Rightarrow> panic + DemoWorld" where
  "legacyFailure env ids failureSequence w =
     (case map_of (demoServers w) (hd failureSequence) of
        None \<Rightarrow> Inl NilDereference
      | Some _ \<Rightarrow> Inr (setVictimIsolated ids (hd failureSequence) True
                   (markAll env (hd failureSequence) Dead (pauseGossipOf (hd failureSequence) True w))))"

definition scenarioCleanup :: "string list \<Rightarrow> string list \<Rightarrow> DemoWorld \<Rightarrow> DemoWorld" where
  "scenarioCleanup ids failureSequence w =
     (if length failureSequence > 0 then fold (\<lambda>v. setVictimIsolated ids v False) (uniqueStringIDs failureSequence) w else w)"

definition readAttempts :: "PBSDemoStats \<Rightarrow> int" where
  "readAttempts stats =
     (if ReadAttemptTotal stats \<le> 0 then ReadOK stats + ReadNoKey stats + ReadQuorumRetry stats + ReadErr stats
      else ReadAttemptTotal stats)"

definition scenarioSeries :: "PBSDemoScenario \<Rightarrow> PBSCollector \<Rightarrow> PBSDemoStats \<Rightarrow> CollectorSeries" where
  "scenarioSeries scenario c stats =
     \<lparr>csConfig = \<lparr>serName = scenarioName scenario, serLabel = scenarioLabel scenario, serKind = ''observe'',
        serReadRepair = EnableReadRepair scenario, serAntiEntropy = EnableAntiEntropy scenario,
        serHintedHandoff = EnableHintedHandoff scenario, serFailureMode = FailureMode scenario,
        serNotes = ''Observed PBS curve from the corresponding demo scenario.''\<rparr>,
      csCollector = c, csReadAttempts = readAttempts stats\<rparr>"

text \<open>
  The loop over the scenarios: the collector of the first, the series and the counters by name.
  An error carries the name of its scenario.
\<close>

fun runScenarios :: "(PBSDemoScenario \<Rightarrow> DemoError + PBSCollector \<times> PBSDemoStats) \<Rightarrow> PBSDemoScenario list \<Rightarrow> PBSCollector option
    \<Rightarrow> CollectorSeries list \<Rightarrow> (string, PBSDemoStats) gomap
    \<Rightarrow> string \<times> DemoError + PBSCollector option \<times> CollectorSeries list \<times> (string, PBSDemoStats) gomap" where
  "runScenarios run [] baseline series statsBy = Inr (baseline, series, statsBy)"
| "runScenarios run (scenario # rest) baseline series statsBy =
     (case run scenario of
        Inl e \<Rightarrow> Inl (scenarioName scenario, e)
      | Inr (c, stats) \<Rightarrow>
          runScenarios run rest (case baseline of None \<Rightarrow> Some c | Some b \<Rightarrow> Some b)
            (series @ [scenarioSeries scenario c stats]) (gm_put (scenarioName scenario) stats statsBy))"

definition statsRow :: "string \<Rightarrow> PBSDemoStats \<Rightarrow> string list" where
  "statsRow name s = name # map Itoa [WriteOK s, WriteErrVersion s, WriteQuorumRetry s, WriteNoKeyRetry s, WriteOtherErr s, ReadOK s,
     ReadNoKey s, ReadQuorumRetry s, ReadErr s, ReadAttemptTotal s, RefreshOK s, RefreshErr s]"

text \<open>The rows that \<open>writePBSDemoStatsCSV\<close> writes.\<close>

definition statsRows :: "(string, PBSDemoStats) gomap \<Rightarrow> string list list" where
  "statsRows statsBy =
     [''scenario'', ''write_ok'', ''write_err_version'', ''write_quorum_retry'', ''write_no_key_retry'', ''write_other_err'', ''read_ok'',
      ''read_no_key'', ''read_quorum_retry'', ''read_err'', ''read_attempt_total'', ''refresh_ok'', ''refresh_err''] #
     List.map_filter (\<lambda>sc. map_option (statsRow (scenarioName sc)) (map_of statsBy (scenarioName sc))) DefaultPBSDemoScenarios"

subsection \<open>Node names\<close>

lemma demoNodeIDs_ok:
  "length (demoNodeIDs n) = nat n" "distinct (demoNodeIDs n)" "names_ok (demoNodeIDs n)"
proof -
  have "inj_on (\<lambda>i. ServerName GRP0 (int i)) A" for A
    by (rule inj_onI) (simp add: ServerName_def Itoa_def decimal_inj)
  then show "length (demoNodeIDs n) = nat n" "distinct (demoNodeIDs n)"
    by (simp_all add: demoNodeIDs_def distinct_map)
  show "names_ok (demoNodeIDs n)"
    by (auto simp: names_ok_def demoNodeIDs_def ServerName_def Itoa_def GRP0_def decimal_chars)
qed

subsection \<open>The network of the cluster\<close>

text \<open>Every end of \<open>es\<close> is made, connected and enabled.\<close>

definition endsMade :: "(string \<times> string) set \<Rightarrow> Network \<Rightarrow> bool" where
  "endsMade es net \<longleftrightarrow> netEnds net = (\<lambda>(f, t). endName f t) ` es
     \<and> (\<forall>(f, t) \<in> es. endEnabled net (endName f t) \<and> connectedTo net (endName f t) = Some t)"

lemma endsMade_step:
  assumes "endsMade es net" "(f, t) \<notin> es" "\<forall>(f', t') \<in> insert (f, t) es. CHR ''>'' \<notin> set f'"
  shows "\<exists>net'. MakeEnd (endName f t) net = Inr net'
    \<and> endsMade (insert (f, t) es) (Enable (endName f t) True (Connect (endName f t) t net'))"
proof -
  have new: "endName f t \<noteq> endName f' t'" if "(f', t') \<in> es" for f' t'
    using that assms(2,3) endName_inj[of f f' t t'] by auto
  then have "endName f t \<notin> netEnds net" using assms(1) by (auto simp: endsMade_def)
  then show ?thesis
    using assms(1) new by (fastforce simp: MakeEnd_def endsMade_def Enable_def Connect_def endEnabled_def connectedTo_def)
qed

lemma connectEnds_made:
  assumes "endsMade es net" "distinct ts" "\<forall>t \<in> set ts. (f, t) \<notin> es" "CHR ''>'' \<notin> set f" "\<forall>(f', t') \<in> es. CHR ''>'' \<notin> set f'"
  shows "\<exists>net'. connectEnds f ts net = Inr net' \<and> endsMade (es \<union> {f} \<times> set ts) net'"
  using assms
proof (induction ts arbitrary: es net)
  case (Cons t ts)
  obtain net1 where n: "MakeEnd (endName f t) net = Inr net1"
      "endsMade (insert (f, t) es) (Enable (endName f t) True (Connect (endName f t) t net1))"
    using endsMade_step[OF Cons.prems(1), of f t] Cons.prems(3-5) by auto
  obtain net' where "connectEnds f ts (Enable (endName f t) True (Connect (endName f t) t net1)) = Inr net'"
      "endsMade (insert (f, t) es \<union> {f} \<times> set ts) net'"
    using Cons.IH[OF n(2)] Cons.prems by auto
  moreover have "insert (f, t) es \<union> {f} \<times> set ts = es \<union> {f} \<times> set (t # ts)" by auto
  ultimately show ?case using n(1) by auto
qed simp

lemma connectAll_made:
  assumes "endsMade (A \<times> set ids) net" "distinct ids" "distinct fs" "set fs \<inter> A = {}" "\<forall>f \<in> A \<union> set fs. CHR ''>'' \<notin> set f"
  shows "\<exists>net'. connectAll ids fs net = Inr net' \<and> endsMade ((A \<union> set fs) \<times> set ids) net'"
  using assms
proof (induction fs arbitrary: A net)
  case (Cons f fs)
  obtain net1 where n: "connectEnds f ids net = Inr net1" "endsMade (A \<times> set ids \<union> {f} \<times> set ids) net1"
    using connectEnds_made[OF Cons.prems(1,2), of f] Cons.prems(4,5) by auto
  have "A \<times> set ids \<union> {f} \<times> set ids = insert f A \<times> set ids" by auto
  then obtain net' where "connectAll ids fs net1 = Inr net'" "endsMade ((insert f A \<union> set fs) \<times> set ids) net'"
    using Cons.IH[of "insert f A" net1] Cons.prems n(2) by auto
  then show ?case using n(1) by auto
qed simp

lemma members_fold_addMember:
  "map_of (members (fold (addMember now) ns kv)) m = (if m \<in> set ns then Some (aliveMember m) else map_of (members kv) m)"
  by (induction ns arbitrary: kv) (auto simp: addMember_def map_of_gm_put)

lemma makeDemoServer_ok:
  assumes "ring_located r"
  shows "server_ok (makeDemoServer r rq wq ids shared now i)" "srvID (makeDemoServer r rq wq ids shared now i) = i"
    "m \<in> set ids \<Longrightarrow> isAlive (makeDemoServer r rq wq ids shared now i) m"
proof -
  have "isAlive (MakeKVServer i r wq rq ids now) m" if "m \<in> set ids"
    using that by (auto simp: MakeKVServer_def Let_def isAlive_def members_fold_addMember addMember_def map_of_gm_put aliveMember_def)
  then show "server_ok (makeDemoServer r rq wq ids shared now i)" "srvID (makeDemoServer r rq wq ids shared now i) = i"
    "m \<in> set ids \<Longrightarrow> isAlive (makeDemoServer r rq wq ids shared now i) m"
    using server_ok_Make[OF assms, of i wq rq ids now]
    by (auto simp: makeDemoServer_def Let_def server_ok_def index_shape_def stored_ok_def indexed_def isAlive_def inBuckets_def)
qed

lemma addServers_links:
  "endEnabled (fold (\<lambda>(i, n). AddServer n i) xs net) e = endEnabled net e"
  "connectedTo (fold (\<lambda>(i, n). AddServer n i) xs net) e = connectedTo net e"
  by (induction xs arbitrary: net) (auto simp: AddServer_def endEnabled_def connectedTo_def)

lemma addServers_named:
  "distinct ids \<Longrightarrow> i < length ids \<Longrightarrow> serverNamed (fold (\<lambda>(i, n). AddServer n i) (List.enumerate k ids) net) (ids ! i) = Some (k + i)"
proof -
  have other: "t \<notin> set ids \<Longrightarrow> serverNamed (fold (\<lambda>(i, n). AddServer n i) (List.enumerate k ids) net) t = serverNamed net t" for t k net ids
    by (induction ids arbitrary: k net) (auto simp: AddServer_def serverNamed_def)
  show "distinct ids \<Longrightarrow> i < length ids \<Longrightarrow> ?thesis"
  proof (induction ids arbitrary: i k net)
    case (Cons x ids)
    show ?case
    proof (cases i)
      case 0
      moreover have "serverNamed (AddServer x k net) x = Some k" by (simp add: AddServer_def serverNamed_def)
      ultimately show ?thesis using other[of x ids "Suc k" "AddServer x k net"] Cons.prems by simp
    next
      case (Suc j)
      then show ?thesis using Cons.IH[of j "Suc k" "AddServer x k net"] Cons.prems by simp
    qed
  qed simp
qed

text \<open>What an experiment starts from.\<close>

definition cluster_ready :: "int \<Rightarrow> DemoCluster \<Rightarrow> bool" where
  "cluster_ready nReplicas c \<longleftrightarrow> ready_ring (dcRing c) \<and> neighborTarget (dcRing c) = nReplicas \<and> nodeIDs (dcRing c) = dcNodes c
     \<and> distinct (dcNodes c) \<and> names_ok (dcNodes c)
     \<and> (\<forall>f \<in> set (dcNodes c). \<forall>i < length (dcNodes c). linked (dcNet c) (endName f (dcNodes c ! i)) (dcNodes c ! i) i)
     \<and> map fst (dcServers c) = dcNodes c
     \<and> (\<forall>(n, kv) \<in> set (dcServers c). server_ok kv \<and> srvID kv = n \<and> (\<forall>m \<in> set (dcNodes c). isAlive kv m))"

lemma demo_ring_ready:
  assumes "0 < numNodes" "numNodes \<le> 512" "0 < nReplicas" "nReplicas \<le> numNodes"
  shows "\<exists>r. MakeConsistentHashRing (nat nReplicas) pbsDemoNumSectors numNodes (demoNodeIDs numNodes) = Inr r \<and> ready_ring r
    \<and> neighborTarget r = nReplicas \<and> nodeIDs r = demoNodeIDs numNodes"
proof -
  let ?ids = "demoNodeIDs numNodes"
  have "int (length ?ids) = numNodes" "?ids \<noteq> []" "'''' \<notin> set ?ids"
    using assms demoNodeIDs_ok[of numNodes] by (auto simp: names_ok_def simp flip: length_0_conv)
  then obtain r where r: "MakeConsistentHashRing (nat nReplicas) pbsDemoNumSectors numNodes ?ids = Inr r" "wf_ring r" "all_own r"
      "numReplicas r = nat nReplicas" "numBackups r = 0" "nodeIDs r = ?ids"
    using MakeConsistentHashRing_ok[of ?ids pbsDemoNumSectors "nat nReplicas"] assms(2) demoNodeIDs_ok(1,2)[of numNodes] nat_mono[OF assms(2)]
    by (auto simp: pbsDemoNumSectors_def)
  moreover have "numServers r = numNodes" using r(2,6) assms demoNodeIDs_ok(1)[of numNodes] by (simp add: wf_ring_def)
  ultimately show ?thesis using assms by (auto simp: ready_ring_def neighborTarget_def)
qed

lemma makePBSDemoCluster_ready:
  assumes "0 < numNodes" "numNodes \<le> 512" "0 < nReplicas" "nReplicas \<le> numNodes"
  shows "\<exists>c. makePBSDemoCluster numNodes nReplicas rq wq unrel longR shared now = Inr c \<and> cluster_ready nReplicas c"
proof -
  let ?ids = "demoNodeIDs numNodes"
  note ids = demoNodeIDs_ok[of numNodes]
  obtain r where r: "MakeConsistentHashRing (nat nReplicas) pbsDemoNumSectors numNodes ?ids = Inr r" "ready_ring r"
      "neighborTarget r = nReplicas" "nodeIDs r = ?ids"
    using demo_ring_ready[OF assms] by blast
  let ?net = "if longR then LongReordering True (if unrel then Reliable False MakeNetwork else MakeNetwork)
    else if unrel then Reliable False MakeNetwork else MakeNetwork"
  have "endsMade ({} \<times> set ?ids) ?net" by (auto simp: endsMade_def LongReordering_def Reliable_def MakeNetwork_def)
  then obtain net where net: "connectAll ?ids ?ids ?net = Inr net" "endsMade (set ?ids \<times> set ?ids) net"
    using connectAll_made[of "{}" ?ids ?net ?ids] ids by (auto simp: names_ok_def)
  let ?c = "\<lparr>dcRing = r, dcNodes = ?ids, dcServers = map (\<lambda>nodeID. (nodeID, makeDemoServer r rq wq ?ids shared now nodeID)) ?ids,
    dcNet = fold (\<lambda>(i, nodeID). AddServer nodeID i) (List.enumerate 0 ?ids) net\<rparr>"
  have "makePBSDemoCluster numNodes nReplicas rq wq unrel longR shared now = Inr ?c"
    using r(1) net(1) by (simp add: makePBSDemoCluster_def Let_def)
  moreover have "ring_located r" using r(2) by (simp add: ready_ring_def wf_ring_def ring_located_def)
  moreover have "linked (dcNet ?c) (endName f (?ids ! i)) (?ids ! i) i" if "f \<in> set ?ids" "i < length ?ids" for f i
    using net(2) that addServers_named[OF ids(2) that(2), of 0 net] by (auto simp: linked_def endsMade_def addServers_links)
  ultimately show ?thesis
    using r ids makeDemoServer_ok[of r] by (intro exI[of _ ?c]) (auto simp: cluster_ready_def comp_def)
qed

subsection \<open>Counters\<close>

definition refreshes :: "PBSDemoStats \<Rightarrow> int" where
  "refreshes st = WriteErrVersion st + WriteQuorumRetry st + WriteNoKeyRetry st"

text \<open>Every read is counted by its outcome, and every failed put by the refresh that follows it.\<close>

definition balanced :: "PBSDemoStats \<Rightarrow> bool" where
  "balanced st \<longleftrightarrow> ReadAttemptTotal st = ReadOK st + ReadNoKey st + ReadQuorumRetry st + ReadErr st + refreshes st
     \<and> RefreshOK st + RefreshErr st \<le> refreshes st
     \<and> 0 \<le> ReadOK st \<and> 0 \<le> ReadNoKey st \<and> 0 \<le> ReadQuorumRetry st \<and> 0 \<le> ReadErr st
     \<and> 0 \<le> WriteErrVersion st \<and> 0 \<le> WriteQuorumRetry st \<and> 0 \<le> WriteNoKeyRetry st \<and> 0 \<le> RefreshOK st \<and> 0 \<le> RefreshErr st"

lemma readerStep_balanced:
  "balanced st \<Longrightarrow> readerStep get c key st w = ((e, st'), w') \<Longrightarrow> balanced st' \<and> ReadAttemptTotal st' = ReadAttemptTotal st + 1"
  by (auto simp: readerStep_def demoGet_def Let_def balanced_def refreshes_def split: prod.splits if_splits Err.splits option.splits)

lemma readerStep_world: "readerStep get c key st w = ((e, st'), w') \<Longrightarrow> w' = snd (get c \<lparr>getKey = key\<rparr> w)"
  by (auto simp: readerStep_def demoGet_def Let_def split: prod.splits if_splits)

lemma writerRound_cases:
  assumes "writerRound put get now c r key label value ctx st w = ((nxt, ctx', st'), w')"
  shows "(\<exists>a x. put c a w = (x, w') \<and> ReadAttemptTotal st' = ReadAttemptTotal st)
    \<or> (\<exists>a x w1. put c a w = (x, w1) \<and> w' = snd (get r \<lparr>getKey = key\<rparr> w1) \<and> ReadAttemptTotal st' = ReadAttemptTotal st + 1)"
proof -
  obtain e cc w1 where p: "demoPut put c key value (UpdateCtx now label value (CopyCtx ctx)) w = ((e, cc), w1)" by (metis prod.exhaust)
  obtain l w2 where l: "demoGetLatestContext get r key w1 = (l, w2)" by fastforce
  have "\<exists>a x. put c a w = (x, w1)" using p by (auto simp: demoPut_def split: prod.splits)
  moreover have "w2 = snd (get r \<lparr>getKey = key\<rparr> w1)" using l by (auto simp: demoGetLatestContext_def Let_def split: prod.splits)
  moreover have "(w' = w1 \<and> ReadAttemptTotal st' = ReadAttemptTotal st) \<or> (w' = w2 \<and> ReadAttemptTotal st' = ReadAttemptTotal st + 1)"
    using assms by (cases e; cases l) (auto simp: writerRound_def p l Let_def split: option.splits)
  ultimately show ?thesis by blast
qed

lemma refresh_balanced:
  assumes "balanced st" "q \<in> {st\<lparr>WriteErrVersion := WriteErrVersion st + 1\<rparr>, st\<lparr>WriteQuorumRetry := WriteQuorumRetry st + 1\<rparr>,
    st\<lparr>WriteNoKeyRetry := WriteNoKeyRetry st + 1\<rparr>}"
  shows "balanced (q\<lparr>ReadAttemptTotal := ReadAttemptTotal st + 1\<rparr>)"
    "balanced (q\<lparr>ReadAttemptTotal := ReadAttemptTotal st + 1, RefreshOK := RefreshOK st + 1\<rparr>)"
    "balanced (q\<lparr>ReadAttemptTotal := ReadAttemptTotal st + 1, RefreshErr := RefreshErr st + 1\<rparr>)"
  using assms by (auto simp: balanced_def refreshes_def)

lemma writerRound_balanced:
  assumes "balanced st" "writerRound put get now c r key label value ctx st w = ((nxt, ctx', st'), w')"
  shows "balanced st'"
proof -
  obtain e cc w1 where p: "demoPut put c key value (UpdateCtx now label value (CopyCtx ctx)) w = ((e, cc), w1)" by (metis prod.exhaust)
  obtain l w2 where l: "demoGetLatestContext get r key w1 = (l, w2)" by fastforce
  note R = refresh_balanced[OF assms(1)]
  have w: "balanced (st\<lparr>WriteOK := WriteOK st + 1\<rparr>)" "balanced (st\<lparr>WriteOtherErr := WriteOtherErr st + 1\<rparr>)"
    using assms(1) by (simp_all add: balanced_def refreshes_def)
  have "case e of ErrVersion \<Rightarrow> ?thesis | ErrWriteQuorumNotMet \<Rightarrow> ?thesis | ErrNoKey \<Rightarrow> ?thesis | _ \<Rightarrow> True"
    using assms(2) R[of "st\<lparr>WriteErrVersion := WriteErrVersion st + 1\<rparr>"] R[of "st\<lparr>WriteQuorumRetry := WriteQuorumRetry st + 1\<rparr>"]
      R[of "st\<lparr>WriteNoKeyRetry := WriteNoKeyRetry st + 1\<rparr>"]
    by (cases e; simp add: writerRound_def p l Let_def split: sum.splits option.splits; blast?)
  then show ?thesis using assms(2) w by (cases e) (auto simp: writerRound_def p l Let_def)
qed

text \<open>\<open>gets\<close> reads off the world how many reads it has served.\<close>

definition counts_gets :: "('w \<Rightarrow> int) \<Rightarrow> 'w putHandler \<Rightarrow> 'w getHandler \<Rightarrow> bool" where
  "counts_gets gets put get \<longleftrightarrow> (\<forall>c a w. gets (snd (get c a w)) = gets w + 1) \<and> (\<forall>c a w. gets (snd (put c a w)) = gets w)"

lemma workerEvent_balanced:
  assumes cg: "counts_gets gets put get" and bal: "balanced (wlStats s)"
  shows "balanced (wlStats (workerEvent put get ev s))
    \<and> ReadAttemptTotal (wlStats (workerEvent put get ev s)) - gets (wlWorld (workerEvent put get ev s)) = ReadAttemptTotal (wlStats s) - gets (wlWorld s)"
proof (cases ev)
  case (ReaderEvent c key)
  obtain e st w where r: "readerStep get c key (wlStats s) (wlWorld s) = ((e, st), w)" by (metis prod.exhaust)
  then show ?thesis using ReaderEvent readerStep_balanced[OF bal r] readerStep_world[OF r] cg by (simp add: counts_gets_def)
next
  case (WriterEvent i now c r key label val)
  obtain nxt ctx st w where e: "writerRound put get now c r key label val (wlCtx s (i, key)) (wlStats s) (wlWorld s) = ((nxt, ctx, st), w)"
    by (metis prod.exhaust)
  have "ReadAttemptTotal st - gets w = ReadAttemptTotal (wlStats s) - gets (wlWorld s)"
  proof -
    have "gets w1 = gets (wlWorld s)" if "put c a (wlWorld s) = (x, w1)" for a x w1
      using that cg unfolding counts_gets_def by (metis snd_conv)
    then show ?thesis using writerRound_cases[OF e] cg unfolding counts_gets_def by fastforce
  qed
  then show ?thesis using WriterEvent e writerRound_balanced[OF bal e] by simp
qed

lemma workload_balanced:
  assumes "counts_gets gets put get"
  shows "balanced (wlStats s) \<Longrightarrow> balanced (wlStats (fold (workerEvent put get) evs s))
    \<and> ReadAttemptTotal (wlStats (fold (workerEvent put get) evs s)) - gets (wlWorld (fold (workerEvent put get) evs s))
      = ReadAttemptTotal (wlStats s) - gets (wlWorld s)"
proof (induction evs arbitrary: s)
  case (Cons ev evs)
  then show ?case using workerEvent_balanced[OF assms Cons.prems, of ev] Cons.IH[of "workerEvent put get ev s"] by simp
qed simp

subsection \<open>Initial write\<close>

text \<open>The replies to the attempts of \<open>writeInitialValue\<close> as if none of them ended it.\<close>

fun attemptLog :: "'w putHandler \<Rightarrow> (nat \<Rightarrow> u64) \<Rightarrow> string \<Rightarrow> string \<Rightarrow> nat \<Rightarrow> nat \<Rightarrow> 'w \<Rightarrow> (Err \<times> Context) list" where
  "attemptLog put now c key 0 i w = []"
| "attemptLog put now c key (Suc n) i w =
     (let (r, w') = demoPut put c key ''initial-value'' (NewContext (now i)) w in r # attemptLog put now c key n (i + 1) w')"

definition retried :: "Err \<Rightarrow> bool" where
  "retried e \<longleftrightarrow> e = ErrWriteQuorumNotMet \<or> e = ErrNoKey \<or> e = ErrVersion"

lemma length_attemptLog [simp]: "length (attemptLog put now c key n i w) = n"
  by (induction n arbitrary: i w) (simp_all split: prod.splits)

lemma initialWriteLoop_outcome:
  "fst (initialWriteLoop put now c key n i w) =
     (case dropWhile (\<lambda>(j, e, ctx). retried e) (List.enumerate i (attemptLog put now c key n i w)) of
        [] \<Rightarrow> Inl (InitialWriteExhausted (i + n))
      | (j, e, ctx) # _ \<Rightarrow> if e = OK then Inr ctx else Inl (InitialWriteFailed j e))"
proof (induction n arbitrary: i w)
  case (Suc n)
  obtain e ctx w' where p: "demoPut put c key ''initial-value'' (NewContext (now i)) w = ((e, ctx), w')" by (metis prod.exhaust)
  show ?case using Suc[of "Suc i" w', unfolded add_Suc_shift] by (cases "retried e") (auto simp: p retried_def)
qed simp

subsection \<open>Accepted options\<close>

lemma validate_frame: "validatePBSDemoFailureOptions (opts\<lparr>Scenarios := x\<rparr>) = validatePBSDemoFailureOptions opts"
  by (simp add: validatePBSDemoFailureOptions_def)

lemma checkPBSDemoOptions_accepts:
  assumes "checkPBSDemoOptions opts = Inr o'"
  shows "Keys o' \<noteq> []" "0 < NumNodes o'" "0 < scNumReplicas (PlotConfig o')" "scNumReplicas (PlotConfig o') \<le> NumNodes o'"
    "0 < WorkloadDuration o'" "validatePBSDemoFailureOptions o' = None"
    "0 < scReadQuorum (PlotConfig o')" "scReadQuorum (PlotConfig o') \<le> scNumReplicas (PlotConfig o')"
    "0 < scWriteQuorum (PlotConfig o')" "scWriteQuorum (PlotConfig o') \<le> scNumReplicas (PlotConfig o')"
proof -
  define p where "p = defaultKeys (if OutputDir opts = '''' then opts\<lparr>OutputDir := ''.''\<rparr> else opts)"
  have keys: "Keys p \<noteq> []" by (simp add: p_def defaultKeys_def)
  have "validatePBSDemoFailureOptions p = None" "0 < WorkloadDuration p" "0 < NumNodes p"
    and o': "o' = (if Scenarios p = [] then p\<lparr>Scenarios := DefaultPBSDemoScenarios\<rparr> else p)"
    and c: "0 < scNumReplicas (PlotConfig p)" "scNumReplicas (PlotConfig p) \<le> NumNodes p" "0 < scReadQuorum (PlotConfig p)"
      "scReadQuorum (PlotConfig p) \<le> scNumReplicas (PlotConfig p)" "0 < scWriteQuorum (PlotConfig p)"
      "scWriteQuorum (PlotConfig p) \<le> scNumReplicas (PlotConfig p)"
    using assms unfolding checkPBSDemoOptions_def Let_def p_def[symmetric] by (simp_all split: option.splits if_splits)
  then show "Keys o' \<noteq> []" "0 < NumNodes o'" "0 < scNumReplicas (PlotConfig o')" "scNumReplicas (PlotConfig o') \<le> NumNodes o'"
      "0 < WorkloadDuration o'" "validatePBSDemoFailureOptions o' = None"
      "0 < scReadQuorum (PlotConfig o')" "scReadQuorum (PlotConfig o') \<le> scNumReplicas (PlotConfig o')"
      "0 < scWriteQuorum (PlotConfig o')" "scWriteQuorum (PlotConfig o') \<le> scNumReplicas (PlotConfig o')"
    using keys by (simp_all add: validate_frame)
qed

lemma count_phases_returns:
  assumes "validatePBSDemoFailureOptions opts = None" "minDuration \<le> FailureStartAfter opts" "0 \<le> WorkloadDuration opts"
    and "WorkloadDuration opts + FailureDownDuration opts + FailureUpDuration opts \<le> maxDuration"
  shows "\<exists>n. countPBSDemoScheduledFailurePhases opts = Some n"
proof -
  let ?d = "FailureDownDuration opts" and ?u = "FailureUpDuration opts"
  have "\<exists>n. phaseLoop (addDuration ?d ?u) (WorkloadDuration opts) (FailureStartAfter opts) 0 = Some n"
    if u: "0 < ?u" "FailureStartAfter opts < WorkloadDuration opts"
  proof -
    have d: "0 < ?d" using assms(1) u by (auto simp: validatePBSDemoFailureOptions_def split: if_splits)
    then have "addDuration ?d ?u = ?d + ?u" using assms(3,4) u by (intro addDuration_in_range) (auto simp: minDuration_def)
    then show ?thesis using phaseLoop_counts[of "?d + ?u" "WorkloadDuration opts" "FailureStartAfter opts" 0] d u assms(2,4) by auto
  qed
  then show ?thesis by (auto simp: countPBSDemoScheduledFailurePhases_def Let_def)
qed

lemma sequence_from_ring:
  assumes "ready_ring r" "0 < neighborTarget r" "FailureMode sc = ''single_dead_replica''"
  shows "\<exists>res. buildPBSFailureReplicaSequence k r n sc = Some (Inr res)
    \<and> (res = Inl TooFewReplicas \<longleftrightarrow> 0 < n \<and> neighborTarget r = 1)
    \<and> (\<forall>e. res = Inl e \<longrightarrow> e = TooFewReplicas)
    \<and> (\<forall>vs. res = Inr vs \<longrightarrow> set vs \<subseteq> set (nodeIDs r) \<and> length vs = nat n)"
proof -
  have p: "length (preferenceOf r k) = nat (neighborTarget r)" "set (preferenceOf r k) \<subseteq> set (nodeIDs r)" "distinct (preferenceOf r k)"
    using chr.pref_length[OF assms(1)] chr.pref_members[OF assms(1)] chr.pref_distinct[OF assms(1)] by auto
  show ?thesis
  proof (cases "0 < n \<and> 2 \<le> neighborTarget r")
    case True
    then have "2 \<le> length (preferenceOf r k)" using p(1) by linarith
    note c = cycleVictims_props(1,2)[OF p(3) this, of "nat n"]
    show ?thesis using True assms(3) c p GetPreferenceList_ready[OF assms(1), of k]
      by (auto simp: buildPBSFailureReplicaSequence_def)
  next
    case False
    then show ?thesis using assms(2,3) p GetPreferenceList_ready[OF assms(1), of k]
      by (auto simp: buildPBSFailureReplicaSequence_def)
  qed
qed

lemma demo_start:
  assumes "checkPBSDemoOptions opts = Inr o'" and "NumNodes o' \<le> 512" and "minDuration \<le> FailureStartAfter o'"
    and "WorkloadDuration o' + FailureDownDuration o' + FailureUpDuration o' \<le> maxDuration"
    and "FailureMode sc = ''single_dead_replica''"
  shows "\<exists>res c. failureSequenceFor o' scs sc = Some (Inr res)
    \<and> (\<forall>e. res = Inl e \<longrightarrow> e = TooFewReplicas \<and> scNumReplicas (PlotConfig o') = 1)
    \<and> (\<forall>vs. res = Inr vs \<longrightarrow> set vs \<subseteq> set (dcNodes c))
    \<and> makePBSDemoCluster (NumNodes o') (scNumReplicas (PlotConfig o')) (scReadQuorum (PlotConfig o')) (scWriteQuorum (PlotConfig o'))
        (UnreliableNetwork o') (LongReorderingNet o') shared now = Inr c
    \<and> cluster_ready (scNumReplicas (PlotConfig o')) c
    \<and> scReadQuorum (PlotConfig o') \<le> scNumReplicas (PlotConfig o') \<and> scWriteQuorum (PlotConfig o') \<le> scNumReplicas (PlotConfig o')"
proof -
  note a = checkPBSDemoOptions_accepts[OF assms(1)]
  obtain c where c: "makePBSDemoCluster (NumNodes o') (scNumReplicas (PlotConfig o')) (scReadQuorum (PlotConfig o')) (scWriteQuorum (PlotConfig o'))
        (UnreliableNetwork o') (LongReorderingNet o') shared now = Inr c" "cluster_ready (scNumReplicas (PlotConfig o')) c"
    using makePBSDemoCluster_ready[OF a(2) assms(2) a(3,4)] by blast
  have nodes: "dcNodes c = demoNodeIDs (NumNodes o')"
    using c(1) by (auto simp: makePBSDemoCluster_def Let_def split: sum.splits)
  obtain r where r: "makePBSDemoHashRing o' = Inr r" "ready_ring r" "neighborTarget r = scNumReplicas (PlotConfig o')"
      "nodeIDs r = demoNodeIDs (NumNodes o')"
    using demo_ring_ready[OF a(2) assms(2) a(3,4)] by (auto simp: makePBSDemoHashRing_def)
  obtain n where n: "countPBSDemoScheduledFailurePhases o' = Some n"
    using count_phases_returns[OF a(6) assms(3) _ assms(4)] a(5) by auto
  have pos: "0 < neighborTarget r" using a(3) r(3) by simp
  show ?thesis
  proof (cases "scenariosUseSingleDeadReplica scs")
    case True
    obtain res where "buildPBSFailureReplicaSequence (hd (Keys o')) r n sc = Some (Inr res)"
        "\<forall>e. res = Inl e \<longrightarrow> e = TooFewReplicas" "res = Inl TooFewReplicas \<longleftrightarrow> 0 < n \<and> neighborTarget r = 1"
        "\<forall>vs. res = Inr vs \<longrightarrow> set vs \<subseteq> set (nodeIDs r) \<and> length vs = nat n"
      using sequence_from_ring[OF r(2) pos assms(5), of "hd (Keys o')" n] by blast
    then show ?thesis
      using True c n r a(1,8,10) nodes by (intro exI[of _ res] exI[of _ c]) (auto simp: failureSequenceFor_def)
  next
    case False
    then show ?thesis using c a(8,10) by (intro exI[of _ "Inr []"] exI[of _ c]) (auto simp: failureSequenceFor_def)
  qed
qed


lemma default_options_accepted: "checkPBSDemoOptions DefaultPBSDemoOptions = Inr DefaultPBSDemoOptions"
  by (simp add: checkPBSDemoOptions_def DefaultPBSDemoOptions_def defaultKeys_def Let_def validatePBSDemoFailureOptions_def
      DefaultPBSDemoScenarios_def)


subsection \<open>Coordinators and pauses\<close>

lemma liveCandidates:
  "cands \<noteq> [] \<Longrightarrow> pbsLiveCoordinatorCandidates cands \<noteq> [] \<and> set (pbsLiveCoordinatorCandidates cands) \<subseteq> set cands
    \<and> ((\<exists>c \<in> set cands. \<not> isDead (hd cands) (srvID c)) \<longrightarrow> (\<forall>c \<in> set (pbsLiveCoordinatorCandidates cands). \<not> isDead (hd cands) (srvID c)))"
  by (cases cands) (auto simp: pbsLiveCoordinatorCandidates_def Let_def filter_empty_conv)

text \<open>
  a coordinator is chosen among the candidates of a key, without a panic when there is one; a
  candidate that the first candidate regards as dead is chosen only when it regards all of them as
  dead.
\<close>

theorem coordinator_pick_live:
  assumes "cands \<noteq> []"
  shows "\<exists>s rng' counts'. pickCoordinator cands rng counts = Inr (s, rng', counts') \<and> s \<in> set cands
    \<and> (isDead (hd cands) (srvID s) \<longrightarrow> (\<forall>c \<in> set cands. isDead (hd cands) (srvID c)))
    \<and> gm_get 0 counts' (srvID s) = gm_get 0 counts (srvID s) + 1"
proof -
  let ?l = "pbsLiveCoordinatorCandidates cands"
  note l = liveCandidates[OF assms]
  obtain s rng' where s: "(if length ?l = 1 then (hd ?l, rng) else case rng_Intn (length ?l) rng of (i, rng) \<Rightarrow> (?l ! i, rng)) = (s, rng')"
    by fastforce
  have "s \<in> set ?l"
    using s l rng_Intn_less[of "length ?l" rng] by (auto split: if_splits prod.splits)
  moreover have "pickCoordinator cands rng counts = Inr (s, rng', gm_put (srvID s) (gm_get 0 counts (srvID s) + 1) counts)"
    using s l by (simp add: pickCoordinator_def Let_def split: prod.splits)
  ultimately show ?thesis using l by (auto simp: gm_get_put)
qed

theorem coordinator_pick_live_witness:
  "\<exists>s rng' counts'. pickCoordinator [sampleServer ''a'', sampleServer ''b''] \<lparr>draws = \<lambda>i. 7, rngPos = 0\<rparr> [] = Inr (s, rng', counts')
     \<and> s \<in> {sampleServer ''a'', sampleServer ''b''}"
  using coordinator_pick_live[of "[sampleServer ''a'', sampleServer ''b'']" "\<lparr>draws = \<lambda>i. 7, rngPos = 0\<rparr>" "[]"] by auto

text \<open>
  the initial write of a key makes at most fifty attempts and its outcome is decided by the first
  reply that is not retried: its context, or the error with the number of the attempt; when all
  fifty are retried it gives up.
\<close>

theorem initial_write_outcome:
  shows "fst (writeInitialValue put now c key w) =
     (case dropWhile (\<lambda>(j, e, ctx). e = ErrWriteQuorumNotMet \<or> e = ErrNoKey \<or> e = ErrVersion)
             (List.enumerate 0 (attemptLog put now c key 50 0 w)) of
        [] \<Rightarrow> Inl (InitialWriteExhausted 50)
      | (j, e, ctx) # _ \<Rightarrow> if e = OK then Inr ctx else Inl (InitialWriteFailed j e))"
  unfolding writeInitialValue_def initialAttempts_def initialWriteLoop_outcome[unfolded retried_def] add_0 by (rule refl)

lemma sint_drop_bit_nonneg: "0 \<le> sint (drop_bit 1 (h :: u64))"
proof -
  have "uint h < 2 ^ 64" using uint_lt2p[of h] by simp
  moreover have "uint (drop_bit 1 h) = uint h div 2" by (simp add: drop_bit_eq_div uint_div)
  ultimately have "uint (drop_bit 1 h) < 2 ^ 63" by simp
  moreover have "- (2 ^ 63) \<le> uint (drop_bit 1 h)" by (rule order_trans[OF _ uint_ge_0]) simp
  ultimately have "signed_take_bit 63 (uint (drop_bit 1 h)) = uint (drop_bit 1 h)" by (intro signed_take_bit_int_eq_self) simp_all
  then have "sint (drop_bit 1 h) = uint (drop_bit 1 h)" by (simp add: sint_uint)
  then show ?thesis by simp
qed

lemma workerSeed_nonneg: "0 \<le> workerSeed scenario role i"
  unfolding workerSeed_def Let_def by (rule sint_drop_bit_nonneg)

lemma map_filter_same: "\<forall>x \<in> set xs. f x = g x \<Longrightarrow> List.map_filter f xs = List.map_filter g xs"
  by (induction xs) (auto split: option.splits)

lemma jitter_scaled:
  fixes u r :: rat
  assumes "0 \<le> u" "u \<le> 1" "0 < base" "0 \<le> r" "r \<le> 1"
  defines "x \<equiv> of_int base * (1 + r * (2 * u - 1))"
  shows "0 \<le> goTruncate x" "rat_of_int (goTruncate x) \<le> of_int base * (1 + r)" "of_int base * (1 - r) < rat_of_int (goTruncate x) + 1"
proof -
  have "0 \<le> r * u" using assms(1,4) by simp
  moreover have "r * u \<le> r * 1" using assms(2,4) by (rule mult_left_mono)
  ultimately have s: "1 - r \<le> 1 + r * (2 * u - 1)" "1 + r * (2 * u - 1) \<le> 1 + r" by (simp_all add: algebra_simps)
  have b: "0 < rat_of_int base" using assms(3) by simp
  have x: "of_int base * (1 - r) \<le> x" "x \<le> of_int base * (1 + r)"
    unfolding x_def using s b by (auto intro: mult_left_mono)
  moreover have "0 \<le> rat_of_int base * (1 - r)" using b assms(5) by simp
  ultimately have t: "goTruncate x = \<lfloor>x\<rfloor>" "0 \<le> x" by (auto simp: goTruncate_def)
  have fl: "rat_of_int \<lfloor>x\<rfloor> \<le> x" "x < rat_of_int \<lfloor>x\<rfloor> + 1" by linarith+
  show "0 \<le> goTruncate x" using t by simp
  show "rat_of_int (goTruncate x) \<le> of_int base * (1 + r)" "of_int base * (1 - r) < rat_of_int (goTruncate x) + 1"
    unfolding t(1) using fl x by linarith+
qed

text \<open>
  seeds of workers are not negative, and a jittered pause stays within its ratio of the base
  duration, never more than twice of it.
\<close>

theorem worker_pause_bounds:
  assumes "0 \<le> u" and "u \<le> 1" and "0 < base"
  shows "0 \<le> workerSeed scenario role i \<and> 0 \<le> jitteredSleep base ratio u \<and> jitteredSleep base ratio u \<le> 2 * base
    \<and> (0 \<le> ratio \<longrightarrow> rat_of_int (jitteredSleep base ratio u) \<le> of_int base * (1 + ratio))
    \<and> (0 \<le> ratio \<and> ratio \<le> 1 \<longrightarrow> of_int base * (1 - ratio) < rat_of_int (jitteredSleep base ratio u) + 1)"
proof (cases "0 < ratio")
  case True
  define r where "r = (if 1 < ratio then 1 else ratio)"
  have r: "0 \<le> r" "r \<le> 1" "r \<le> ratio" using True by (auto simp: r_def)
  let ?d = "goTruncate (of_int base * (1 + r * (2 * u - 1)))"
  note j = jitter_scaled[OF assms r(1,2)]
  have d: "jitteredSleep base ratio u = ?d" using True assms(3) j(1) by (simp add: jitteredSleep_def r_def Let_def)
  have b: "0 < rat_of_int base" using assms(3) by simp
  have "rat_of_int base * (1 + r) \<le> of_int base * 2" using b r(2) by simp
  then have "rat_of_int ?d \<le> rat_of_int (2 * base)" using j(2) by simp
  then have "?d \<le> 2 * base" by (simp only: of_int_le_iff)
  moreover have "rat_of_int base * (1 + r) \<le> of_int base * (1 + ratio)" using b r(3) by simp
  moreover have "ratio \<le> 1 \<longrightarrow> r = ratio" by (auto simp: r_def)
  ultimately show ?thesis using j workerSeed_nonneg unfolding d by auto
next
  case False
  then show ?thesis using assms(3) workerSeed_nonneg by (auto simp: jitteredSleep_def)
qed

theorem worker_pause_bounds_witness:
  "0 \<le> workerSeed ''observe_baseline'' ''reader'' 2 \<and> jitteredSleep 1000 (1 / 2) (1 / 4) \<le> 2000"
  using worker_pause_bounds[of "1 / 4" 1000 "''observe_baseline''" "''reader''" 2 "1 / 2"] by simp

text \<open>
  the table of counters lists the scenarios of the default experiment only: counters of a
  scenario with another name are not written.
\<close>

theorem stats_of_other_scenarios_dropped:
  assumes "name \<notin> scenarioName ` set DefaultPBSDemoScenarios"
  shows "statsRows (gm_put name st statsBy) = statsRows statsBy"
proof -
  have "map_of (gm_put name st statsBy) (scenarioName sc) = map_of statsBy (scenarioName sc)" if "sc \<in> set DefaultPBSDemoScenarios" for sc
    using that assms by (auto simp: map_of_gm_put)
  then have "List.map_filter (\<lambda>sc. map_option (statsRow (scenarioName sc)) (map_of (gm_put name st statsBy) (scenarioName sc))) DefaultPBSDemoScenarios
      = List.map_filter (\<lambda>sc. map_option (statsRow (scenarioName sc)) (map_of statsBy (scenarioName sc))) DefaultPBSDemoScenarios"
    by (intro map_filter_same ballI) simp
  then show ?thesis by (simp only: statsRows_def)
qed

theorem stats_of_other_scenarios_dropped_witness:
  "length (statsRows (gm_put ''my_scenario'' noStats [])) = 1"
  using stats_of_other_scenarios_dropped[of "''my_scenario''" noStats "[]"]
  by (simp add: DefaultPBSDemoScenarios_def statsRows_def map_filter_def)

end
