(* ===== verification/PBSRun.thy ===== *)
theory PBSRun
  imports PBSDemo
begin

text \<open>
  The run of an experiment, \<^verbatim>\<open>kvsrv/pbs_demo.go\<close>: the loops of the readers and writers with the flag
  that stops them as a step relation, and the functions \<open>RunPBSDemoScenario\<close> and \<open>RunPBSDemo\<close>
  around the scenarios, which check the options, draw the plots and write the tables. A
  worker reads the flag in one step and works in another one, so that work in progress goes on
  when the flag is set.
\<close>

subsection \<open>The loops of the workers\<close>

datatype ReaderPos = ReaderCheck | ReaderBusy | ReaderDone

text \<open>A writer at its outer check, at its inner check, and in a round; with the index of the value and its key.\<close>

datatype WriterPos = WriterOuter nat | WriterInner nat string | WriterBusy nat string | WriterDone

record 'w DemoRun =
  runLoad :: "'w Workload"
  runStop :: bool
  runReaders :: "ReaderPos list"
  runWriters :: "WriterPos list"

text \<open>The verb \<^verbatim>\<open>%02d\<close> for numbers that are not negative.\<close>

definition pad2 :: "nat \<Rightarrow> string" where
  "pad2 n = (if n < 10 then ''0'' @ decimal n else decimal n)"

definition writerLabel :: "string \<Rightarrow> nat \<Rightarrow> string" where
  "writerLabel sname writerID = sname @ ''-writer-'' @ decimal writerID"

definition writerValue :: "string \<Rightarrow> nat \<Rightarrow> string \<Rightarrow> nat \<Rightarrow> string" where
  "writerValue sname writerID key i = sname @ ''-writer-'' @ pad2 writerID @ ''-key-'' @ key @ ''-value-'' @ pad2 i"

definition readerFatal :: "'w getHandler \<Rightarrow> string \<Rightarrow> string \<Rightarrow> 'w Workload \<Rightarrow> bool" where
  "readerFatal get coordinator key l = (fst (fst (readerStep get coordinator key (wlStats l) (wlWorld l))) \<noteq> None)"

definition writerOutcome :: "'w putHandler \<Rightarrow> 'w getHandler \<Rightarrow> WorkerEvent \<Rightarrow> 'w Workload \<Rightarrow> WriterNext" where
  "writerOutcome put get ev l =
     (case ev of
        WriterEvent i now coordinator refresher key label val \<Rightarrow>
          fst (fst (writerRound put get now coordinator refresher key label val (wlCtx l (i, key)) (wlStats l) (wlWorld l)))
      | ReaderEvent _ _ \<Rightarrow> NextWrite)"

text \<open>Coordinators are any servers: which of them a worker picks is the choice of \<open>pickCoordinator\<close>.\<close>

inductive demo_step :: "'w putHandler \<Rightarrow> 'w getHandler \<Rightarrow> string list \<Rightarrow> string \<Rightarrow> 'w DemoRun \<Rightarrow> 'w DemoRun \<Rightarrow> bool"
  for put :: "'w putHandler" and get :: "'w getHandler" and keys :: "string list" and sname :: string where
  timer: "\<not> runStop s \<Longrightarrow> demo_step put get keys sname s (s\<lparr>runStop := True\<rparr>)"
| reader_enters: "r < length (runReaders s) \<Longrightarrow> runReaders s ! r = ReaderCheck \<Longrightarrow> \<not> runStop s \<Longrightarrow>
    demo_step put get keys sname s (s\<lparr>runReaders := (runReaders s)[r := ReaderBusy]\<rparr>)"
| reader_leaves: "r < length (runReaders s) \<Longrightarrow> runReaders s ! r = ReaderCheck \<Longrightarrow> runStop s \<Longrightarrow>
    demo_step put get keys sname s (s\<lparr>runReaders := (runReaders s)[r := ReaderDone]\<rparr>)"
| reader_reads: "r < length (runReaders s) \<Longrightarrow> runReaders s ! r = ReaderBusy \<Longrightarrow> key \<in> set keys \<Longrightarrow>
    f = readerFatal get coordinator key (runLoad s) \<Longrightarrow>
    demo_step put get keys sname s
      (s\<lparr>runLoad := workerEvent put get (ReaderEvent coordinator key) (runLoad s), runStop := runStop s \<or> f,
         runReaders := (runReaders s)[r := (if f then ReaderDone else ReaderCheck)]\<rparr>)"
| writer_picks: "i < length (runWriters s) \<Longrightarrow> runWriters s ! i = WriterOuter n \<Longrightarrow> \<not> runStop s \<Longrightarrow> key \<in> set keys \<Longrightarrow>
    demo_step put get keys sname s (s\<lparr>runWriters := (runWriters s)[i := WriterInner n key]\<rparr>)"
| writer_leaves: "i < length (runWriters s) \<Longrightarrow> runWriters s ! i = WriterOuter n \<Longrightarrow> runStop s \<Longrightarrow>
    demo_step put get keys sname s (s\<lparr>runWriters := (runWriters s)[i := WriterDone]\<rparr>)"
| writer_enters: "i < length (runWriters s) \<Longrightarrow> runWriters s ! i = WriterInner n key \<Longrightarrow> \<not> runStop s \<Longrightarrow>
    demo_step put get keys sname s (s\<lparr>runWriters := (runWriters s)[i := WriterBusy n key]\<rparr>)"
| writer_gives_up: "i < length (runWriters s) \<Longrightarrow> runWriters s ! i = WriterInner n key \<Longrightarrow> runStop s \<Longrightarrow>
    demo_step put get keys sname s (s\<lparr>runWriters := (runWriters s)[i := WriterOuter (n + 1)]\<rparr>)"
| writer_writes: "i < length (runWriters s) \<Longrightarrow> runWriters s ! i = WriterBusy n key \<Longrightarrow>
    ev = WriterEvent i now coordinator refresher key (writerLabel sname i) (writerValue sname i key n) \<Longrightarrow>
    nxt = writerOutcome put get ev (runLoad s) \<Longrightarrow>
    demo_step put get keys sname s
      (s\<lparr>runLoad := workerEvent put get ev (runLoad s), runStop := runStop s \<or> (\<exists>e. nxt = WriterStops e),
         runWriters := (runWriters s)[i := (case nxt of NextWrite \<Rightarrow> WriterOuter (n + 1) | RetryWrite \<Rightarrow> WriterInner n key | WriterStops e \<Rightarrow> WriterDone)]\<rparr>)"

definition startRun :: "PBSDemoOptions \<Rightarrow> 'w Workload \<Rightarrow> 'w DemoRun" where
  "startRun opts l = \<lparr>runLoad = l, runStop = False, runReaders = replicate (nat (NumReaders opts)) ReaderCheck,
     runWriters = replicate (nat (NumWriters opts)) (WriterOuter 0)\<rparr>"

subsection \<open>Running the experiment\<close>

datatype RunError =
    OptionError DemoError
  | ScenarioError string DemoError
  | NoBaseline
  | PlotFailed PlotError
  | DirFailed string
  | PlotMissing string
  | PlotIsDir string
  | PlotNotPng string

text \<open>\<^verbatim>\<open>os.Stat\<close> is a parameter: nothing, or whether the path is a directory.\<close>

definition assertPBSDemoPlotExists :: "(string \<Rightarrow> bool option) \<Rightarrow> string \<Rightarrow> RunError option" where
  "assertPBSDemoPlotExists stat path =
     (case stat path of
        None \<Rightarrow> Some (PlotMissing path)
      | Some isDir \<Rightarrow>
          if isDir then Some (PlotIsDir path)
          else if filepath_Ext path \<noteq> ''.png'' then Some (PlotNotPng path)
          else None)"

fun assertAll :: "(string \<Rightarrow> bool option) \<Rightarrow> string list \<Rightarrow> RunError option" where
  "assertAll stat [] = None"
| "assertAll stat (path # paths) = (case assertPBSDemoPlotExists stat path of Some e \<Rightarrow> Some e | None \<Rightarrow> assertAll stat paths)"

definition pngPaths :: "PlotOutput \<Rightarrow> string list" where
  "pngPaths out = [DeltaPPath out, KPPath out, DeltaPE2EPath out, KPE2EPath out]
     @ (if DeltaPZoomPath out \<noteq> '''' then [DeltaPZoomPath out] else []) @ (if KPZoomPath out \<noteq> '''' then [KPZoomPath out] else [])"

text \<open>\<open>DeltaPE2ECSVPath\<close> and \<open>KPE2ECSVPath\<close> are left as they are.\<close>

definition absPaths :: "(string \<Rightarrow> string) \<Rightarrow> PlotOutput \<Rightarrow> PlotOutput" where
  "absPaths toAbs out = out\<lparr>DeltaPPath := toAbs (DeltaPPath out), KPPath := toAbs (KPPath out), DeltaPE2EPath := toAbs (DeltaPE2EPath out),
     KPE2EPath := toAbs (KPE2EPath out), DeltaCSVPath := toAbs (DeltaCSVPath out), KPCSVPath := toAbs (KPCSVPath out),
     SeriesConfigCSVPath := toAbs (SeriesConfigCSVPath out),
     DeltaPZoomPath := (if DeltaPZoomPath out \<noteq> '''' then toAbs (DeltaPZoomPath out) else DeltaPZoomPath out),
     KPZoomPath := (if KPZoomPath out \<noteq> '''' then toAbs (KPZoomPath out) else KPZoomPath out)\<rparr>"

record PBSDemoResult =
  resPlots :: PlotOutput
  resStats :: "(string, PBSDemoStats) gomap"
  StatsCSVPath :: string

text \<open>
  What the run of an experiment uses of its surroundings: the plotting library and file system,
  creating a directory, the sources of random numbers, and \<^verbatim>\<open>filepath.Abs\<close>.
\<close>

record DemoHost =
  hostLib :: PlotLib
  hostMkdir :: "string \<Rightarrow> string option"
  hostStat :: "PlotFile list \<Rightarrow> string \<Rightarrow> bool option"
  hostAbs :: "string \<Rightarrow> string"
  hostSource :: "int \<Rightarrow> Rand"

type_synonym scenarioRunner = "PBSDemoOptions \<Rightarrow> PBSDemoScenario \<Rightarrow> string list \<Rightarrow> DemoError + PBSCollector \<times> PBSDemoStats"

definition predictNone :: SeriesConfig where
  "predictNone =
     \<lparr>serName = ''predict_baseline'', serLabel = ''predict_baseline'', serKind = ''predict'', serReadRepair = False, serAntiEntropy = False,
      serHintedHandoff = False, serFailureMode = ''none'',
      serNotes = ''PBS baseline predictor without read repair, anti-entropy, or hinted handoff.''\<rparr>"

text \<open>From the plots on: the files that are there, and the result.\<close>

definition finishDemo :: "DemoHost \<Rightarrow> PBSDemoOptions \<Rightarrow> PBSCollector \<Rightarrow> CollectorSeries list \<Rightarrow> (string, PBSDemoStats) gomap
    \<Rightarrow> panic + (RunError + PBSDemoResult) \<times> PlotFile list" where
  "finishDemo host opts baseline series statsBy =
     map_sum id (\<lambda>(r, files).
       case r of
         Inl e \<Rightarrow> (Inl (PlotFailed e), files)
       | Inr out \<Rightarrow>
           (case assertAll (hostStat host files) (pngPaths out) of
              Some e \<Rightarrow> (Inl e, files)
            | None \<Rightarrow>
                let path = filepath_Join (OutputDir opts) ''pbs_demo_stats.csv'';
                    f = CsvFile path (statsRows statsBy)
                in case fileError (hostLib host) f of
                     Some m \<Rightarrow> (Inl (PlotFailed (LibError m)), files)
                   | None \<Rightarrow> (Inr \<lparr>resPlots = absPaths (hostAbs host) out, resStats = statsBy, StatsCSVPath = hostAbs host path\<rparr>, files @ [f])))
       (PlotComparisonToDir (hostLib host) (hostSource host) (PlotConfig opts) baseline predictNone series (OutputDir opts))"

definition failureScenario :: PBSDemoScenario where
  "failureScenario = \<lparr>scenarioName = '''', scenarioLabel = '''', EnableReadRepair = False, EnableAntiEntropy = False,
     EnableHintedHandoff = False, FailureMode = ''single_dead_replica''\<rparr>"

text \<open>\<open>None\<close> when counting the failures or finding their victims does not end.\<close>

definition RunPBSDemo :: "DemoHost \<Rightarrow> scenarioRunner \<Rightarrow> PBSDemoOptions \<Rightarrow> (panic + (RunError + PBSDemoResult) \<times> PlotFile list) option" where
  "RunPBSDemo host run opts =
     (case hostMkdir host (if OutputDir opts = '''' then ''.'' else OutputDir opts) of
        Some m \<Rightarrow> Some (Inr (Inl (DirFailed m), []))
      | None \<Rightarrow>
          (case checkPBSDemoOptions opts of
             Inl e \<Rightarrow> Some (Inr (Inl (OptionError e), []))
           | Inr opts \<Rightarrow>
               map_option (\<lambda>r. case r of
                   Inl p \<Rightarrow> Inl p
                 | Inr (Inl e) \<Rightarrow> Inr (Inl (OptionError e), [])
                 | Inr (Inr failureSequence) \<Rightarrow>
                     (case runScenarios (\<lambda>scenario. run opts scenario failureSequence) (Scenarios opts) None [] [] of
                        Inl (name, e) \<Rightarrow> Inr (Inl (ScenarioError name e), [])
                      | Inr (None, _, _) \<Rightarrow> Inr (Inl NoBaseline, [])
                      | Inr (Some baseline, series, statsBy) \<Rightarrow> finishDemo host opts baseline series statsBy))
                 (failureSequenceFor opts (Scenarios opts) failureScenario)))"

definition RunPBSDemoScenario :: "scenarioRunner \<Rightarrow> PBSDemoOptions \<Rightarrow> PBSDemoScenario \<Rightarrow> (panic + DemoError + PBSCollector \<times> PBSDemoStats) option" where
  "RunPBSDemoScenario run opts scenario =
     (let opts = defaultKeys opts
      in if WorkloadDuration opts \<le> 0 then Some (Inr (Inl WorkloadNotPositive))
         else case validatePBSDemoFailureOptions opts of
                Some e \<Rightarrow> Some (Inr (Inl e))
              | None \<Rightarrow>
                  map_option (\<lambda>r. case r of
                      Inl p \<Rightarrow> Inl p
                    | Inr (Inl e) \<Rightarrow> Inr (Inl e)
                    | Inr (Inr fs) \<Rightarrow> Inr (run opts scenario fs))
                    (failureSequenceFor opts [scenario] scenario))"

subsection \<open>Progress of the workers\<close>

fun readerWork :: "ReaderPos \<Rightarrow> nat" where
  "readerWork ReaderCheck = 1"
| "readerWork ReaderBusy = 2"
| "readerWork ReaderDone = 0"

fun writerWork :: "WriterPos \<Rightarrow> nat" where
  "writerWork (WriterOuter n) = 1"
| "writerWork (WriterInner n key) = 2"
| "writerWork (WriterBusy n key) = 3"
| "writerWork WriterDone = 0"

definition workLeft :: "'w DemoRun \<Rightarrow> nat" where
  "workLeft s = sum_list (map readerWork (runReaders s)) + sum_list (map writerWork (runWriters s))"

lemma sum_list_less: "i < length xs \<Longrightarrow> f y < f (xs ! i) \<Longrightarrow> sum_list (map f (xs[i := y])) < sum_list (map f xs)" for f :: "'a \<Rightarrow> nat"
  by (induction xs arbitrary: i) (auto simp: nth_Cons split: nat.splits)

lemma workLeft_reader: "r < length (runReaders s) \<Longrightarrow> readerWork y < readerWork (runReaders s ! r) \<Longrightarrow>
    workLeft (s\<lparr>runReaders := (runReaders s)[r := y]\<rparr>) < workLeft s"
  using sum_list_less[of r "runReaders s" readerWork y] by (simp add: workLeft_def)

lemma workLeft_writer: "i < length (runWriters s) \<Longrightarrow> writerWork y < writerWork (runWriters s ! i) \<Longrightarrow>
    workLeft (s\<lparr>runWriters := (runWriters s)[i := y]\<rparr>) < workLeft s"
  using sum_list_less[of i "runWriters s" writerWork y] by (simp add: workLeft_def)

lemma workLeft_frame: "workLeft (s\<lparr>runLoad := l, runStop := b, runReaders := rs\<rparr>) = workLeft (s\<lparr>runReaders := rs\<rparr>)"
  "workLeft (s\<lparr>runLoad := l, runStop := b, runWriters := ws\<rparr>) = workLeft (s\<lparr>runWriters := ws\<rparr>)"
  by (simp_all add: workLeft_def)

lemma step_after_stop: "demo_step put get keys sname s s' \<Longrightarrow> runStop s \<Longrightarrow> runStop s' \<and> workLeft s' < workLeft s"
  by (induction rule: demo_step.induct)
    (auto simp: workLeft_frame split: WriterNext.splits intro!: workLeft_reader workLeft_writer)

lemma steps_after_stop: "(demo_step put get keys sname ^^ n) s s' \<Longrightarrow> runStop s \<Longrightarrow> runStop s' \<and> n + workLeft s' \<le> workLeft s"
proof (induction n arbitrary: s')
  case (Suc n)
  then obtain t where t: "(demo_step put get keys sname ^^ n) s t" "demo_step put get keys sname t s'" by auto
  then show ?case using Suc.IH[OF t(1) Suc.prems(2)] step_after_stop[OF t(2)] by fastforce
qed simp

lemma sum_list_bound: "(\<And>x. f x \<le> k) \<Longrightarrow> sum_list (map f xs) \<le> k * length xs" for f :: "'a \<Rightarrow> nat"
  by (induction xs) (auto simp: add_mono)

lemma workLeft_bound: "workLeft s \<le> 2 * length (runReaders s) + 3 * length (runWriters s)"
proof -
  have "readerWork x \<le> 2" for x by (cases x) simp_all
  moreover have "writerWork y \<le> 3" for y by (cases y) simp_all
  ultimately show ?thesis unfolding workLeft_def by (intro add_mono sum_list_bound)
qed

definition allDone :: "'w DemoRun \<Rightarrow> bool" where
  "allDone s \<longleftrightarrow> set (runReaders s) \<subseteq> {ReaderDone} \<and> set (runWriters s) \<subseteq> {WriterDone}"

lemma reader_moves:
  assumes "x \<in> set (runReaders s)" "x \<noteq> ReaderDone" "keys \<noteq> []"
  shows "\<exists>s'. demo_step put get keys sname s s'"
proof -
  obtain r where r: "r < length (runReaders s)" "runReaders s ! r = x" using assms(1) by (auto simp: in_set_conv_nth)
  show ?thesis
  proof (cases x)
    case ReaderCheck
    then show ?thesis using r reader_enters[of r s] reader_leaves[of r s] by (cases "runStop s") blast+
  next
    case ReaderBusy
    then show ?thesis using r reader_reads[of r s "hd keys" keys] assms(3) by (meson hd_in_set)
  qed (use assms in simp)
qed

lemma writer_moves:
  assumes "x \<in> set (runWriters s)" "x \<noteq> WriterDone" "keys \<noteq> []"
  shows "\<exists>s'. demo_step put get keys sname s s'"
proof -
  obtain i where i: "i < length (runWriters s)" "runWriters s ! i = x" using assms(1) by (auto simp: in_set_conv_nth)
  show ?thesis
  proof (cases x)
    case (WriterOuter n)
    then show ?thesis using i writer_picks[of i s n "hd keys" keys] writer_leaves[of i s n] assms(3) by (cases "runStop s") (meson hd_in_set)+
  next
    case (WriterInner n key)
    then show ?thesis using i writer_enters[of i s n key] writer_gives_up[of i s n key] by (cases "runStop s") blast+
  next
    case (WriterBusy n key)
    then show ?thesis using i writer_writes[of i s n key] by blast
  qed (use assms in simp)
qed

lemma stuck_allDone: "keys \<noteq> [] \<Longrightarrow> \<nexists>s'. demo_step put get keys sname s s' \<Longrightarrow> allDone s"
  unfolding allDone_def using reader_moves[of _ s keys put get sname] writer_moves[of _ s keys put get sname] by blast

lemma done_no_step: "demo_step put get keys sname s s' \<Longrightarrow> runStop s \<Longrightarrow> \<not> allDone s"
  by (induction rule: demo_step.induct) (auto simp: allDone_def dest!: nth_mem)

lemma steps_lengths: "demo_step put get keys sname s s' \<Longrightarrow> length (runReaders s') = length (runReaders s) \<and> length (runWriters s') = length (runWriters s)"
  by (induction rule: demo_step.induct) auto

lemma step_event: "demo_step put get keys sname s s' \<Longrightarrow> runLoad s' = runLoad s \<or> (\<exists>ev. runLoad s' = workerEvent put get ev (runLoad s))"
  by (induction rule: demo_step.induct) (auto simp del: workerEvent.simps)

lemma steps_events: "(demo_step put get keys sname)\<^sup>*\<^sup>* s s' \<Longrightarrow> \<exists>evs. runLoad s' = fold (workerEvent put get) evs (runLoad s)"
proof (induction rule: rtranclp_induct)
  case (step t u)
  then obtain evs where evs: "runLoad t = fold (workerEvent put get) evs (runLoad s)" by blast
  from step_event[OF step(2)] show ?case
  proof
    assume "\<exists>ev. runLoad u = workerEvent put get ev (runLoad t)"
    then obtain ev where "runLoad u = fold (workerEvent put get) (evs @ [ev]) (runLoad s)" using evs by auto
    then show ?case by blast
  qed (use evs in auto)
qed (auto intro: exI[of _ "[]"])

text \<open>An error that a worker reports stops the others.\<close>

lemma step_reports: "demo_step put get keys sname s s' \<Longrightarrow> wlErrors (runLoad s) \<noteq> [] \<longrightarrow> runStop s \<Longrightarrow> wlErrors (runLoad s') \<noteq> [] \<longrightarrow> runStop s'"
proof (induction rule: demo_step.induct)
  case (reader_reads r s key f coordinator)
  then show ?case
    by (auto simp: readerFatal_def reportFatal_def Let_def split: prod.splits option.splits if_splits)
next
  case (writer_writes i s n key ev now coordinator refresher nxt)
  then show ?case
    by (auto simp: writerOutcome_def reportFatal_def Let_def split: prod.splits option.splits if_splits WriterNext.splits)
qed auto

lemma steps_report: "(demo_step put get keys sname)\<^sup>*\<^sup>* s s' \<Longrightarrow> wlErrors (runLoad s) \<noteq> [] \<longrightarrow> runStop s \<Longrightarrow> wlErrors (runLoad s') \<noteq> [] \<longrightarrow> runStop s'"
proof (induction rule: rtranclp_induct)
  case (step t u)
  then show ?case using step_reports[OF step(2)] by blast
qed

subsection \<open>Properties of the workload\<close>

text \<open>
  C28: in every state that readers and writers can reach, the counters account for every read
  exactly once: their total equals the number of reads the cluster served, and it is the sum of
  the outcomes of the readers and of the failed puts, each of which causes one refresh.
\<close>

theorem demo_stats_account:
  assumes "counts_gets gets put get" and "wlStats l = noStats" and "gets (wlWorld l) = 0"
    and "(demo_step put get keys sname)\<^sup>*\<^sup>* (startRun opts l) s" and "st = wlStats (runLoad s)"
  shows "ReadAttemptTotal st = gets (wlWorld (runLoad s))
    \<and> ReadAttemptTotal st = ReadOK st + ReadNoKey st + ReadQuorumRetry st + ReadErr st
        + WriteErrVersion st + WriteQuorumRetry st + WriteNoKeyRetry st
    \<and> RefreshOK st + RefreshErr st \<le> WriteErrVersion st + WriteQuorumRetry st + WriteNoKeyRetry st
    \<and> readAttempts st = gets (wlWorld (runLoad s))"
proof -
  obtain evs where evs: "runLoad s = fold (workerEvent put get) evs l" using steps_events[OF assms(4)] by (auto simp: startRun_def)
  have "balanced (wlStats l)" by (simp add: assms(2) balanced_def refreshes_def noStats_def)
  note b = workload_balanced[OF assms(1) this, of evs, folded evs assms(5)]
  have t: "ReadAttemptTotal st = gets (wlWorld (runLoad s))" using b assms(2,3) by (simp add: noStats_def)
  then show ?thesis using b by (auto simp: balanced_def refreshes_def readAttempts_def)
qed

definition countingGet :: "int getHandler" where
  "countingGet c a w = (newGetReply\<lparr>getErr := ErrNoKey\<rparr>, w + 1)"

definition countingPut :: "int putHandler" where
  "countingPut c a w = ((a, newPutReply\<lparr>putErr := ErrNoKey\<rparr>), w)"

definition countingLoad :: "int Workload" where
  "countingLoad = \<lparr>wlStats = noStats, wlCtx = \<lambda>_. NewContext 0, wlErrors = [], wlWorld = 0\<rparr>"

theorem demo_stats_account_witness:
  "\<exists>s. (demo_step countingPut countingGet [''k''] ''x'')\<^sup>*\<^sup>* (startRun DefaultPBSDemoOptions countingLoad) s \<and> ReadAttemptTotal (wlStats (runLoad s)) = 1"
proof -
  let ?s = "startRun DefaultPBSDemoOptions countingLoad" and ?step = "demo_step countingPut countingGet [''k''] ''x''"
  have r: "0 < length (runReaders ?s)" "runReaders ?s ! 0 = ReaderCheck" "\<not> runStop ?s" by (simp_all add: startRun_def DefaultPBSDemoOptions_def)
  let ?t = "?s\<lparr>runReaders := (runReaders ?s)[0 := ReaderBusy]\<rparr>"
  have "?step ?s ?t" using reader_enters[OF r] .
  moreover have t: "0 < length (runReaders ?t)" "runReaders ?t ! 0 = ReaderBusy" "''k'' \<in> set [''k'']" "runLoad ?t = countingLoad"
    using r by (simp_all add: startRun_def)
  note step = reader_reads[OF t(1-3) refl, of countingPut countingGet "''x''" "''a''", unfolded t(4)]
  define u where "u = ?t\<lparr>runLoad := workerEvent countingPut countingGet (ReaderEvent ''a'' ''k'') countingLoad,
      runStop := runStop ?t \<or> readerFatal countingGet ''a'' ''k'' countingLoad,
      runReaders := (runReaders ?t)[0 := (if readerFatal countingGet ''a'' ''k'' countingLoad then ReaderDone else ReaderCheck)]\<rparr>"
  have u: "?step ?t u" "runLoad u = workerEvent countingPut countingGet (ReaderEvent ''a'' ''k'') countingLoad"
    unfolding u_def by (rule step) (simp del: workerEvent.simps)
  ultimately have reach: "?step\<^sup>*\<^sup>* ?s u" using u(1) by (meson r_into_rtranclp rtranclp_trans)
  have w: "wlWorld (runLoad u) = 1"
    unfolding u(2) by (simp add: countingLoad_def readerStep_def demoGet_def countingGet_def newGetReply_def Let_def)
  have "counts_gets (\<lambda>w. w) countingPut countingGet" by (simp add: counts_gets_def countingGet_def countingPut_def)
  then show ?thesis
    using demo_stats_account[of "\<lambda>w. w" countingPut countingGet countingLoad "[''k'']" "''x''" DefaultPBSDemoOptions u] reach w
    by (auto simp: countingLoad_def)
qed

text \<open>
  C29: once the flag is set, by the timer or by a fatal error of some worker, the workers stop
  after at most two more steps of every reader and three of every writer, and a run that cannot
  go on has stopped all of them. A reported error always sets the flag, and becomes the result.
\<close>

theorem workers_stop:
  assumes "keys \<noteq> []" and "runStop s" and "(demo_step put get keys sname ^^ n) s s'"
  shows "n \<le> 2 * length (runReaders s) + 3 * length (runWriters s) \<and> runStop s'
    \<and> ((\<nexists>s''. demo_step put get keys sname s' s'') \<longleftrightarrow> allDone s')
    \<and> (wlErrors l = [] \<and> (demo_step put get keys sname)\<^sup>*\<^sup>* (startRun opts l) t \<and> wlErrors (runLoad t) \<noteq> [] \<longrightarrow>
         runStop t \<and> (\<exists>e. workloadResult (runLoad t) = Inl e))"
proof -
  have s: "runStop s'" "n + workLeft s' \<le> workLeft s" using steps_after_stop[OF assms(3,2)] by simp_all
  have "(\<nexists>s''. demo_step put get keys sname s' s'') \<longleftrightarrow> allDone s'"
    using stuck_allDone[OF assms(1)] done_no_step s(1) by blast
  moreover have "wlErrors (runLoad t) \<noteq> [] \<longrightarrow> runStop t" if "wlErrors l = []" "(demo_step put get keys sname)\<^sup>*\<^sup>* (startRun opts l) t"
    using steps_report[OF that(2)] that(1) by (simp add: startRun_def)
  moreover have "\<exists>e. workloadResult (runLoad t) = Inl e" if "wlErrors (runLoad t) \<noteq> []"
    using that by (cases "wlErrors (runLoad t)") (simp_all add: workloadResult_def)
  moreover have "n \<le> 2 * length (runReaders s) + 3 * length (runWriters s)" using s(2) workLeft_bound[of s] by linarith
  ultimately show ?thesis using s(1) by blast
qed

theorem workers_stop_witness:
  "\<nexists>s'. (demo_step countingPut countingGet [''k''] ''x'' ^^ 14) ((startRun DefaultPBSDemoOptions countingLoad)\<lparr>runStop := True\<rparr>) s'"
proof
  let ?s = "(startRun DefaultPBSDemoOptions countingLoad)\<lparr>runStop := True\<rparr>"
  assume "\<exists>s'. (demo_step countingPut countingGet [''k''] ''x'' ^^ 14) ?s s'"
  then obtain s' where "(demo_step countingPut countingGet [''k''] ''x'' ^^ 14) ?s s'" by blast
  from workers_stop[OF _ _ this] show False by (simp add: startRun_def DefaultPBSDemoOptions_def)
qed

subsection \<open>Completing an experiment\<close>

lemma splitSlash_last: "CHR ''/'' \<notin> set w \<Longrightarrow> \<exists>x. last (splitSlash (pre @ w)) = x @ w"
proof (induction pre)
  case (Cons c pre)
  then obtain x where x: "last (splitSlash (pre @ w)) = x @ w" by blast
  obtain v vs where v: "splitSlash (pre @ w) = v # vs" using splitSlash_nonempty by (cases "splitSlash (pre @ w)") auto
  show ?case
  proof (cases vs)
    case Nil
    then show ?thesis using x v by (cases "c = CHR ''/''") (auto intro: exI[of _ "c # x"])
  next
    case (Cons a list)
    then show ?thesis using x v by (cases "c = CHR ''/''") auto
  qed
qed (simp add: splitSlash_plain)

lemma Ext_suffix:
  assumes "CHR ''/'' \<notin> set w" "CHR ''.'' \<in> set w"
  shows "filepath_Ext (pre @ w) = filepath_Ext w"
proof -
  obtain x where x: "last (splitSlash (pre @ w)) = x @ w" using splitSlash_last[OF assms(1)] by blast
  have "takeWhile (\<lambda>c. c \<noteq> CHR ''.'') (rev w @ rev x) = takeWhile (\<lambda>c. c \<noteq> CHR ''.'') (rev w)"
    using assms(2) by (intro takeWhile_append1[of "CHR ''.''"]) auto
  then show ?thesis using x assms by (simp add: filepath_Ext_def splitSlash_plain)
qed

lemma Ext_Join: "plain w \<Longrightarrow> CHR ''.'' \<in> set w \<Longrightarrow> filepath_Ext (filepath_Join dir w) = filepath_Ext w"
proof -
  assume w: "plain w" "CHR ''.'' \<in> set w"
  obtain pre where "filepath_Join dir w = pre @ w" using Join_plain[of dir] w(1) by blast
  then show ?thesis using Ext_suffix[of w pre] w by (simp only: plain_def simp_thms)
qed

lemma Join_nonempty: "plain w \<Longrightarrow> filepath_Join dir w \<noteq> ''''"
proof -
  assume w: "plain w"
  then obtain pre where "filepath_Join dir w = pre @ w" using Join_plain[of dir] by blast
  then show ?thesis using w by (simp add: plain_def)
qed

lemma assertAll_ok: "\<forall>p \<in> set paths. stat p = Some False \<and> filepath_Ext p = ''.png'' \<Longrightarrow> assertAll stat paths = None"
  by (induction paths) (auto simp: assertPBSDemoPlotExists_def)

lemma pngPaths_planned: "set (pngPaths (outputPaths dir zoom)) \<subseteq> set (plannedPaths zoom (outputPaths dir zoom))"
  by (auto simp: pngPaths_def plannedPaths_def outputPaths_def split: if_splits)

lemma pngPaths_ext: "p \<in> set (pngPaths (outputPaths dir zoom)) \<Longrightarrow> filepath_Ext p = ''.png''"
proof -
  have "filepath_Ext w = ''.png''" if "w \<in> {''delta_p.png'', ''k_p.png'', ''delta_p_e2e.png'', ''k_p_e2e.png'', ''delta_p_zoom.png'', ''k_p_zoom.png''}" for w
    using that by (auto simp: filepath_Ext_def)
  then have e: "filepath_Ext (filepath_Join dir w) = ''.png''"
    if "w \<in> {''delta_p.png'', ''k_p.png'', ''delta_p_e2e.png'', ''k_p_e2e.png'', ''delta_p_zoom.png'', ''k_p_zoom.png''}" for w
    using that Ext_Join[of w dir] plain_names by fastforce
  show "p \<in> set (pngPaths (outputPaths dir zoom)) \<Longrightarrow> filepath_Ext p = ''.png''"
    by (auto simp: pngPaths_def outputPaths_def e split: if_splits)
qed

lemma stats_path_new: "filepath_Join dir ''pbs_demo_stats.csv'' \<notin> set (plannedPaths zoom (outputPaths dir zoom))"
proof -
  have "plain ''pbs_demo_stats.csv''" by (simp add: plain_def)
  then show ?thesis by (simp add: plannedPaths_def outputPaths_def Join_inj plain_names)
qed

text \<open>A history whose latencies can be sampled.\<close>

definition sampled :: "PBSCollector \<Rightarrow> bool" where
  "sampled c \<longleftrightarrow> collector_ok c \<and> (\<exists>smp. NewWARSSamplers (trace c) = Inr smp \<and> samplers_ok smp)"

lemma runScenarios_returns:
  "\<forall>sc \<in> set scs. \<exists>c st. run sc = Inr (c, st) \<and> sampled c \<Longrightarrow> \<forall>s \<in> set series. sampled (csCollector s) \<Longrightarrow>
   (\<And>b. baseline = Some b \<Longrightarrow> sampled b) \<Longrightarrow>
   \<exists>b series' stats'. runScenarios run scs baseline series statsBy = Inr (b, series', stats')
     \<and> (\<forall>s \<in> set series'. sampled (csCollector s)) \<and> (\<forall>x. b = Some x \<longrightarrow> sampled x) \<and> (scs \<noteq> [] \<or> baseline \<noteq> None \<longrightarrow> b \<noteq> None)
     \<and> fst ` set stats' = fst ` set statsBy \<union> scenarioName ` set scs \<and> length series' = length series + length scs"
proof (induction scs arbitrary: baseline series statsBy)
  case (Cons sc scs)
  then obtain c st where c: "run sc = Inr (c, st)" "sampled c" by auto
  let ?b = "case baseline of None \<Rightarrow> Some c | Some b \<Rightarrow> Some b"
  have "\<forall>s \<in> set (series @ [scenarioSeries sc c st]). sampled (csCollector s)" using Cons.prems(2) c(2) by (auto simp: scenarioSeries_def)
  moreover have "\<And>b. ?b = Some b \<Longrightarrow> sampled b" using Cons.prems(3) c(2) by (auto split: option.splits)
  ultimately obtain b series' stats' where "runScenarios run scs ?b (series @ [scenarioSeries sc c st]) (gm_put (scenarioName sc) st statsBy) = Inr (b, series', stats')"
      "\<forall>s \<in> set series'. sampled (csCollector s)" "\<forall>x. b = Some x \<longrightarrow> sampled x" "scs \<noteq> [] \<or> ?b \<noteq> None \<longrightarrow> b \<noteq> None"
      "fst ` set stats' = fst ` set (gm_put (scenarioName sc) st statsBy) \<union> scenarioName ` set scs" "length series' = length (series @ [scenarioSeries sc c st]) + length scs"
    using Cons.IH[of "series @ [scenarioSeries sc c st]" ?b "gm_put (scenarioName sc) st statsBy"] Cons.prems(1) by auto
  then show ?case using c by (auto simp: keys_gm_put split: option.splits)
qed auto

text \<open>The plotting library and the file system work, and what was saved is found.\<close>

definition host_works :: "DemoHost \<Rightarrow> bool" where
  "host_works host \<longleftrightarrow> hostLib host = flawless \<and> (\<forall>dir. hostMkdir host dir = None)
     \<and> (\<forall>files. \<forall>f \<in> set files. hostStat host files (filePath f) = Some False)"

definition plots_ok :: "SimulationConfig \<Rightarrow> bool" where
  "plots_ok config \<longleftrightarrow> validateDeltaPConfig config = None \<and> scDelta config < 2 ^ 60 \<and> scDeltaPoints config * scDelta config < 2 ^ 63"

lemma finishDemo_ok:
  assumes "host_works host" "plots_ok (PlotConfig opts)" "sampled baseline" "\<forall>s \<in> set series. sampled (csCollector s)"
  defines "out \<equiv> outputPaths (OutputDir opts) (scEmitZoomPlot (PlotConfig opts))"
    and "path \<equiv> filepath_Join (OutputDir opts) ''pbs_demo_stats.csv''"
  shows "\<exists>files. finishDemo host opts baseline series statsBy =
      Inr (Inr \<lparr>resPlots = absPaths (hostAbs host) out, resStats = statsBy, StatsCSVPath = hostAbs host path\<rparr>, files @ [CsvFile path (statsRows statsBy)])
    \<and> map filePath files = plannedPaths (scEmitZoomPlot (PlotConfig opts)) out \<and> (\<forall>f \<in> set files. wellFormed f)"
proof -
  obtain smp where smp: "NewWARSSamplers (trace baseline) = Inr smp" "samplers_ok smp" using assms(3) by (auto simp: sampled_def)
  have c: "\<forall>s \<in> set series. collector_ok (csCollector s)" using assms(4) by (simp add: sampled_def)
  have h: "hostLib host = flawless" "\<And>files f. f \<in> set files \<Longrightarrow> hostStat host files (filePath f) = Some False"
    using assms(1) by (auto simp: host_works_def)
  have p: "validateDeltaPConfig (PlotConfig opts) = None" "scDelta (PlotConfig opts) < 2 ^ 60"
      "scDeltaPoints (PlotConfig opts) * scDelta (PlotConfig opts) < 2 ^ 63" using assms(2) by (simp_all add: plots_ok_def)
  obtain files where f: "map filePath files = plannedPaths (scEmitZoomPlot (PlotConfig opts)) out" "\<forall>f \<in> set files. wellFormed f"
      "PlotComparisonToDir flawless (hostSource host) (PlotConfig opts) baseline predictNone series (OutputDir opts) = Inr (Inr out, files)"
    using comparison_outcome[OF p smp c, of out "OutputDir opts" "hostSource host" predictNone] unfolding out_def by blast
  have "hostStat host files q = Some False \<and> filepath_Ext q = ''.png''" if "q \<in> set (pngPaths out)" for q
  proof -
    have "q \<in> filePath ` set files" using that pngPaths_planned f(1) unfolding out_def by (metis image_set subsetD)
    then show ?thesis using h(2) pngPaths_ext that unfolding out_def by auto
  qed
  then have "assertAll (hostStat host files) (pngPaths out) = None" by (intro assertAll_ok) simp
  moreover have "fileError flawless x = None" for x by (simp add: flawless_def)
  ultimately show ?thesis using f by (simp add: finishDemo_def h(1) path_def Let_def)
qed


definition workingHost :: DemoHost where
  "workingHost = \<lparr>hostLib = flawless, hostMkdir = \<lambda>_. None,
     hostStat = \<lambda>files p. if p \<in> filePath ` set files then Some False else None, hostAbs = \<lambda>p. ''/tmp/'' @ p,
     hostSource = \<lambda>seed. \<lparr>draws = \<lambda>n. n, rngPos = 0\<rparr>\<rparr>"


end
