(* ===== verification/Annotations.thy ===== *)
theory Annotations
  imports GoFormat Results
begin

text \<open>
  The annotations of a test run, \<^verbatim>\<open>tester/annotation.go\<close>: points, intervals and continuing
  annotations of a time line, the faults that the test framework injects, and the checker. The two
  global variables \<open>annotation\<close> and \<open>finfo\<close> are the state; the latter is nil before the first test.
  Times are readings of \<open>timestamp\<close>. Signals and the file with the picture are not modelled.
\<close>

subsection \<open>State\<close>

text \<open>The fields of \<^verbatim>\<open>porcupine.Annotation\<close> that the code sets; an end that is not set is 0.\<close>

record PorcupineAnnotation =
  paTag :: string
  paStart :: int
  paEnd :: int
  paDescription :: string
  paDetails :: string
  paColor :: string

record Continuous =
  coStart :: int
  coDesp :: string
  coDetails :: string
  coColor :: string

record Annotation =
  annotations :: "PorcupineAnnotation list"
  anContinuous :: "(string, Continuous) gomap"
  finalized :: bool

record CheckerBegin =
  ckTs :: int
  ckDetails :: string

record FrameworkInfo =
  nservers :: nat
  fiConnected :: "bool list"
  fiCrashed :: "bool list"
  ckbegin :: CheckerBegin

record AnnotationState =
  annotation :: Annotation
  finfo :: "FrameworkInfo option"

definition COLOR_INFO :: string where "COLOR_INFO = ''#FAFAFA''"
definition COLOR_NEUTRAL :: string where "COLOR_NEUTRAL = ''#FFECB3''"
definition COLOR_SUCCESS :: string where "COLOR_SUCCESS = ''#C8E6C9''"
definition COLOR_FAILURE :: string where "COLOR_FAILURE = ''#FFCDD2''"
definition COLOR_FAULT :: string where "COLOR_FAULT = ''#B3E5FC''"
definition COLOR_USER :: string where "COLOR_USER = ''#FFF176''"
definition TAG_CHECKER :: string where "TAG_CHECKER = ''$ Checker''"
definition TAG_PARTITION :: string where "TAG_PARTITION = ''$ Failure''"
definition TAG_INFO :: string where "TAG_INFO = ''$ Test Info''"

definition mkAnnotation :: Annotation where
  "mkAnnotation = \<lparr>annotations = [], anContinuous = [], finalized = False\<rparr>"

definition mkFrameworkInfo :: "nat \<Rightarrow> FrameworkInfo" where
  "mkFrameworkInfo n = \<lparr>nservers = n, fiConnected = replicate n True, fiCrashed = replicate n False, ckbegin = \<lparr>ckTs = 0, ckDetails = ''''\<rparr>\<rparr>"

subsection \<open>The time line\<close>

definition clear :: "Annotation \<Rightarrow> Annotation" where
  "clear an = an\<lparr>annotations := [], anContinuous := [], finalized := False\<rparr>"

definition annotatePointColor :: "int \<Rightarrow> string \<Rightarrow> string \<Rightarrow> string \<Rightarrow> string \<Rightarrow> Annotation \<Rightarrow> Annotation" where
  "annotatePointColor now tag desp details bgcolor an =
     an\<lparr>annotations := annotations an @
        [\<lparr>paTag = tag, paStart = now, paEnd = 0, paDescription = desp, paDetails = details, paColor = bgcolor\<rparr>]\<rparr>"

definition annotateIntervalColor :: "int \<Rightarrow> string \<Rightarrow> int \<Rightarrow> string \<Rightarrow> string \<Rightarrow> string \<Rightarrow> Annotation \<Rightarrow> Annotation" where
  "annotateIntervalColor now tag start desp details bgcolor an =
     an\<lparr>annotations := annotations an @
        [\<lparr>paTag = tag, paStart = start, paEnd = now, paDescription = desp, paDetails = details, paColor = bgcolor\<rparr>]\<rparr>"

text \<open>The interval that a continuing annotation becomes at time \<open>t\<close>.\<close>

definition concretize :: "int \<Rightarrow> string \<Rightarrow> Continuous \<Rightarrow> PorcupineAnnotation" where
  "concretize t tag cont =
     \<lparr>paTag = tag, paStart = coStart cont, paEnd = t, paDescription = coDesp cont, paDetails = coDetails cont, paColor = coColor cont\<rparr>"

definition annotateContinuousColor :: "int \<Rightarrow> string \<Rightarrow> string \<Rightarrow> string \<Rightarrow> string \<Rightarrow> Annotation \<Rightarrow> Annotation" where
  "annotateContinuousColor now tag desp details bgcolor an =
     (let new = \<lparr>coStart = now, coDesp = desp, coDetails = details, coColor = bgcolor\<rparr>
      in case map_of (anContinuous an) tag of
           None \<Rightarrow> an\<lparr>anContinuous := gm_put tag new (anContinuous an)\<rparr>
         | Some cont \<Rightarrow> an\<lparr>annotations := annotations an @ [concretize now tag cont], anContinuous := gm_put tag new (anContinuous an)\<rparr>)"

text \<open>A missing tag does not end the function: the zero value of \<open>Continuous\<close> is used.\<close>

definition noContinuous :: Continuous where
  "noContinuous = \<lparr>coStart = 0, coDesp = '''', coDetails = '''', coColor = ''''\<rparr>"

definition annotateContinuousEnd :: "int \<Rightarrow> string \<Rightarrow> Annotation \<Rightarrow> Annotation" where
  "annotateContinuousEnd now tag an =
     an\<lparr>annotations := annotations an @ [concretize now tag (gm_get noContinuous (anContinuous an) tag)],
        anContinuous := gm_del tag (anContinuous an)\<rparr>"

definition finalize :: "int \<Rightarrow> Annotation \<Rightarrow> PorcupineAnnotation list \<times> Annotation" where
  "finalize now an = (annotations an @ map (\<lambda>(tag, cont). concretize now tag cont) (anContinuous an), an\<lparr>finalized := True\<rparr>)"

definition endNote :: "int \<Rightarrow> string \<Rightarrow> PorcupineAnnotation" where
  "endNote now txt = \<lparr>paTag = TAG_INFO, paStart = now, paEnd = 0, paDescription = txt, paDetails = txt, paColor = COLOR_INFO\<rparr>"

definition FinalizeAnnotations :: "int \<Rightarrow> int \<Rightarrow> string \<Rightarrow> Annotation \<Rightarrow> PorcupineAnnotation list \<times> Annotation" where
  "FinalizeAnnotations now now' txt an = (let (x, an) = finalize now an in (x @ [endNote now' txt], an))"

text \<open>The clean-up after a test: the annotations to draw, if any. \<open>enabled\<close> is the value of \<^verbatim>\<open>VIS_ENABLE\<close>.\<close>

definition cleanup :: "string \<Rightarrow> int \<Rightarrow> int \<Rightarrow> bool \<Rightarrow> string \<Rightarrow> Annotation \<Rightarrow> PorcupineAnnotation list option \<times> Annotation" where
  "cleanup enabled now now' failed txt an =
     (if enabled = ''never'' \<or> (\<not> failed \<and> enabled \<noteq> ''always'') \<or> finalized an then (None, clear an)
      else let (x, an) = finalize now an
           in if x = [] then (None, an) else (Some (x @ [endNote now' txt]), an))"

subsection \<open>The interface of tests\<close>

definition onAnnotation :: "(Annotation \<Rightarrow> Annotation) \<Rightarrow> AnnotationState \<Rightarrow> AnnotationState" where
  "onAnnotation f st = st\<lparr>annotation := f (annotation st)\<rparr>"

definition AnnotateInfo :: "int \<Rightarrow> string \<Rightarrow> string \<Rightarrow> AnnotationState \<Rightarrow> AnnotationState" where
  "AnnotateInfo now desp details = onAnnotation (annotatePointColor now TAG_INFO desp details COLOR_INFO)"

definition AnnotateInfoInterval :: "int \<Rightarrow> int \<Rightarrow> string \<Rightarrow> string \<Rightarrow> AnnotationState \<Rightarrow> AnnotationState" where
  "AnnotateInfoInterval now start desp details = onAnnotation (annotateIntervalColor now TAG_INFO start desp details COLOR_INFO)"

definition AnnotatePoint :: "int \<Rightarrow> string \<Rightarrow> string \<Rightarrow> string \<Rightarrow> AnnotationState \<Rightarrow> AnnotationState" where
  "AnnotatePoint now tag desp details = onAnnotation (annotatePointColor now tag desp details COLOR_USER)"

definition AnnotateInterval :: "int \<Rightarrow> string \<Rightarrow> int \<Rightarrow> string \<Rightarrow> string \<Rightarrow> AnnotationState \<Rightarrow> AnnotationState" where
  "AnnotateInterval now tag start desp details = onAnnotation (annotateIntervalColor now tag start desp details COLOR_USER)"

definition AnnotateContinuous :: "int \<Rightarrow> string \<Rightarrow> string \<Rightarrow> string \<Rightarrow> AnnotationState \<Rightarrow> AnnotationState" where
  "AnnotateContinuous now tag desp details = onAnnotation (annotateContinuousColor now tag desp details COLOR_USER)"

definition AnnotateTest :: "int \<Rightarrow> string \<Rightarrow> nat \<Rightarrow> AnnotationState \<Rightarrow> AnnotationState" where
  "AnnotateTest now desp n st =
     (let details = desp @ '' ('' @ decimal n @ '' servers)'';
          st = st\<lparr>finfo := Some (mkFrameworkInfo n)\<rparr>;
          st = onAnnotation clear st
      in AnnotateInfo now details details st)"

definition AnnotateCheckerBegin :: "int \<Rightarrow> string \<Rightarrow> AnnotationState \<Rightarrow> panic + AnnotationState" where
  "AnnotateCheckerBegin now details st =
     (case finfo st of
        None \<Rightarrow> Inl NilDereference
      | Some fi \<Rightarrow> Inr (st\<lparr>finfo := Some (fi\<lparr>ckbegin := \<lparr>ckTs = now, ckDetails = details\<rparr>\<rparr>)\<rparr>))"

text \<open>The begin is read into a local variable, and this variable is reset at the end.\<close>

definition AnnotateCheckerEnd :: "int \<Rightarrow> string \<Rightarrow> string \<Rightarrow> string \<Rightarrow> AnnotationState \<Rightarrow> panic + AnnotationState" where
  "AnnotateCheckerEnd now desp details color st =
     (case finfo st of
        None \<Rightarrow> Inl NilDereference
      | Some fi \<Rightarrow>
          let ck = ckbegin fi
          in if ckTs ck = 0 then Inr (onAnnotation (annotatePointColor now TAG_CHECKER desp details color) st)
             else let d = ckDetails ck @ '': '' @ details
                  in Inr (onAnnotation (annotateIntervalColor now TAG_CHECKER (ckTs ck) desp d color) st))"

definition AnnotateCheckerSuccess :: "int \<Rightarrow> string \<Rightarrow> string \<Rightarrow> AnnotationState \<Rightarrow> panic + AnnotationState" where
  "AnnotateCheckerSuccess now desp details = AnnotateCheckerEnd now desp details COLOR_SUCCESS"

definition AnnotateCheckerFailure :: "int \<Rightarrow> string \<Rightarrow> string \<Rightarrow> AnnotationState \<Rightarrow> panic + AnnotationState" where
  "AnnotateCheckerFailure now desp details = AnnotateCheckerEnd now desp details COLOR_FAILURE"

definition AnnotateCheckerNeutral :: "int \<Rightarrow> string \<Rightarrow> string \<Rightarrow> AnnotationState \<Rightarrow> panic + AnnotationState" where
  "AnnotateCheckerNeutral now desp details = AnnotateCheckerEnd now desp details COLOR_NEUTRAL"

subsection \<open>Faults\<close>

text \<open>The verb \<^verbatim>\<open>%v\<close> on a slice of integers.\<close>

fun joinSpace :: "string list \<Rightarrow> string" where
  "joinSpace [] = ''''"
| "joinSpace [w] = w"
| "joinSpace (w # ws) = w @ '' '' @ joinSpace ws"

definition showInts :: "nat list \<Rightarrow> string" where
  "showInts ns = ''['' @ joinSpace (map decimal ns) @ '']''"

definition faultText :: "bool list \<Rightarrow> bool list \<Rightarrow> string" where
  "faultText conns crashed =
     (let crashes = filter (\<lambda>i. crashed ! i) [0..<length conns];
          conn = filter (\<lambda>i. \<not> crashed ! i \<and> conns ! i) [0..<length conns];
          alone = filter (\<lambda>i. \<not> crashed ! i \<and> \<not> conns ! i) [0..<length conns]
      in ''partition = '' @ concat (map (\<lambda>i. ''['' @ decimal i @ ''] '') alone)
         @ (if length conn > 0 then showInts conn else '''')
         @ (if length crashes > 0 then '' / crash = '' @ showInts crashes else ''''))"

definition annotateFault :: "int \<Rightarrow> FrameworkInfo \<Rightarrow> Annotation \<Rightarrow> Annotation" where
  "annotateFault now fi an =
     (if replicate (nservers fi) True = fiConnected fi \<and> replicate (nservers fi) False = fiCrashed fi
      then annotateContinuousEnd now TAG_PARTITION an
      else let txt = faultText (fiConnected fi) (fiCrashed fi)
           in annotateContinuousColor now TAG_PARTITION txt txt COLOR_FAULT an)"

text \<open>\<^verbatim>\<open>copy\<close> copies as many elements as both slices have.\<close>

definition copySlice :: "'a list \<Rightarrow> 'a list \<Rightarrow> 'a list" where
  "copySlice dst src = take (length dst) src @ drop (length src) dst"

definition setFault :: "int \<Rightarrow> FrameworkInfo \<Rightarrow> AnnotationState \<Rightarrow> AnnotationState" where
  "setFault now fi st = onAnnotation (annotateFault now fi) (st\<lparr>finfo := Some fi\<rparr>)"

definition AnnotateConnection :: "int \<Rightarrow> bool list \<Rightarrow> AnnotationState \<Rightarrow> panic + AnnotationState" where
  "AnnotateConnection now connection st =
     (case finfo st of
        None \<Rightarrow> Inl NilDereference
      | Some fi \<Rightarrow>
          if fiConnected fi = connection then Inr st
          else Inr (setFault now (fi\<lparr>fiConnected := copySlice (fiConnected fi) connection\<rparr>) st))"

text \<open>The loop over the servers: the flag that something changed, and the slice.\<close>

fun markCrashed :: "bool \<Rightarrow> int list \<Rightarrow> bool \<Rightarrow> bool list \<Rightarrow> panic + bool \<times> bool list" where
  "markCrashed v [] changed crashed = Inr (changed, crashed)"
| "markCrashed v (i # servers) changed crashed =
     (if 0 \<le> i \<and> i < int (length crashed)
      then markCrashed v servers (changed \<or> crashed ! nat i \<noteq> v) (crashed[nat i := v])
      else Inl IndexOutOfRange)"

definition crashServers :: "bool \<Rightarrow> int \<Rightarrow> int list \<Rightarrow> AnnotationState \<Rightarrow> panic + AnnotationState" where
  "crashServers v now servers st =
     (case finfo st of
        None \<Rightarrow> Inl NilDereference
      | Some fi \<Rightarrow>
          (case markCrashed v servers False (fiCrashed fi) of
             Inl p \<Rightarrow> Inl p
           | Inr (changed, crashed) \<Rightarrow>
               let fi = fi\<lparr>fiCrashed := crashed\<rparr>
               in if \<not> changed then Inr (st\<lparr>finfo := Some fi\<rparr>) else Inr (setFault now fi st)))"

definition AnnotateShutdown :: "int \<Rightarrow> int list \<Rightarrow> AnnotationState \<Rightarrow> panic + AnnotationState" where
  "AnnotateShutdown = crashServers True"

definition AnnotateRestart :: "int \<Rightarrow> int list \<Rightarrow> AnnotationState \<Rightarrow> panic + AnnotationState" where
  "AnnotateRestart = crashServers False"

definition allServers :: "AnnotationState \<Rightarrow> panic + int list" where
  "allServers st = (case finfo st of None \<Rightarrow> Inl NilDereference | Some fi \<Rightarrow> Inr (map int [0..<nservers fi]))"

definition AnnotateShutdownAll :: "int \<Rightarrow> AnnotationState \<Rightarrow> panic + AnnotationState" where
  "AnnotateShutdownAll now st = (case allServers st of Inl p \<Rightarrow> Inl p | Inr servers \<Rightarrow> AnnotateShutdown now servers st)"

definition AnnotateRestartAll :: "int \<Rightarrow> AnnotationState \<Rightarrow> panic + AnnotationState" where
  "AnnotateRestartAll now st = (case allServers st of Inl p \<Rightarrow> Inl p | Inr servers \<Rightarrow> AnnotateRestart now servers st)"

definition AnnotateTwoPartitions :: "int \<Rightarrow> nat list \<Rightarrow> nat list \<Rightarrow> AnnotationState \<Rightarrow> AnnotationState" where
  "AnnotateTwoPartitions now p1 p2 =
     (let txt = ''partition = '' @ showInts p1 @ '' '' @ showInts p2
      in onAnnotation (annotateContinuousColor now TAG_PARTITION txt txt COLOR_FAULT))"

definition AnnotateClearFailure :: "int \<Rightarrow> AnnotationState \<Rightarrow> panic + AnnotationState" where
  "AnnotateClearFailure now st =
     (case finfo st of
        None \<Rightarrow> Inl NilDereference
      | Some fi \<Rightarrow> Inr (onAnnotation (annotateContinuousEnd now TAG_PARTITION)
          (st\<lparr>finfo := Some (fi\<lparr>fiCrashed := replicate (length (fiCrashed fi)) False, fiConnected := replicate (length (fiConnected fi)) True\<rparr>)\<rparr>)))"

definition AnnotateCheckerFailureBeforeExit :: "string \<Rightarrow> int \<Rightarrow> int \<Rightarrow> int \<Rightarrow> string \<Rightarrow> string \<Rightarrow> AnnotationState \<Rightarrow> panic + PorcupineAnnotation list option \<times> AnnotationState" where
  "AnnotateCheckerFailureBeforeExit enabled now now' now'' desp details st =
     (case AnnotateCheckerFailure now desp details st of
        Inl p \<Rightarrow> Inl p
      | Inr st \<Rightarrow> let (x, an) = cleanup enabled now' now'' True ''test failed'' (annotation st) in Inr (x, st\<lparr>annotation := an\<rparr>))"

definition SetAnnotationFinalized :: "AnnotationState \<Rightarrow> AnnotationState" where
  "SetAnnotationFinalized = onAnnotation (\<lambda>an. an\<lparr>finalized := True\<rparr>)"

definition GetAnnotationFinalized :: "AnnotationState \<Rightarrow> bool" where
  "GetAnnotationFinalized st = finalized (annotation st)"

subsection \<open>Continuing annotations\<close>

lemma continuous_put:
  "annotateContinuousColor now tag d e c an =
     an\<lparr>annotations := annotations an @ (case map_of (anContinuous an) tag of None \<Rightarrow> [] | Some cont \<Rightarrow> [concretize now tag cont]),
        anContinuous := gm_put tag \<lparr>coStart = now, coDesp = d, coDetails = e, coColor = c\<rparr> (anContinuous an)\<rparr>"
  by (simp add: annotateContinuousColor_def Let_def split: option.splits)

text \<open>A change of a continuing annotation: time, description, details and colour.\<close>

type_synonym change = "int \<times> string \<times> string \<times> string"

definition applyChange :: "string \<Rightarrow> change \<Rightarrow> Annotation \<Rightarrow> Annotation" where
  "applyChange tag ch an = (case ch of (t, d, e, c) \<Rightarrow> annotateContinuousColor t tag d e c an)"

definition spanOf :: "string \<Rightarrow> change \<Rightarrow> int \<Rightarrow> PorcupineAnnotation" where
  "spanOf tag ch t' = (case ch of (t, d, e, c) \<Rightarrow> \<lparr>paTag = tag, paStart = t, paEnd = t', paDescription = d, paDetails = e, paColor = c\<rparr>)"

definition contOf :: "change \<Rightarrow> Continuous" where
  "contOf ch = (case ch of (t, d, e, c) \<Rightarrow> \<lparr>coStart = t, coDesp = d, coDetails = e, coColor = c\<rparr>)"

lemma concretize_contOf: "concretize t tag (contOf ch) = spanOf tag ch t"
  by (simp add: concretize_def contOf_def spanOf_def split: prod.splits)

lemma applyChange_eq:
  "applyChange tag ch an =
     an\<lparr>annotations := annotations an @ (case map_of (anContinuous an) tag of None \<Rightarrow> [] | Some cont \<Rightarrow> [concretize (fst ch) tag cont]),
        anContinuous := gm_put tag (contOf ch) (anContinuous an)\<rparr>"
  by (cases ch) (simp add: applyChange_def continuous_put contOf_def split: option.split)

lemma changes_from:
  assumes "gomap_ok (anContinuous an)" "map_of (anContinuous an) tag = Some (contOf ch)"
  shows "annotations (fold (applyChange tag) chs an) = annotations an @ map2 (spanOf tag) (butlast (ch # chs)) (map fst chs)
    \<and> map_of (anContinuous (fold (applyChange tag) chs an)) tag = Some (contOf (last (ch # chs)))
    \<and> gomap_ok (anContinuous (fold (applyChange tag) chs an))
    \<and> (\<forall>t. t \<noteq> tag \<longrightarrow> map_of (anContinuous (fold (applyChange tag) chs an)) t = map_of (anContinuous an) t)"
  using assms
proof (induction chs arbitrary: an ch)
  case (Cons ch' chs)
  let ?an = "applyChange tag ch' an"
  have e: "annotations ?an = annotations an @ [spanOf tag ch (fst ch')]" "anContinuous ?an = gm_put tag (contOf ch') (anContinuous an)"
    using Cons.prems(2) by (simp_all add: applyChange_eq concretize_contOf)
  have "gomap_ok (anContinuous ?an)" "map_of (anContinuous ?an) tag = Some (contOf ch')"
    using Cons.prems(1) by (simp_all add: e(2) gomap_ok_put map_of_gm_put)
  from Cons.IH[OF this] show ?case by (auto simp: e map_of_gm_put)
qed simp

lemma filter_tag:
  "gomap_ok m \<Longrightarrow> map_of m tag = Some c \<Longrightarrow> filter (\<lambda>a. paTag a = tag) (map (\<lambda>(tag, cont). concretize now tag cont) m) = [concretize now tag c]"
proof (induction m)
  case (Cons x m)
  then show ?case by (cases x) (force simp: concretize_def filter_empty_conv split: if_splits dest: map_of_SomeD)
qed simp

subsection \<open>Faults\<close>

definition healthy :: "FrameworkInfo \<Rightarrow> bool" where
  "healthy fi \<longleftrightarrow> (\<forall>b \<in> set (fiConnected fi). b) \<and> (\<forall>b \<in> set (fiCrashed fi). \<not> b)"

definition info_ok :: "FrameworkInfo \<Rightarrow> bool" where
  "info_ok fi \<longleftrightarrow> length (fiConnected fi) = nservers fi \<and> length (fiCrashed fi) = nservers fi"

text \<open>The fault annotation goes on exactly while there is a fault, and says which one.\<close>

definition fault_shown :: "FrameworkInfo \<Rightarrow> Annotation \<Rightarrow> bool" where
  "fault_shown fi an \<longleftrightarrow> gomap_ok (anContinuous an) \<and>
     (case map_of (anContinuous an) TAG_PARTITION of
        None \<Rightarrow> healthy fi
      | Some cont \<Rightarrow> \<not> healthy fi \<and> coDesp cont = faultText (fiConnected fi) (fiCrashed fi))"

definition faults_ok :: "AnnotationState \<Rightarrow> bool" where
  "faults_ok st \<longleftrightarrow> (\<exists>fi. finfo st = Some fi \<and> info_ok fi \<and> fault_shown fi (annotation st))"

lemma replicate_eq: "replicate n v = xs \<longleftrightarrow> length xs = n \<and> (\<forall>x \<in> set xs. x = v)"
  by (metis length_replicate replicate_eqI in_set_replicate)

lemma healthy_replicate:
  "info_ok fi \<Longrightarrow> replicate (nservers fi) True = fiConnected fi \<and> replicate (nservers fi) False = fiCrashed fi \<longleftrightarrow> healthy fi"
  by (auto simp: replicate_eq info_ok_def healthy_def)

lemma fault_shown_annotate:
  assumes "info_ok fi" "gomap_ok (anContinuous an)"
  shows "fault_shown fi (annotateFault now fi an)"
  using assms(2) unfolding annotateFault_def healthy_replicate[OF assms(1)]
  by (auto simp: fault_shown_def annotateContinuousEnd_def continuous_put Let_def gomap_ok_put gomap_ok_del map_of_gm_put map_of_gm_del)

lemma faults_ok_set: "info_ok fi \<Longrightarrow> faults_ok st \<Longrightarrow> faults_ok (setFault now fi st)"
  by (auto simp: faults_ok_def setFault_def onAnnotation_def fault_shown_def intro!: fault_shown_annotate[unfolded fault_shown_def])

lemma length_copySlice [simp]: "length (copySlice dst src) = length dst"
  by (simp add: copySlice_def)

lemma markCrashed_ok:
  "\<forall>i \<in> set servers. 0 \<le> i \<and> i < int (length crashed) \<Longrightarrow>
   \<exists>c' cr'. markCrashed v servers changed crashed = Inr (c', cr') \<and> length cr' = length crashed \<and> (\<not> c' \<longrightarrow> \<not> changed \<and> cr' = crashed)
     \<and> (\<forall>j < length crashed. cr' ! j = (if int j \<in> set servers then v else crashed ! j))"
proof (induction servers arbitrary: changed crashed)
  case (Cons i servers)
  have i: "0 \<le> i" "i < int (length crashed)" using Cons.prems by simp_all
  have "\<forall>i' \<in> set servers. 0 \<le> i' \<and> i' < int (length (crashed[nat i := v]))" using Cons.prems by simp
  from Cons.IH[OF this, of "changed \<or> crashed ! nat i \<noteq> v"] obtain c' cr' where
      m: "markCrashed v servers (changed \<or> crashed ! nat i \<noteq> v) (crashed[nat i := v]) = Inr (c', cr')" and
      l: "length cr' = length crashed" and
      c: "\<not> c' \<longrightarrow> \<not> changed \<and> crashed ! nat i = v \<and> cr' = crashed[nat i := v]" and
      n: "\<forall>j < length crashed. cr' ! j = (if int j \<in> set servers then v else crashed[nat i := v] ! j)"
    by auto
  have "\<not> c' \<longrightarrow> \<not> changed \<and> cr' = crashed" using c list_update_same[of crashed "nat i" v] by blast
  moreover have "\<forall>j < length crashed. cr' ! j = (if int j \<in> set (i # servers) then v else crashed ! j)"
    using n i by (auto simp: nth_list_update)
  ultimately show ?case using i m l by simp
qed simp

lemma crashServers_ok:
  assumes "faults_ok st" "finfo st = Some fi" "\<forall>i \<in> set servers. 0 \<le> i \<and> i < int (nservers fi)"
  shows "\<exists>st' fi'. crashServers v now servers st = Inr st' \<and> faults_ok st' \<and> finfo st' = Some fi' \<and> nservers fi' = nservers fi
    \<and> fiConnected fi' = fiConnected fi \<and> (\<forall>j < nservers fi. fiCrashed fi' ! j = (if int j \<in> set servers then v else fiCrashed fi ! j))"
proof -
  have ok: "info_ok fi" "fault_shown fi (annotation st)" using assms(1,2) by (auto simp: faults_ok_def)
  then have n: "length (fiCrashed fi) = nservers fi" by (simp add: info_ok_def)
  obtain c' cr' where m: "markCrashed v servers False (fiCrashed fi) = Inr (c', cr')" "length cr' = nservers fi" "\<not> c' \<longrightarrow> cr' = fiCrashed fi"
      "\<forall>j < nservers fi. cr' ! j = (if int j \<in> set servers then v else fiCrashed fi ! j)"
    using markCrashed_ok[of servers "fiCrashed fi" v False] assms(3) unfolding n by auto
  let ?fi = "fi\<lparr>fiCrashed := cr'\<rparr>"
  have i: "info_ok ?fi" using ok(1) m(2) by (simp add: info_ok_def)
  show ?thesis
  proof (cases c')
    case True
    then have "crashServers v now servers st = Inr (setFault now ?fi st)" using assms(2) m(1) by (simp add: crashServers_def)
    moreover have "finfo (setFault now ?fi st) = Some ?fi" by (simp add: setFault_def onAnnotation_def)
    ultimately show ?thesis using faults_ok_set[OF i assms(1)] m(4) by simp
  next
    case False
    then have "?fi = fi" using m(3) by simp
    then have "crashServers v now servers st = Inr (st\<lparr>finfo := Some fi\<rparr>)" using assms(2) m(1) False by (simp add: crashServers_def)
    moreover have "faults_ok (st\<lparr>finfo := Some fi\<rparr>)" using ok by (simp add: faults_ok_def)
    ultimately show ?thesis using m(4) \<open>?fi = fi\<close> by (metis (no_types, lifting) FrameworkInfo.select_convs(3) FrameworkInfo.surjective FrameworkInfo.update_convs(3) AnnotationState.select_convs(2) AnnotationState.surjective AnnotationState.update_convs(2))
  qed
qed

text \<open>The calls of the test framework that change the faults.\<close>

datatype fault_op = Connection "bool list" | Shutdown "int list" | Restart "int list" | ShutdownAll | RestartAll | ClearFailure

fun faultStep :: "int \<times> fault_op \<Rightarrow> AnnotationState \<Rightarrow> panic + AnnotationState" where
  "faultStep (now, Connection c) st = AnnotateConnection now c st"
| "faultStep (now, Shutdown ids) st = AnnotateShutdown now ids st"
| "faultStep (now, Restart ids) st = AnnotateRestart now ids st"
| "faultStep (now, ShutdownAll) st = AnnotateShutdownAll now st"
| "faultStep (now, RestartAll) st = AnnotateRestartAll now st"
| "faultStep (now, ClearFailure) st = AnnotateClearFailure now st"

definition faultRun :: "(int \<times> fault_op) list \<Rightarrow> AnnotationState \<Rightarrow> panic + AnnotationState" where
  "faultRun = forEach faultStep"

fun ids_ok :: "nat \<Rightarrow> fault_op \<Rightarrow> bool" where
  "ids_ok n (Shutdown ids) = (\<forall>i \<in> set ids. 0 \<le> i \<and> i < int n)"
| "ids_ok n (Restart ids) = (\<forall>i \<in> set ids. 0 \<le> i \<and> i < int n)"
| "ids_ok n _ = True"

definition tracks :: "nat \<Rightarrow> AnnotationState \<Rightarrow> bool" where
  "tracks n st \<longleftrightarrow> faults_ok st \<and> (\<exists>fi. finfo st = Some fi \<and> nservers fi = n)"

lemma tracks_crash: "tracks n st \<Longrightarrow> \<forall>i \<in> set ids. 0 \<le> i \<and> i < int n \<Longrightarrow> \<exists>st'. crashServers v now ids st = Inr st' \<and> tracks n st'"
  unfolding tracks_def using crashServers_ok by metis

lemma tracks_connection: "tracks n st \<Longrightarrow> \<exists>st'. AnnotateConnection now c st = Inr st' \<and> tracks n st'"
proof -
  assume t: "tracks n st"
  then obtain fi where fi: "finfo st = Some fi" "nservers fi = n" "faults_ok st" by (auto simp: tracks_def)
  then have "info_ok fi" by (auto simp: faults_ok_def)
  then have "info_ok (fi\<lparr>fiConnected := copySlice (fiConnected fi) c\<rparr>)" by (simp add: info_ok_def)
  from faults_ok_set[OF this fi(3)] show ?thesis using fi t
    by (simp add: AnnotateConnection_def tracks_def setFault_def onAnnotation_def)
qed

lemma healthy_clear:
  "healthy (fi\<lparr>fiCrashed := replicate a False, fiConnected := replicate b True\<rparr>)"
  by (simp add: healthy_def)

lemma tracks_clear: "tracks n st \<Longrightarrow> \<exists>st'. AnnotateClearFailure now st = Inr st' \<and> tracks n st'"
proof -
  assume "tracks n st"
  then obtain fi where fi: "finfo st = Some fi" "nservers fi = n" "info_ok fi" "fault_shown fi (annotation st)"
    by (auto simp: tracks_def faults_ok_def)
  let ?fi = "fi\<lparr>fiCrashed := replicate (length (fiCrashed fi)) False, fiConnected := replicate (length (fiConnected fi)) True\<rparr>"
  have "info_ok ?fi" using fi(3) by (simp add: info_ok_def)
  moreover have "fault_shown ?fi (annotateContinuousEnd now TAG_PARTITION (annotation st))"
    using fi(4) healthy_clear by (simp add: fault_shown_def annotateContinuousEnd_def)
  ultimately show ?thesis using fi(1,2) by (simp add: AnnotateClearFailure_def tracks_def faults_ok_def onAnnotation_def)
qed

lemma tracks_step: "tracks n st \<Longrightarrow> ids_ok n op \<Longrightarrow> \<exists>st'. faultStep (now, op) st = Inr st' \<and> tracks n st'"
proof (cases op)
  assume t: "tracks n st"
  then have all: "allServers st = Inr (map int [0..<n])" by (auto simp: tracks_def allServers_def)
  have r: "\<forall>i \<in> set (map int [0..<n]). 0 \<le> i \<and> i < int n" by auto
  {
    case ShutdownAll
    then show ?thesis using tracks_crash[OF t r] all by (simp add: AnnotateShutdownAll_def AnnotateShutdown_def)
  next
    case RestartAll
    then show ?thesis using tracks_crash[OF t r] all by (simp add: AnnotateRestartAll_def AnnotateRestart_def)
  }
qed (simp_all add: AnnotateShutdown_def AnnotateRestart_def tracks_crash tracks_connection tracks_clear)

interpretation faults: safe_steps faultStep "tracks n" "\<lambda>(now, op). ids_ok n op" for n
  by unfold_locales (use tracks_step in auto)

lemma tracks_test: "tracks n (AnnotateTest now desp n st)"
  by (simp add: AnnotateTest_def tracks_def faults_ok_def fault_shown_def info_ok_def healthy_def mkFrameworkInfo_def
      AnnotateInfo_def onAnnotation_def annotatePointColor_def clear_def Let_def)

lemma fault_shown_iff:
  "fault_shown fi an \<longleftrightarrow> gomap_ok (anContinuous an) \<and> (map_of (anContinuous an) TAG_PARTITION \<noteq> None \<longleftrightarrow> \<not> healthy fi)
     \<and> (\<forall>cont. map_of (anContinuous an) TAG_PARTITION = Some cont \<longrightarrow> coDesp cont = faultText (fiConnected fi) (fiCrashed fi))"
  by (auto simp: fault_shown_def split: option.splits)



text \<open>
  The changes of a continuing annotation give intervals without gaps: when a tag that is not going on changes
  at times \<open>t0, t1, ..., tk\<close>, then the annotations of the tag that \<open>finalize\<close> returns are those from before, an interval
  from each change to the next with the text of its change, and one from the last change to the end.
\<close>

theorem continuous_covers:
  assumes "gomap_ok (anContinuous an)" "map_of (anContinuous an) tag = None"
  shows "filter (\<lambda>a. paTag a = tag) (fst (finalize now (fold (applyChange tag) (ch # chs) an))) =
    filter (\<lambda>a. paTag a = tag) (annotations an) @ map2 (spanOf tag) (ch # chs) (map fst chs @ [now])"
proof -
  let ?an = "applyChange tag ch an"
  have e: "annotations ?an = annotations an" "gomap_ok (anContinuous ?an)" "map_of (anContinuous ?an) tag = Some (contOf ch)"
    using assms by (simp_all add: applyChange_eq)
  note c = changes_from[OF e(2,3), of chs]
  have s: "filter (\<lambda>a. paTag a = tag) (map2 (spanOf tag) xs ys) = map2 (spanOf tag) xs ys" for xs :: "change list" and ys
    by (auto simp: filter_id_conv spanOf_def split: prod.splits)
  have "map2 (spanOf tag) (ch # chs) (map fst chs @ [now]) =
      map2 (spanOf tag) (butlast (ch # chs) @ [last (ch # chs)]) (map fst chs @ [now])" by (simp only: append_butlast_last_id[OF list.distinct(2)])
  also have "\<dots> = map2 (spanOf tag) (butlast (ch # chs)) (map fst chs) @ [spanOf tag (last (ch # chs)) now]" by (simp del: butlast.simps last.simps append_butlast_last_id)
  finally show ?thesis using c e(1)
    by (simp add: finalize_def filter_tag[OF _ conjunct1[OF conjunct2[OF c]]] s concretize_contOf del: butlast.simps last.simps)
qed

theorem continuous_covers_witness:
  "filter (\<lambda>a. paTag a = ''x'') (fst (finalize 9 (fold (applyChange ''x'') [(1, ''a'', ''b'', ''c''), (4, ''d'', ''e'', ''f'')] mkAnnotation))) =
    [\<lparr>paTag = ''x'', paStart = 1, paEnd = 4, paDescription = ''a'', paDetails = ''b'', paColor = ''c''\<rparr>,
     \<lparr>paTag = ''x'', paStart = 4, paEnd = 9, paDescription = ''d'', paDetails = ''e'', paColor = ''f''\<rparr>]"
  using continuous_covers[of mkAnnotation "''x''" 9 "(1, ''a'', ''b'', ''c'')" "[(4, ''d'', ''e'', ''f'')]"]
  by (simp add: mkAnnotation_def spanOf_def)

text \<open>
  A tag that does not go on and is ended nevertheless gives an annotation that starts at time 0 without any text,
  although the comment says that there is nothing to end.
\<close>

theorem stray_end:
  assumes "map_of (anContinuous an) tag = None"
  shows "annotations (annotateContinuousEnd now tag an) =
    annotations an @ [\<lparr>paTag = tag, paStart = 0, paEnd = now, paDescription = '''', paDetails = '''', paColor = ''''\<rparr>]"
  using assms by (simp add: annotateContinuousEnd_def gm_get_def noContinuous_def concretize_def)

theorem stray_end_witness:
  "annotations (annotateContinuousEnd 7 TAG_PARTITION mkAnnotation) =
    [\<lparr>paTag = TAG_PARTITION, paStart = 0, paEnd = 7, paDescription = '''', paDetails = '''', paColor = ''''\<rparr>]"
  using stray_end[of mkAnnotation TAG_PARTITION 7] by (simp add: mkAnnotation_def)

text \<open>
  The begin of a check outlives the check: the end of a check resets a local copy, so a second end without a
  begin of its own draws an interval from the first begin, with its details.
\<close>

theorem checker_end_keeps_begin:
  assumes "finfo st = Some fi" "t \<noteq> 0"
  shows "\<exists>st1 st2 st3. AnnotateCheckerBegin t b st = Inr st1 \<and> AnnotateCheckerEnd t1 d1 e1 c1 st1 = Inr st2 \<and> AnnotateCheckerEnd t2 d2 e2 c2 st2 = Inr st3
    \<and> last (annotations (annotation st3)) = \<lparr>paTag = TAG_CHECKER, paStart = t, paEnd = t2, paDescription = d2, paDetails = b @ '': '' @ e2, paColor = c2\<rparr>"
  using assms by (simp add: AnnotateCheckerBegin_def AnnotateCheckerEnd_def onAnnotation_def annotateIntervalColor_def)

theorem checker_end_keeps_begin_witness:
  "\<exists>st1 st2 st3. AnnotateCheckerBegin 3 ''b'' \<lparr>annotation = mkAnnotation, finfo = Some (mkFrameworkInfo 1)\<rparr> = Inr st1
    \<and> AnnotateCheckerEnd 4 ''d'' ''e'' ''c'' st1 = Inr st2 \<and> AnnotateCheckerEnd 8 ''f'' ''g'' ''c'' st2 = Inr st3
    \<and> last (annotations (annotation st3)) = \<lparr>paTag = TAG_CHECKER, paStart = 3, paEnd = 8, paDescription = ''f'', paDetails = ''b: g'', paColor = ''c''\<rparr>"
  using checker_end_keeps_begin[of "\<lparr>annotation = mkAnnotation, finfo = Some (mkFrameworkInfo 1)\<rparr>" "mkFrameworkInfo 1" 3 "''b''" 4 "''d''" "''e''" "''c''" 8 "''f''" "''g''" "''c''"]
  by simp

end
