(* ===== verification/TestKV.thy ===== *)
theory TestKV
  imports TestGroups Annotations Messages
begin

text \<open>
  The helpers of the key/value tests, \<^verbatim>\<open>kvsrv/internal/testkv/testkv.go\<close>, with what they use of \<^verbatim>\<open>tester/config.go\<close> and \<^verbatim>\<open>tester/kvmodel.go\<close>: random names and
  handles, contexts with a counter, retried puts, checks of results, the partitioner, and the sequential model of the store. A clerk is a pair of functions
  on a state \<open>'s\<close>; random draws and readings of the clock are arguments. \<^verbatim>\<open>Fatalf\<close> ends a test: its outcome is a value of type \<open>failure\<close>. The helpers that
  encode values as JSON are not modelled.
\<close>

subsection \<open>Random names and handles\<close>

text \<open>\<^verbatim>\<open>base64.URLEncoding\<close> with padding.\<close>

definition base64Alphabet :: string where
  "base64Alphabet = ''ABCDEFGHIJKLMNOPQRSTUVWXYZabcdefghijklmnopqrstuvwxyz0123456789-_''"

definition base64Char :: "nat \<Rightarrow> char" where
  "base64Char n = base64Alphabet ! (n mod 64)"

fun base64_EncodeToString :: "bytes \<Rightarrow> string" where
  "base64_EncodeToString [] = ''''"
| "base64_EncodeToString [a] = [base64Char (unat a div 4), base64Char (unat a * 16), CHR ''='', CHR ''='']"
| "base64_EncodeToString [a, b] =
     [base64Char (unat a div 4), base64Char (unat a * 16 + unat b div 16), base64Char (unat b * 4), CHR ''='']"
| "base64_EncodeToString (a # b # c # bs) =
     [base64Char (unat a div 4), base64Char (unat a * 16 + unat b div 16), base64Char (unat b * 4 + unat c div 64), base64Char (unat c)]
     @ base64_EncodeToString bs"

text \<open>\<open>b\<close> are the \<open>2 n\<close> bytes that are drawn.\<close>

definition Randstring :: "nat \<Rightarrow> bytes \<Rightarrow> panic + string" where
  "Randstring n b = (let s = base64_EncodeToString b in if n \<le> length s then Inr (take n s) else Inl IndexOutOfRange)"

text \<open>The exchange of every handle with one before it; \<open>draws\<close> are the results of \<^verbatim>\<open>rand.Intn\<close>.\<close>

fun shuffle :: "nat \<Rightarrow> nat list \<Rightarrow> 'a list \<Rightarrow> 'a list" where
  "shuffle i [] sa = sa"
| "shuffle i (j # draws) sa = shuffle (Suc i) draws (swap i j sa)"

definition random_handles :: "nat list \<Rightarrow> 'a list \<Rightarrow> 'a list" where
  "random_handles draws kvh = shuffle 0 draws kvh"

definition letterBytes :: string where
  "letterBytes = ''abcdefghijklmnopqrstuvwxyzABCDEFGHIJKLMNOPQRSTUVWXYZ''"

definition RandValue :: "nat list \<Rightarrow> string" where
  "RandValue draws = map (\<lambda>d. letterBytes ! (d mod length letterBytes)) draws"

definition MakeKeys :: "nat \<Rightarrow> string list" where
  "MakeKeys n = map (\<lambda>i. ''k'' @ Itoa (int i)) [0..<n]"

subsection \<open>Contexts\<close>

definition testContextNode :: string where "testContextNode = ''__test__''"

definition CtxOf :: "u64 \<Rightarrow> u64 \<Rightarrow> Context" where
  "CtxOf now counter =
     (let vc = NewVClock; vc = (if counter > 0 then SetVersion testContextNode counter vc else vc) in NewContextFromVClock now vc)"

definition ZeroContext :: "u64 \<Rightarrow> Context" where
  "ZeroContext now = NewContext now"

definition Counter :: "Context \<Rightarrow> u64" where
  "Counter c = fold (\<lambda>(node, ver) total. total + ver) (VC c) 0"

definition nextContext :: "u64 \<Rightarrow> Context \<Rightarrow> string \<Rightarrow> Context" where
  "nextContext now c value = UpdateCtx now testContextNode value (c\<lparr>VC := CopyVC (VC c)\<rparr>)"

subsection \<open>Clerks and tests\<close>

text \<open>The functions of a clerk, and the state of a test: the clerk's world, the counter of operations, and the annotations.\<close>

record 's IKVClerk =
  ckGet :: "string \<Rightarrow> 's \<Rightarrow> (string \<times> Context \<times> Err) \<times> 's"
  ckPut :: "string \<Rightarrow> string \<Rightarrow> Context \<Rightarrow> 's \<Rightarrow> Err \<times> 's"

record 's TestState =
  world :: 's
  ops :: "32 word"
  annots :: AnnotationState

datatype failure =
    PanicIn panic
  | PutFailed Err
  | GetFailed Err
  | WrongValue string u64
  | WrongOrder int
  | WrongPuts u64
  | TooManySkipped int
  | TooManyPuts int

definition OpInc :: "'s TestState \<Rightarrow> 's TestState" where
  "OpInc ts = ts\<lparr>ops := ops ts + 1\<rparr>"

definition testGet :: "'s IKVClerk \<Rightarrow> string \<Rightarrow> 's TestState \<Rightarrow> (string \<times> Context \<times> Err) \<times> 's TestState" where
  "testGet ck key ts = (let ts = OpInc ts; (r, w) = ckGet ck key (world ts) in (r, ts\<lparr>world := w\<rparr>))"

definition testPut :: "'s IKVClerk \<Rightarrow> string \<Rightarrow> string \<Rightarrow> Context \<Rightarrow> 's TestState \<Rightarrow> Err \<times> 's TestState" where
  "testPut ck key value ctx ts = (let ts = OpInc ts; (e, w) = ckPut ck key value ctx (world ts) in (e, ts\<lparr>world := w\<rparr>))"

text \<open>
  The loop of \<open>PutAtLeastOnce\<close>. \<open>clock i\<close> is the time in the \<open>i\<close>th round. The loop goes on for ever when puts keep failing.
\<close>

partial_function (option) putLoop :: "'s IKVClerk \<Rightarrow> string \<Rightarrow> string \<Rightarrow> (nat \<Rightarrow> u64) \<Rightarrow> nat \<Rightarrow> Context \<Rightarrow> 's TestState
    \<Rightarrow> ((failure + Context) \<times> 's TestState) option" where
  "putLoop ck key value clock i ver ts =
     (let (err, ts) = testPut ck key value ver ts
      in if err = OK then Some (Inr (nextContext (clock i) ver value), ts)
         else if err = ErrMaybe \<or> err = ErrVersion then putLoop ck key value clock (Suc i) (nextContext (clock i) ver value) ts
         else if Counter ver \<noteq> 0 then Some (Inl (PutFailed err), ts)
         else putLoop ck key value clock (Suc i) ver ts)"

definition showU64 :: "u64 \<Rightarrow> string" where "showU64 w = decimal (unat w)"

definition PutAtLeastOnce :: "'s IKVClerk \<Rightarrow> string \<Rightarrow> string \<Rightarrow> Context \<Rightarrow> (nat \<Rightarrow> u64) \<Rightarrow> int \<Rightarrow> 's TestState
    \<Rightarrow> ((failure + Context) \<times> 's TestState) option" where
  "PutAtLeastOnce ck key value verPrev clock now ts =
     (case putLoop ck key value clock 0 verPrev ts of
        None \<Rightarrow> None
      | Some (Inl f, ts) \<Rightarrow> Some (Inl f, ts)
      | Some (Inr ver, ts) \<Rightarrow>
          let desp = ''Put('' @ key @ '', '' @ value @ '') completes'';
              details = ''version: '' @ showU64 (Counter verPrev) @ '' -> '' @ showU64 (Counter ver)
          in Some (Inr ver, ts\<lparr>annots := AnnotateInfo now desp details (annots ts)\<rparr>))"

text \<open>The begin of the check is noted, then the get, then its result; \<open>now\<close> and \<open>now'\<close> are the times of the notes. \<open>errText\<close> is the text of an error.\<close>

definition CheckGet :: "(Err \<Rightarrow> string) \<Rightarrow> 's IKVClerk \<Rightarrow> string \<Rightarrow> string \<Rightarrow> Context \<Rightarrow> int \<Rightarrow> int \<Rightarrow> 's TestState \<Rightarrow> failure option \<times> 's TestState" where
  "CheckGet errText ck key value version now now' ts =
     (case AnnotateCheckerBegin now (''checking Get('' @ key @ '') = ('' @ value @ '', '' @ showU64 (Counter version) @ '')'') (annots ts) of
        Inl p \<Rightarrow> (Some (PanicIn p), ts)
      | Inr an \<Rightarrow>
          let ((val, ver, err), ts) = testGet ck key (ts\<lparr>annots := an\<rparr>);
              (failed, text, color, details) =
                (if err \<noteq> OK
                 then let text = ''Get('' @ key @ '') returns error = '' @ errText err in (Some (GetFailed err), text, COLOR_FAILURE, text)
                 else if val \<noteq> value \<or> Counter ver \<noteq> Counter version
                 then let text = ''Get('' @ key @ '') returns ('' @ val @ '', '' @ showU64 (Counter ver) @ '') != ('' @ value @ '', '' @ showU64 (Counter version) @ '')''
                      in (Some (WrongValue val (Counter ver)), text, COLOR_FAILURE, text)
                 else (None, ''Get('' @ key @ '') returns ('' @ val @ '', '' @ showU64 (Counter ver) @ '') as expected'', COLOR_SUCCESS, ''OK''))
          in case AnnotateCheckerEnd now' text details color (annots ts) of
               Inl p \<Rightarrow> (Some (PanicIn p), ts)
             | Inr an \<Rightarrow> (failed, ts\<lparr>annots := an\<rparr>))"

subsection \<open>The configuration of a test\<close>

record Config =
  cfgNet :: Network
  cfgGrps :: "(int, ServerGrp) gomap"
  cfgClnts :: "(nat, Clnt) gomap"
  cfgStart :: Time
  cfgT0 :: Time
  rpcs0 :: int
  cfgOps :: "32 word"

text \<open>The network, a started group 0, and no clients; \<open>draws\<close> and \<open>starts\<close> are the names and daemons of the group's servers.\<close>

definition MakeConfig :: "string list list \<Rightarrow> start list \<Rightarrow> bool \<Rightarrow> Time \<Rightarrow> panic + Config" where
  "MakeConfig draws starts rel now =
     andThen (MakeGroupStart GRP0 draws starts (MakeNetwork, [])) (\<lambda>(net, grps).
       Inr \<lparr>cfgNet = Reliable rel net, cfgGrps = grps, cfgClnts = [], cfgStart = now, cfgT0 = 0, rpcs0 = 0, cfgOps = 0\<rparr>)"

definition BeginTest :: "Time \<Rightarrow> Config \<Rightarrow> Config" where
  "BeginTest now cfg = cfg\<lparr>cfgT0 := now, rpcs0 := GetTotalCount (cfgNet cfg), cfgOps := 0\<rparr>"

text \<open>Whether the two minutes of a test are over: then the test fails.\<close>

definition CheckTimeout :: "Time \<Rightarrow> bool \<Rightarrow> Config \<Rightarrow> bool" where
  "CheckTimeout now failed cfg \<longleftrightarrow> \<not> failed \<and> time_Sub now (cfgStart cfg) > 120 * 1000 * Millisecond"

text \<open>The end of a test that has not failed: the time, the servers of group 0, the requests and the operations.\<close>

definition EndTest :: "Time \<Rightarrow> bool \<Rightarrow> Config \<Rightarrow> panic + (Duration \<times> nat \<times> int \<times> int) option" where
  "EndTest now failed cfg =
     (if failed \<or> CheckTimeout now failed cfg then Inr None
      else case map_of (cfgGrps cfg) GRP0 of
             None \<Rightarrow> Inl NilDereference
           | Some sg \<Rightarrow> Inr (Some (time_Sub now (cfgT0 cfg), grpN sg, GetTotalCount (cfgNet cfg) - rpcs0 cfg, sint (cfgOps cfg))))"

text \<open>The clean-up removes the ends of all clients and shuts down all groups, and then the annotations; the closing of sockets is left out.\<close>

definition CleanupTest :: "(int \<Rightarrow> nat \<Rightarrow> Persister) \<Rightarrow> string \<Rightarrow> int \<Rightarrow> int \<Rightarrow> bool \<Rightarrow> Config \<Rightarrow> AnnotationState
    \<Rightarrow> panic + Config \<times> PorcupineAnnotation list option \<times> AnnotationState" where
  "CleanupTest handed vis now now' failed cfg an =
     andThen (clntsCleanup (cfgNet cfg, cfgClnts cfg)) (\<lambda>(net, clnts).
     andThen (groupsCleanup handed (net, cfgGrps cfg)) (\<lambda>(net, grps).
       let (drawn, a) = cleanup vis now now' failed (if failed then ''test failed'' else ''test passed'') (annotation an)
       in Inr (cfg\<lparr>cfgNet := net, cfgGrps := grps, cfgClnts := clnts\<rparr>, drawn, an\<lparr>annotation := a\<rparr>)))"

subsection \<open>Checks of results\<close>

record ClntRes =
  Nok :: int
  Nmaybe :: int

definition addRes :: "ClntRes \<Rightarrow> ClntRes \<Rightarrow> ClntRes" where
  "addRes r res = \<lparr>Nok = Nok res + Nok r, Nmaybe = Nmaybe res + Nmaybe r\<rparr>"

text \<open>The check after the context \<open>ver0\<close> has been read; the conversion \<^verbatim>\<open>uint64\<close> of an int is \<open>of_int\<close>.\<close>

definition CheckPutConcurrent :: "Context \<Rightarrow> ClntRes list \<Rightarrow> ClntRes \<Rightarrow> bool \<Rightarrow> failure option \<times> ClntRes" where
  "CheckPutConcurrent ver0 rs res rel =
     (let res = fold addRes rs res
      in (if rel then (if Counter ver0 \<noteq> of_int (Nok res) then Some (WrongPuts (Counter ver0)) else None)
          else if Counter ver0 > of_int (Nok res + Nmaybe res) then Some (WrongPuts (Counter ver0)) else None, res))"

record EntryN =
  entId :: int
  entN :: int

type_synonym tallies = "(int, int) gomap \<times> (int, int) gomap"

definition initTallies :: "nat \<Rightarrow> tallies" where
  "initTallies nclnt = fold (\<lambda>i (expect, skipped). (gm_put (int i) 0 expect, gm_put (int i) 0 skipped)) [0..<nclnt] ([], [])"

text \<open>The loop over the entries: what is expected next from each client, and how many numbers were skipped.\<close>

fun tally :: "EntryN list \<Rightarrow> tallies \<Rightarrow> failure + tallies" where
  "tally [] m = Inr m"
| "tally (e # es) (expect, skipped) =
     (if gm_get 0 expect (entId e) > entN e then Inl (WrongOrder (entId e))
      else if gm_get 0 expect (entId e) = entN e then tally es (gm_put (entId e) (gm_get 0 expect (entId e) + 1) expect, skipped)
      else let s = entN e - gm_get 0 expect (entId e)
           in tally es (gm_put (entId e) (entN e + 1) expect, gm_put (entId e) (gm_get 0 skipped (entId e) + s) skipped))"

text \<open>The loop over the clients, in the order of the map \<open>expect\<close>.\<close>

fun checkClients :: "(int, int) gomap \<Rightarrow> (int, int) gomap \<Rightarrow> ClntRes list \<Rightarrow> failure option" where
  "checkClients [] skipped rs = None"
| "checkClients ((c, n) # expect) skipped rs =
     (if c < 0 \<or> int (length rs) \<le> c then Some (PanicIn IndexOutOfRange)
      else if gm_get 0 skipped c > Nmaybe (rs ! nat c) then Some (TooManySkipped c)
      else if n > Nok (rs ! nat c) + Nmaybe (rs ! nat c) then Some (TooManyPuts c)
      else checkClients expect skipped rs)"

definition CheckAppends :: "EntryN list \<Rightarrow> nat \<Rightarrow> ClntRes list \<Rightarrow> Context \<Rightarrow> failure option" where
  "CheckAppends es nclnt rs ver =
     (case tally es (initTallies nclnt) of
        Inl f \<Rightarrow> Some f
      | Inr (expect, skipped) \<Rightarrow>
          if int (length es) + 1 \<noteq> sint (Counter ver) then Some (WrongPuts (Counter ver)) else checkClients expect skipped rs)"

subsection \<open>The partitioner\<close>

text \<open>One round of \<open>Partitioner\<close>; \<open>draws\<close> are the random integers, one for each server.\<close>

definition sides :: "nat list \<Rightarrow> nat list \<times> nat list" where
  "sides draws = (let a = map (\<lambda>d. d mod 2) draws
     in (filter (\<lambda>j. a ! j = 0) [0..<length a], filter (\<lambda>j. a ! j = 1) [0..<length a]))"

definition partitionRound :: "nat list \<Rightarrow> int \<Rightarrow> grpState \<times> AnnotationState \<Rightarrow> panic + grpState \<times> AnnotationState" where
  "partitionRound draws now = (\<lambda>(st, an).
     let (pa0, pa1) = sides draws
     in andThen (Partition pa0 pa1 st) (\<lambda>st. Inr (st, AnnotateTwoPartitions now pa0 pa1 an)))"

subsection \<open>The sequential model of the store\<close>

record KvInput =
  inOp :: u8
  inKey :: string
  inValue :: string
  inVersion :: u64

record KvOutput =
  outValue :: string
  outVersion :: u64
  outErr :: string

text \<open>A state; an operation that is neither a get nor a put has none.\<close>

record KvState =
  stValue :: string
  stVersion :: u64

type_synonym operation = "KvInput \<times> KvOutput"

definition kvInit :: KvState where
  "kvInit = \<lparr>stValue = '''', stVersion = 0\<rparr>"

definition kvStep :: "KvState \<Rightarrow> KvInput \<Rightarrow> KvOutput \<Rightarrow> bool \<times> KvState option" where
  "kvStep st inp out =
     (if inOp inp = 0 then (outValue out = stValue st, Some st)
      else if inOp inp = 1
      then if stVersion st = inVersion inp
           then (outErr out = ''OK'' \<or> outErr out = ''ErrMaybe'', Some \<lparr>stValue = inValue inp, stVersion = stVersion st + 1\<rparr>)
           else (outErr out = ''ErrVersion'' \<or> outErr out = ''ErrMaybe'', Some st)
      else (False, None))"

definition kvPartition :: "operation list \<Rightarrow> operation list list" where
  "kvPartition history =
     (let m = fold (\<lambda>v m. gm_put (inKey (fst v)) (gm_get [] m (inKey (fst v)) @ [v]) m) history [];
          keys = go_sort (<) (map fst m)
      in map (gm_get [] m) keys)"

definition kvDescribe :: "KvInput \<Rightarrow> KvOutput \<Rightarrow> string" where
  "kvDescribe inp out =
     (if inOp inp = 0
      then ''get('' @ [CHR 0x27] @ inKey inp @ [CHR 0x27] @ '') -> ('' @ [CHR 0x27] @ outValue out @ [CHR 0x27] @ '', '' @ [CHR 0x27] @ showU64 (outVersion out) @ [CHR 0x27] @ '', ''
           @ [CHR 0x27] @ outErr out @ [CHR 0x27] @ '')''
      else if inOp inp = 1
      then ''put('' @ [CHR 0x27] @ inKey inp @ [CHR 0x27] @ '', '' @ [CHR 0x27] @ inValue inp @ [CHR 0x27] @ '', '' @ [CHR 0x27] @ showU64 (inVersion inp) @ [CHR 0x27] @ '') -> (''
           @ [CHR 0x27] @ outErr out @ [CHR 0x27] @ '')''
      else ''<invalid>'')"

subsection \<open>Random names and handles: lemmas\<close>

lemma length_base64: "length (base64_EncodeToString b) = 4 * ((length b + 2) div 3)"
  by (induction b rule: base64_EncodeToString.induct) (auto, presburger)

text \<open>
  The string of \<open>Randstring\<close> has the length that was asked for, and \<open>random_handles\<close> only permutes the handles.
\<close>

theorem random_strings_and_handles:
  assumes "length b = 2 * n" "length draws \<le> length kvh" "\<forall>i < length draws. draws ! i \<le> i"
  shows "(\<exists>s. Randstring n b = Inr s \<and> length s = n) \<and> mset (random_handles draws kvh) = mset kvh"
proof
  have "n \<le> 4 * ((2 * n + 2) div 3)" by presburger
  then show "\<exists>s. Randstring n b = Inr s \<and> length s = n" using assms(1) by (simp add: Randstring_def length_base64 Let_def)
  have "mset (shuffle i draws sa) = mset sa" if "i + length draws \<le> length sa" "\<forall>k < length draws. draws ! k \<le> i + k" for i draws and sa :: "'a list"
    using that
  proof (induction draws arbitrary: i sa)
    case (Cons j draws)
    have "j < length sa" "i < length sa" using Cons.prems by force+
    then have "mset (swap i j sa) = mset sa" by (simp add: swap_def mset_swap)
    moreover have "\<forall>k < length draws. draws ! k \<le> Suc i + k" using Cons.prems(2) by force
    ultimately show ?case using Cons.IH[of "Suc i" "swap i j sa"] Cons.prems(1) by (simp add: swap_def)
  qed simp
  from this[of 0 draws kvh] show "mset (random_handles draws kvh) = mset kvh" using assms(2,3) by (simp add: random_handles_def)
qed

theorem random_strings_and_handles_witness:
  "(\<exists>s. Randstring 2 [1, 2, 3, 4] = Inr s \<and> length s = 2) \<and> mset (random_handles [0, 0, 1] [7, 8, 9 :: nat]) = mset [7, 8, 9]"
proof -
  have "\<forall>i < length [0, 0, 1 :: nat]. [0, 0, 1] ! i \<le> i" by (simp add: less_Suc_eq)
  then show ?thesis using random_strings_and_handles[of "[1, 2, 3, 4]" 2 "[0, 0, 1]" "[7, 8, 9 :: nat]"] by simp
qed

subsection \<open>The sequential model: lemmas\<close>

lemma group_fold:
  "gm_get [] (fold (\<lambda>v m. gm_put (k v) (gm_get [] m (k v) @ [v]) m) h m) c = gm_get [] m c @ filter (\<lambda>v. k v = c) h"
  "fst ` set (fold (\<lambda>v m. gm_put (k v) (gm_get [] m (k v) @ [v]) m) h m) = fst ` set m \<union> k ` set h"
  "gomap_ok m \<Longrightarrow> gomap_ok (fold (\<lambda>v m. gm_put (k v) (gm_get [] m (k v) @ [v]) m) h m)"
  by (induction h arbitrary: m) auto

text \<open>
  The model partitions a history by key: one part for each key, in the order of the keys, and each part has the operations on its key in the order of
  the history.
\<close>

theorem kvPartition_by_key:
  "kvPartition h = map (\<lambda>k. filter (\<lambda>v. inKey (fst v) = k) h) (sorted_list_of_set ((\<lambda>v. inKey (fst v)) ` set h))"
proof -
  let ?m = "fold (\<lambda>v m. gm_put (inKey (fst v)) (gm_get [] m (inKey (fst v)) @ [v]) m) h []"
  note g = group_fold[where k = "\<lambda>v. inKey (fst v)" and h = h and m = "[]"]
  have "sort (map fst ?m) = sorted_list_of_set (set (map fst ?m))" using g(3) sorted_list_of_set_sort_remdups[of "map fst ?m"]
    by (simp add: distinct_remdups_id del: list.set_map)
  moreover have "set (map fst ?m) = (\<lambda>v. inKey (fst v)) ` set h" using g(2) by simp
  ultimately show ?thesis unfolding kvPartition_def Let_def go_sort_linorder by (simp add: g(1))
qed

subsection \<open>The partitioner: lemmas\<close>

text \<open>
  After a round of the partitioner two servers of the group are connected exactly if they drew the same side, whatever was connected before.
\<close>

theorem partitioner_links:
  assumes "grp_ok (fst st) (snd st)" "length draws = grpN (snd st)"
  shows "\<exists>st' an'. partitionRound draws now (st, an) = Inr (st', an') \<and> grp_ok (fst st') (snd st')
    \<and> (\<forall>i < length draws. \<forall>j < length draws. link st' i j \<longleftrightarrow> draws ! i mod 2 = draws ! j mod 2)"
proof -
  obtain p q where pq: "sides draws = (p, q)" by (cases "sides draws")
  have p: "set p = {i. i < length draws \<and> draws ! i mod 2 = 0}" and q: "set q = {i. i < length draws \<and> draws ! i mod 2 = 1}"
    using pq by (auto simp: sides_def Let_def)
  have "set p \<inter> set q = {}" "set p \<union> set q = {..<grpN (snd st)}" using assms(2) by (auto simp: p q)
  from partition_lemma[OF assms(1) this] obtain st' where st': "Partition p q st = Inr st'" "grp_ok (fst st') (snd st')"
      "\<forall>i < grpN (snd st). \<forall>j < grpN (snd st). link st' i j \<longleftrightarrow> (i \<in> set p \<longleftrightarrow> j \<in> set p)" by blast
  have "link st' i j \<longleftrightarrow> draws ! i mod 2 = draws ! j mod 2" if "i < length draws" "j < length draws" for i j
    using st'(3) that assms(2) by (auto simp: p)
  then show ?thesis using st'(1,2) by (simp add: partitionRound_def pq)
qed

theorem partitioner_links_witness:
  "\<exists>st' an'. partitionRound [4, 7, 2] 0 ((exampleNet, exampleGrp), \<lparr>annotation = mkAnnotation, finfo = None\<rparr>) = Inr (st', an') \<and> link st' 0 2 \<and> \<not> link st' 0 1"
proof -
  let ?d = "[4, 7, 2 :: nat]"
  obtain st' an' where r: "partitionRound ?d 0 ((exampleNet, exampleGrp), \<lparr>annotation = mkAnnotation, finfo = None\<rparr>) = Inr (st', an')"
    and l: "\<forall>i < length ?d. \<forall>j < length ?d. link st' i j \<longleftrightarrow> ?d ! i mod 2 = ?d ! j mod 2"
    using partitioner_links[of "(exampleNet, exampleGrp)" ?d 0 "\<lparr>annotation = mkAnnotation, finfo = None\<rparr>"] by (auto simp: exampleGrp_ok)
  show ?thesis using r l[rule_format, of 0 2] l[rule_format, of 0 1] by auto
qed

subsection \<open>The check of appends: lemmas\<close>

definition numbersOf :: "int \<Rightarrow> EntryN list \<Rightarrow> int list" where
  "numbersOf c es = map entN (filter (\<lambda>e. entId e = c) es)"

fun incr :: "int \<Rightarrow> int list \<Rightarrow> bool" where
  "incr e [] = True"
| "incr e (x # xs) = (e \<le> x \<and> incr (x + 1) xs)"

fun nxt :: "int \<Rightarrow> int list \<Rightarrow> int" where
  "nxt e [] = e"
| "nxt e (x # xs) = nxt (x + 1) xs"

lemma incr_iff: "incr e xs \<longleftrightarrow> sorted_wrt (<) xs \<and> (\<forall>x \<in> set xs. e \<le> x)"
proof (induction xs arbitrary: e)
  case (Cons x xs)
  then show ?case unfolding incr.simps Cons.IH add1_zle_eq by fastforce
qed simp

lemma nxt_eq: "nxt e xs = (if xs = [] then e else last xs + 1)"
  by (induction xs arbitrary: e) auto

lemma tally_Inr:
  "tally es (E, S) = Inr (E', S') \<Longrightarrow>
   (\<forall>c. incr (gm_get 0 E c) (numbersOf c es) \<and> gm_get 0 E' c = nxt (gm_get 0 E c) (numbersOf c es)
      \<and> gm_get 0 S' c = gm_get 0 S c + (nxt (gm_get 0 E c) (numbersOf c es) - gm_get 0 E c - int (length (numbersOf c es))))
   \<and> fst ` set E' = fst ` set E \<union> entId ` set es \<and> (gomap_ok E \<longrightarrow> gomap_ok E')"
proof (induction es "(E, S)" arbitrary: E S rule: tally.induct)
  case (2 e es E S)
  let ?E = "gm_put (entId e) (entN e + 1) E"
  let ?S = "if gm_get 0 E (entId e) = entN e then S else gm_put (entId e) (gm_get 0 S (entId e) + (entN e - gm_get 0 E (entId e))) S"
  have le: "gm_get 0 E (entId e) \<le> entN e" and t: "tally es (?E, ?S) = Inr (E', S')"
    using "2.prems" by (auto simp: Let_def split: if_splits)
  have ih: "(\<forall>c. incr (gm_get 0 ?E c) (numbersOf c es) \<and> gm_get 0 E' c = nxt (gm_get 0 ?E c) (numbersOf c es)
      \<and> gm_get 0 S' c = gm_get 0 ?S c + (nxt (gm_get 0 ?E c) (numbersOf c es) - gm_get 0 ?E c - int (length (numbersOf c es))))
   \<and> fst ` set E' = fst ` set ?E \<union> entId ` set es \<and> (gomap_ok ?E \<longrightarrow> gomap_ok E')"
    using 2 le t by (auto simp: Let_def split: if_splits)
  have "incr (gm_get 0 E c) (numbersOf c (e # es)) \<and> gm_get 0 E' c = nxt (gm_get 0 E c) (numbersOf c (e # es))
      \<and> gm_get 0 S' c = gm_get 0 S c + (nxt (gm_get 0 E c) (numbersOf c (e # es)) - gm_get 0 E c - int (length (numbersOf c (e # es))))" for c
    using conjunct1[OF ih, rule_format, of c] le by (cases "c = entId e") (auto simp: numbersOf_def)
  then show ?case using conjunct2[OF ih] by auto
qed (simp add: numbersOf_def)

lemma tally_Inl: "tally es (E, S) = Inl f \<Longrightarrow> \<exists>c. \<not> incr (gm_get 0 E c) (numbersOf c es)"
proof (induction es "(E, S)" arbitrary: E S rule: tally.induct)
  case (2 e es E S)
  show ?case
  proof (cases "gm_get 0 E (entId e) > entN e")
    case True
    then show ?thesis by (intro exI[of _ "entId e"]) (simp add: numbersOf_def)
  next
    case False
    then obtain c where "\<not> incr (gm_get 0 (gm_put (entId e) (entN e + 1) E) c) (numbersOf c es)"
      using 2 by (fastforce simp: Let_def split: if_splits)
    then show ?thesis by (intro exI[of _ c]) (auto simp: numbersOf_def split: if_splits)
  qed
qed simp

lemma checkClients_None:
  "checkClients m S rs = None \<longleftrightarrow> (\<forall>(c, n) \<in> set m. 0 \<le> c \<and> c < int (length rs) \<and> gm_get 0 S c \<le> Nmaybe (rs ! nat c) \<and> n \<le> Nok (rs ! nat c) + Nmaybe (rs ! nat c))"
proof (induction m)
  case (Cons x m)
  obtain c n where x: "x = (c, n)" by (cases x)
  show ?case unfolding x checkClients.simps by (simp add: Cons.IH not_less not_le)
qed simp

lemma initTallies_Suc: "initTallies (Suc n) = (gm_put (int n) 0 (fst (initTallies n)), gm_put (int n) 0 (snd (initTallies n)))"
  by (simp add: initTallies_def split: prod.splits)

lemma initTallies_eq:
  "fst ` set (fst (initTallies n)) = int ` {..<n}" "gomap_ok (fst (initTallies n))" "gm_get 0 (fst (initTallies n)) c = 0" "gm_get 0 (snd (initTallies n)) c = 0"
  by (induction n) (simp_all add: initTallies_Suc lessThan_Suc, simp_all add: initTallies_def)

text \<open>
  \<open>CheckAppends\<close> accepts exactly the logs in which the numbers of every client go up, the counter on the server is one more than the number of entries, and
  every client that has a result or an entry: the numbers up to its last one that are missing are at most its uncertain appends, and its last number is
  below the number of its appends. An entry of a client without a result is not accepted.
\<close>

theorem CheckAppends_accepts:
  "CheckAppends es nclnt rs ver = None \<longleftrightarrow>
     (\<forall>c. sorted_wrt (<) (numbersOf c es) \<and> (\<forall>x \<in> set (numbersOf c es). 0 \<le> x))
     \<and> int (length es) + 1 = sint (Counter ver)
     \<and> (\<forall>c \<in> int ` {..<nclnt} \<union> entId ` set es. 0 \<le> c \<and> c < int (length rs) \<and>
          (let last = (if numbersOf c es = [] then 0 else last (numbersOf c es) + 1)
           in last - int (length (numbersOf c es)) \<le> Nmaybe (rs ! nat c) \<and> last \<le> Nok (rs ! nat c) + Nmaybe (rs ! nat c)))"
proof (cases "tally es (initTallies nclnt)")
  case (Inl f)
  then obtain c where "\<not> incr 0 (numbersOf c es)" using tally_Inl[of es "fst (initTallies nclnt)" "snd (initTallies nclnt)"] by (auto simp: initTallies_eq)
  then have "\<not> (\<forall>c. sorted_wrt (<) (numbersOf c es) \<and> (\<forall>x \<in> set (numbersOf c es). 0 \<le> x))" by (auto simp: incr_iff)
  then show ?thesis using Inl by (auto simp: CheckAppends_def)
next
  case (Inr r)
  obtain E S where r: "r = (E, S)" by (cases r)
  have t: "tally es (fst (initTallies nclnt), snd (initTallies nclnt)) = Inr (E, S)" using Inr r by simp
  note T = tally_Inr[OF t, unfolded initTallies_eq]
  have inc: "sorted_wrt (<) (numbersOf c es) \<and> (\<forall>x \<in> set (numbersOf c es). 0 \<le> x)" for c using T by (simp add: incr_iff)
  have E: "(c, n) \<in> set E \<longleftrightarrow> c \<in> int ` {..<nclnt} \<union> entId ` set es \<and> n = nxt 0 (numbersOf c es)" for c n
  proof -
    have ok: "gomap_ok E" using T initTallies_eq(2) by blast
    have "(c, n) \<in> set E \<longleftrightarrow> c \<in> fst ` set E \<and> n = gm_get 0 E c"
      using gm_get_in_set[OF ok] by force
    then show ?thesis using T by simp
  qed
  have S: "gm_get 0 S c = nxt 0 (numbersOf c es) - int (length (numbersOf c es))" for c using T by simp
  have "CheckAppends es nclnt rs ver = None \<longleftrightarrow> int (length es) + 1 = sint (Counter ver) \<and> checkClients E S rs = None"
    using Inr r by (simp add: CheckAppends_def)
  moreover have "set E = (\<lambda>c. (c, nxt 0 (numbersOf c es))) ` (int ` {..<nclnt} \<union> entId ` set es)" using E by auto
  ultimately show ?thesis unfolding checkClients_None S Let_def
    by (simp only: ball_simps(9) prod.case nxt_eq) (use inc in blast)
qed

theorem CheckAppends_accepts_witness:
  "CheckAppends [\<lparr>entId = 0, entN = 0\<rparr>, \<lparr>entId = 0, entN = 2\<rparr>] 1 [\<lparr>Nok = 2, Nmaybe = 1\<rparr>] \<lparr>VC = [(''a'', 3)], Timestamp = 0, ETag = ''''\<rparr> = None"
  unfolding CheckAppends_accepts by (simp add: numbersOf_def Counter_def lessThan_Suc)

subsection \<open>Retried puts: lemmas\<close>

lemma Counter_eq: "Counter c = sum_list (map snd (VC c))"
proof -
  have "fold (\<lambda>(node, ver) total. total + ver) m t = t + sum_list (map snd m)" for m :: VClock and t
    by (induction m arbitrary: t) (auto simp: add.assoc)
  from this[of "VC c" 0] show ?thesis by (simp add: Counter_def)
qed

lemma sum_put: "gomap_ok m \<Longrightarrow> sum_list (map snd (gm_put k v m)) = sum_list (map snd m) - gm_get 0 m k + (v :: u64)"
proof (induction m)
  case (Cons x m)
  then show ?case by (cases x) (auto simp: gm_put_def gm_get_def split: option.splits)
qed (simp add: gm_put_def)

lemma nextContext_counter:
  assumes "gomap_ok (VC c)"
  shows "Counter (nextContext now c value) = Counter c + 1" "gomap_ok (VC (nextContext now c value))"
  using assms sum_put[of "VC c" testContextNode "gm_get 0 (VC c) testContextNode + 1"]
  by (simp_all add: Counter_eq nextContext_def UpdateCtx_def Increment_def)

text \<open>The rounds of a retried put: the context and the state after \<open>k\<close> of them.\<close>

fun rounds :: "'s IKVClerk \<Rightarrow> string \<Rightarrow> string \<Rightarrow> (nat \<Rightarrow> u64) \<Rightarrow> nat \<Rightarrow> Context \<times> 's TestState \<Rightarrow> Context \<times> 's TestState" where
  "rounds ck key value clock 0 (ver, ts) = (ver, ts)"
| "rounds ck key value clock (Suc k) (ver, ts) =
     rounds ck key value (\<lambda>i. clock (Suc i)) k (nextContext (clock 0) ver value, snd (testPut ck key value ver ts))"

definition roundErr :: "'s IKVClerk \<Rightarrow> string \<Rightarrow> string \<Rightarrow> (nat \<Rightarrow> u64) \<Rightarrow> nat \<Rightarrow> Context \<times> 's TestState \<Rightarrow> Err" where
  "roundErr ck key value clock k st = (case rounds ck key value clock k st of (ver, ts) \<Rightarrow> fst (testPut ck key value ver ts))"

lemma ops_testPut [simp]: "ops (snd (testPut ck key value ver ts)) = ops ts + 1"
  by (simp add: testPut_def OpInc_def Let_def split: prod.splits)

lemma putLoop_rounds:
  assumes "gomap_ok (VC ver)" "\<forall>j < k. roundErr ck key value (\<lambda>j. clock (i + j)) j (ver, ts) \<in> {ErrMaybe, ErrVersion}"
    "roundErr ck key value (\<lambda>j. clock (i + j)) k (ver, ts) = OK"
  shows "\<exists>ver' ts'. putLoop ck key value clock i ver ts = Some (Inr ver', ts') \<and> Counter ver' = Counter ver + of_nat k + 1
    \<and> ops ts' = ops ts + of_nat k + 1"
  using assms
proof (induction k arbitrary: i ver ts)
  case 0
  obtain e ts' where p: "testPut ck key value ver ts = (e, ts')" by (cases "testPut ck key value ver ts")
  then have "e = OK" using 0 by (simp add: roundErr_def)
  moreover have "ops ts' = ops ts + 1" using ops_testPut[of ck key "value" ver ts] p by simp
  ultimately show ?case using p nextContext_counter(1)[OF 0(1)] by (subst putLoop.simps) simp
next
  case (Suc k)
  obtain e ts' where p: "testPut ck key value ver ts = (e, ts')" by (cases "testPut ck key value ver ts")
  have e: "e \<in> {ErrMaybe, ErrVersion}" using Suc.prems(2)[rule_format, of 0] p by (simp add: roundErr_def)
  let ?ver = "nextContext (clock i) ver value"
  have sh: "roundErr ck key value (\<lambda>j. clock (i + j)) (Suc j) (ver, ts) = roundErr ck key value (\<lambda>j. clock (Suc i + j)) j (?ver, ts')" for j
    using p by (simp add: roundErr_def)
  have "\<forall>j < k. roundErr ck key value (\<lambda>j. clock (Suc i + j)) j (?ver, ts') \<in> {ErrMaybe, ErrVersion}"
    using Suc.prems(2) sh by (metis Suc_less_eq)
  moreover have "roundErr ck key value (\<lambda>j. clock (Suc i + j)) k (?ver, ts') = OK" using Suc.prems(3) sh by simp
  ultimately obtain ver' ts'' where "putLoop ck key value clock (Suc i) ?ver ts' = Some (Inr ver', ts'')" "Counter ver' = Counter ?ver + of_nat k + 1"
      "ops ts'' = ops ts' + of_nat k + 1"
    using Suc.IH[OF nextContext_counter(2)[OF Suc.prems(1)]] by blast
  moreover have "putLoop ck key value clock i ver ts = putLoop ck key value clock (Suc i) ?ver ts'"
    using p e by (subst putLoop.simps) auto
  moreover have "ops ts' = ops ts + 1" using ops_testPut[of ck key "value" ver ts] p by simp
  ultimately show ?case using nextContext_counter(1)[OF Suc.prems(1)] by simp
qed

text \<open>
  \<open>PutAtLeastOnce\<close> returns as soon as a put succeeds: when the first \<open>k\<close> puts report a version conflict or an uncertain outcome and the next
  one succeeds, then it returns a context whose counter has grown by the \<open>k + 1\<close> puts that were made, which are also the operations that were counted.
\<close>

theorem PutAtLeastOnce_returns:
  assumes "gomap_ok (VC ver)" "\<forall>j < k. roundErr ck key value clock j (ver, ts) \<in> {ErrMaybe, ErrVersion}" "roundErr ck key value clock k (ver, ts) = OK"
  shows "\<exists>ver' ts'. PutAtLeastOnce ck key value ver clock now ts = Some (Inr ver', ts') \<and> Counter ver' = Counter ver + of_nat k + 1
    \<and> ops ts' = ops ts + of_nat k + 1"
proof -
  obtain ver' ts' where "putLoop ck key value clock 0 ver ts = Some (Inr ver', ts')" "Counter ver' = Counter ver + of_nat k + 1"
      "ops ts' = ops ts + of_nat k + 1"
    using putLoop_rounds[of ver k ck key "value" clock 0 ts] assms by auto
  then show ?thesis by (simp add: PutAtLeastOnce_def Let_def)
qed

text \<open>A clerk whose puts succeed from the third on.\<close>

definition slowClerk :: "nat IKVClerk" where
  "slowClerk = \<lparr>ckGet = (\<lambda>key w. (('''', NewContext 0, ErrNoKey), w)), ckPut = (\<lambda>key value ctx w. (if w < 2 then ErrMaybe else OK, Suc w))\<rparr>"

theorem PutAtLeastOnce_returns_witness:
  "\<exists>ver' ts'. PutAtLeastOnce slowClerk ''k'' ''v'' (NewContext 0) (\<lambda>_. 0) 0 \<lparr>world = 0, ops = 0, annots = \<lparr>annotation = mkAnnotation, finfo = None\<rparr>\<rparr> = Some (Inr ver', ts')
     \<and> Counter ver' = 3 \<and> ops ts' = 3"
proof -
  let ?ts = "\<lparr>world = 0, ops = 0, annots = \<lparr>annotation = mkAnnotation, finfo = None\<rparr>\<rparr>"
  have "\<forall>j < 2. roundErr slowClerk ''k'' ''v'' (\<lambda>_. 0) j (NewContext 0, ?ts) \<in> {ErrMaybe, ErrVersion}"
    by (simp add: roundErr_def testPut_def slowClerk_def OpInc_def numeral_2_eq_2 less_Suc_eq all_conj_distrib)
  moreover have "roundErr slowClerk ''k'' ''v'' (\<lambda>_. 0) 2 (NewContext 0, ?ts) = OK"
    by (simp add: roundErr_def testPut_def slowClerk_def OpInc_def numeral_2_eq_2)
  ultimately show ?thesis using PutAtLeastOnce_returns[of "NewContext 0" 2 slowClerk "''k''" "''v''" "\<lambda>_. 0" ?ts 0]
    by (simp add: NewContext_def NewVClock_def Counter_def)
qed

end
