(* ===== verification/Demux.thy ===== *)
theory Demux
  imports GoStd
begin

text \<open>
  The demultiplexer of the test framework, \<^verbatim>\<open>tester/demux\<close>: many calls share a connection, replies come back in any
  order and are matched with their calls by tags. First the frames of \<^verbatim>\<open>transport.go\<close>; then the table of outstanding calls and
  the client and server of \<^verbatim>\<open>callmap.go\<close>, \<^verbatim>\<open>dmxclnt.go\<close> and \<^verbatim>\<open>dmxsrv.go\<close> as a step relation whose steps are the
  atomic sections of the goroutines: the callers of \<open>SendReceive\<close>, the reader of the client, the reader of the server and
  its handlers. The encoding of a message (gob) is a parameter of the frames.
\<close>

subsection \<open>Frames\<close>

record msg =
  msgTag :: u32
  msgData :: bytes
  msgOk :: bool

text \<open>A length converted to 32 bits, in little endian order: what exceeds 32 bits is lost.\<close>

definition le_bytes32 :: "nat \<Rightarrow> bytes" where
  "le_bytes32 n = map (\<lambda>i. of_nat (n div 256 ^ i)) [0..<4]"

definition le_value :: "bytes \<Rightarrow> nat" where
  "le_value bs = foldr (\<lambda>b n. unat b + 256 * n) bs 0"

text \<open>What \<open>WriteCall\<close> puts on the connection: the length in 32 bits, then the encoded message.\<close>

definition WriteCall :: "(msg \<Rightarrow> bytes) \<Rightarrow> u32 \<Rightarrow> bytes \<Rightarrow> bool \<Rightarrow> bytes" where
  "WriteCall marshall tag d ok =
     (let b = marshall \<lparr>msgTag = tag, msgData = d, msgOk = ok\<rparr> in le_bytes32 (length b) @ b)"

text \<open>\<open>ReadCall\<close> on the bytes that the connection delivers before it ends; an end in the middle is an error.\<close>

definition ReadCall :: "(bytes \<Rightarrow> msg) \<Rightarrow> bytes \<Rightarrow> unit + msg \<times> bytes" where
  "ReadCall unmarshall inp =
     (if length inp < 4 then Inl ()
      else let nbyte = le_value (take 4 inp); r = drop 4 inp
           in if length r < nbyte then Inl () else Inr (unmarshall (take nbyte r), drop nbyte r))"

lemma length_le_bytes32 [simp]: "length (le_bytes32 n) = 4"
  by (simp add: le_bytes32_def)

lemma le_value_bytes32: "le_value (le_bytes32 n) = n mod 2 ^ 32"
proof -
  have d: "n div 256 ^ 2 = n div 256 div 256" "n div 256 ^ 3 = n div 256 div 256 div 256" by (simp_all add: div_mult2_eq[symmetric])
  have "le_value (le_bytes32 n) = n mod 256 + 256 * (n div 256 mod 256 + 256 * (n div 256 div 256 mod 256 + 256 * (n div 256 div 256 div 256 mod 256)))"
    unfolding le_value_def le_bytes32_def by (simp add: upt_rec unat_of_nat d[unfolded power_numeral] div_mult2_eq[symmetric])
  also have "\<dots> = n mod (256 * (256 * (256 * 256)))"
    by (simp only: mod_mult2_eq[of n 256] mod_mult2_eq[of "n div 256" 256] mod_mult2_eq[of "n div 256 div 256" 256] add.commute)
  finally show ?thesis by simp
qed

text \<open>The frames of several calls, and reading as many calls as a list has.\<close>

definition writeCalls :: "(msg \<Rightarrow> bytes) \<Rightarrow> msg list \<Rightarrow> bytes" where
  "writeCalls marshall ms = concat (map (\<lambda>m. WriteCall marshall (msgTag m) (msgData m) (msgOk m)) ms)"

fun readCalls :: "(bytes \<Rightarrow> msg) \<Rightarrow> nat \<Rightarrow> bytes \<Rightarrow> unit + msg list \<times> bytes" where
  "readCalls unmarshall 0 inp = Inr ([], inp)"
| "readCalls unmarshall (Suc n) inp =
     (case ReadCall unmarshall inp of
        Inl e \<Rightarrow> Inl e
      | Inr (m, inp) \<Rightarrow> (case readCalls unmarshall n inp of Inl e \<Rightarrow> Inl e | Inr (ms, inp) \<Rightarrow> Inr (m # ms, inp)))"

lemma WriteCall_eq: "WriteCall marshall (msgTag m) (msgData m) (msgOk m) = le_bytes32 (length (marshall m)) @ marshall m"
  by (cases m) (simp add: WriteCall_def Let_def)

lemma ReadCall_frame:
  assumes "length (marshall m) < 2 ^ 32" "unmarshall (marshall m) = m"
  shows "ReadCall unmarshall ((le_bytes32 (length (marshall m)) @ marshall m) @ rest) = Inr (m, rest)"
  using assms le_value_bytes32[of "length (marshall m)"] by (simp add: ReadCall_def)

lemma ReadCall_cut:
  assumes "length (marshall m) < 2 ^ 32" "n < 4 + length (marshall m)"
  shows "ReadCall unmarshall (take n (le_bytes32 (length (marshall m)) @ marshall m)) = Inl ()"
  using assms le_value_bytes32[of "length (marshall m)"] by (auto simp: ReadCall_def min_def)

text \<open>
  C21: The messages that one side writes are read by the other side in order and unchanged, as long as the encoding can be
  decoded and is shorter than \<open>2 ^ 32\<close> bytes; when the connection ends in the middle of the frame of a message, the messages
  before it are read and then an error.
\<close>

theorem frames_roundtrip:
  assumes "\<forall>m \<in> set (m # ms). length (marshall m) < 2 ^ 32 \<and> unmarshall (marshall m) = m"
    and "n < length (WriteCall marshall (msgTag m) (msgData m) (msgOk m))"
  shows "readCalls unmarshall (length ms) (writeCalls marshall ms @ rest) = Inr (ms, rest)
    \<and> ReadCall unmarshall (take n (WriteCall marshall (msgTag m) (msgData m) (msgOk m))) = Inl ()"
proof
  have "\<forall>m \<in> set ms. length (marshall m) < 2 ^ 32 \<and> unmarshall (marshall m) = m" using assms(1) by simp
  then show "readCalls unmarshall (length ms) (writeCalls marshall ms @ rest) = Inr (ms, rest)"
  proof (induction ms)
    case (Cons m ms)
    then have "ReadCall unmarshall (writeCalls marshall (m # ms) @ rest) = Inr (m, writeCalls marshall ms @ rest)"
      using ReadCall_frame[of marshall m unmarshall "writeCalls marshall ms @ rest"] by (simp add: writeCalls_def WriteCall_eq)
    then show ?case using Cons by simp
  qed (simp add: writeCalls_def)
  show "ReadCall unmarshall (take n (WriteCall marshall (msgTag m) (msgData m) (msgOk m))) = Inl ()"
    using assms ReadCall_cut[of marshall m n unmarshall] by (simp add: WriteCall_eq)
qed

text \<open>An encoding for messages whose data is one byte long.\<close>

definition tinyMarshall :: "msg \<Rightarrow> bytes" where
  "tinyMarshall m = le_bytes32 (unat (msgTag m)) @ [if msgOk m then 1 else 0] @ msgData m"

definition tinyUnmarshall :: "bytes \<Rightarrow> msg" where
  "tinyUnmarshall b = \<lparr>msgTag = of_nat (le_value (take 4 b)), msgData = drop 5 b, msgOk = b ! 4 = 1\<rparr>"

lemma tiny_roundtrip: "tinyUnmarshall (tinyMarshall m) = m"
proof -
  have "unat (msgTag m) < 2 ^ LENGTH(32)" by (rule unsigned_less)
  then have "unat (msgTag m) mod 2 ^ 32 = unat (msgTag m)" by simp
  then show ?thesis by (simp add: tinyUnmarshall_def tinyMarshall_def le_value_bytes32 nth_append)
qed

lemma length_tiny: "length (tinyMarshall m) = 5 + length (msgData m)"
  by (simp add: tinyMarshall_def)

lemma length_WriteCall: "length (WriteCall marshall t d ok) = 4 + length (marshall \<lparr>msgTag = t, msgData = d, msgOk = ok\<rparr>)"
  by (simp add: WriteCall_def Let_def)

theorem frames_roundtrip_witness:
  "readCalls tinyUnmarshall (Suc (Suc 0)) (writeCalls tinyMarshall [\<lparr>msgTag = 7, msgData = [1, 2], msgOk = True\<rparr>, \<lparr>msgTag = 8, msgData = [], msgOk = False\<rparr>] @ [9])
     = Inr ([\<lparr>msgTag = 7, msgData = [1, 2], msgOk = True\<rparr>, \<lparr>msgTag = 8, msgData = [], msgOk = False\<rparr>], [9])"
  using frames_roundtrip[of "\<lparr>msgTag = 1, msgData = [], msgOk = True\<rparr>"
      "[\<lparr>msgTag = 7, msgData = [1, 2], msgOk = True\<rparr>, \<lparr>msgTag = 8, msgData = [], msgOk = False\<rparr>]" tinyMarshall tinyUnmarshall 0 "[9]"]
  by (simp add: tiny_roundtrip length_tiny length_WriteCall del: readCalls.simps)

subsection \<open>The table of outstanding calls\<close>

text \<open>A channel is the number of the call that waits on it.\<close>

record callMap =
  cmClosed :: bool
  calls :: "(u32, nat) gomap"

definition newCallMap :: callMap where
  "newCallMap = \<lparr>cmClosed = False, calls = []\<rparr>"

definition cmClose :: "callMap \<Rightarrow> callMap" where
  "cmClose cm = cm\<lparr>cmClosed := True\<rparr>"

definition isClosed :: "callMap \<Rightarrow> bool" where
  "isClosed cm = cmClosed cm"

definition cmPut :: "u32 \<Rightarrow> nat \<Rightarrow> callMap \<Rightarrow> callMap option" where
  "cmPut tag ch cm = (if cmClosed cm then None else Some (cm\<lparr>calls := gm_put tag ch (calls cm)\<rparr>))"

definition cmRemove :: "u32 \<Rightarrow> callMap \<Rightarrow> nat option \<times> callMap" where
  "cmRemove tag cm =
     (case map_of (calls cm) tag of
        Some ch \<Rightarrow> (Some ch, cm\<lparr>calls := gm_del tag (calls cm)\<rparr>)
      | None \<Rightarrow> (None, cm))"

definition outstanding :: "callMap \<Rightarrow> u32 list" where
  "outstanding cm = map fst (calls cm)"

subsection \<open>Client, server and connection\<close>

text \<open>A reply: its data, the flag of the server, and whether there was an error.\<close>

record reply =
  rep :: bytes
  repOk :: bool
  repErr :: bool

text \<open>
  Where a call of \<open>SendReceive\<close> is: it has its tag, it is in the table, it has written its request and waits on its channel, or it has
  returned. Calls are numbered from 1 in the order in which they draw their tags.
\<close>

datatype phase = Tagged | Entered | Waiting | Returned reply

record dmxState =
  callmap :: callMap
  nextTag :: u32
  ncalls :: nat
  tags :: "nat \<Rightarrow> u32"
  requests :: "nat \<Rightarrow> bytes"
  phases :: "nat \<Rightarrow> phase option"
  toSrv :: "(u32 \<times> bytes) list"
  serving :: "(u32 \<times> bytes) list"
  toClnt :: "(u32 \<times> bytes \<times> bool) list"
  failing :: "u32 list option"
  fatal :: bool

text \<open>After \<open>NewDemuxClnt\<close>, whose message has the tag 0 and is not answered.\<close>

definition NewDemuxClnt :: dmxState where
  "NewDemuxClnt = \<lparr>callmap = newCallMap, nextTag = 1, ncalls = 0, tags = (\<lambda>_. 0), requests = (\<lambda>_. []), phases = Map.empty, toSrv = [], serving = [], toClnt = [],
     failing = None, fatal = False\<rparr>"

text \<open>A new call draws its tag.\<close>

definition drawTag :: "bytes \<Rightarrow> dmxState \<Rightarrow> dmxState" where
  "drawTag b dmx = dmx\<lparr>nextTag := nextTag dmx + 1, ncalls := Suc (ncalls dmx), tags := (tags dmx)(Suc (ncalls dmx) := nextTag dmx),
     requests := (requests dmx)(Suc (ncalls dmx) := b), phases := (phases dmx)(Suc (ncalls dmx) \<mapsto> Tagged)\<rparr>"

definition returns :: "nat \<Rightarrow> reply \<Rightarrow> dmxState \<Rightarrow> dmxState" where
  "returns c r dmx = dmx\<lparr>phases := (phases dmx)(c \<mapsto> Returned r)\<rparr>"

definition errReply :: reply where
  "errReply = \<lparr>rep = [], repOk = False, repErr = True\<rparr>"

text \<open>\<open>SendReceive\<close> enters the call into the table under its tag, or returns when the table is closed.\<close>

definition enterCall :: "nat \<Rightarrow> dmxState \<Rightarrow> dmxState" where
  "enterCall c dmx =
     (case cmPut (tags dmx c) c (callmap dmx) of
        None \<Rightarrow> returns c errReply dmx
      | Some cm \<Rightarrow> dmx\<lparr>callmap := cm, phases := (phases dmx)(c \<mapsto> Entered)\<rparr>)"

text \<open>The request goes out, or the write fails; the call waits in both cases.\<close>

definition writeReq :: "bool \<Rightarrow> nat \<Rightarrow> dmxState \<Rightarrow> dmxState" where
  "writeReq written c dmx =
     dmx\<lparr>toSrv := (if written then toSrv dmx @ [(tags dmx c, requests dmx c)] else toSrv dmx), phases := (phases dmx)(c \<mapsto> Waiting)\<rparr>"

text \<open>\<open>reply\<close>: the call of the tag gets the reply, and a tag without a call ends the process.\<close>

definition replyTo :: "u32 \<Rightarrow> reply \<Rightarrow> dmxState \<Rightarrow> dmxState" where
  "replyTo tag r dmx =
     (case cmRemove tag (callmap dmx) of
        (Some c, cm) \<Rightarrow> returns c r (dmx\<lparr>callmap := cm\<rparr>)
      | (None, cm) \<Rightarrow> dmx\<lparr>fatal := True\<rparr>)"

text \<open>What \<open>RPC\<close> of \<^verbatim>\<open>tester/sockrpc\<close> makes of the result of \<open>SendReceive\<close>.\<close>

definition RPC :: "reply \<Rightarrow> bytes \<times> bool" where
  "RPC r = (if repErr r then ([], False) else (rep r, repOk r))"

text \<open>
  The steps. \<open>answers b r\<close> says that \<open>r\<close> is a possible result of \<open>ServeRequest\<close> on \<open>b\<close>. The channels have no buffer: the reader
  delivers a reply when the call waits. The reader of the client closes the table when the connection fails and then fails the
  outstanding calls one by one; \<open>failing\<close> are the calls that it has yet to fail.
\<close>

inductive dmx_step :: "(bytes \<Rightarrow> bytes \<times> bool \<Rightarrow> bool) \<Rightarrow> dmxState \<Rightarrow> dmxState \<Rightarrow> bool" for answers where
  call: "dmx_step answers dmx (drawTag b dmx)"
| enter: "phases dmx c = Some Tagged \<Longrightarrow> dmx_step answers dmx (enterCall c dmx)"
| send: "phases dmx c = Some Entered \<Longrightarrow> dmx_step answers dmx (writeReq written c dmx)"
| srv_read: "toSrv dmx = m # ms \<Longrightarrow> dmx_step answers dmx (dmx\<lparr>toSrv := ms, serving := serving dmx @ [m]\<rparr>)"
| srv_reply: "serving dmx = ms @ (t, b) # ms' \<Longrightarrow> answers b (r, ok) \<Longrightarrow>
    dmx_step answers dmx (dmx\<lparr>serving := ms @ ms', toClnt := toClnt dmx @ [(t, r, ok)]\<rparr>)"
| srv_lost: "serving dmx = ms @ m # ms' \<Longrightarrow> dmx_step answers dmx (dmx\<lparr>serving := ms @ ms'\<rparr>)"
| clnt_read: "failing dmx = None \<Longrightarrow> toClnt dmx = (t, r, ok) # ms \<Longrightarrow>
    (\<forall>c. map_of (calls (callmap dmx)) t = Some c \<longrightarrow> phases dmx c = Some Waiting) \<Longrightarrow>
    dmx_step answers dmx (replyTo t \<lparr>rep = r, repOk = ok, repErr = False\<rparr> (dmx\<lparr>toClnt := ms\<rparr>))"
| clnt_err: "failing dmx = None \<Longrightarrow> dmx_step answers dmx (dmx\<lparr>callmap := cmClose (callmap dmx), failing := Some (outstanding (callmap dmx))\<rparr>)"
| clnt_fail: "failing dmx = Some (t # ts) \<Longrightarrow> (\<forall>c. map_of (calls (callmap dmx)) t = Some c \<longrightarrow> phases dmx c = Some Waiting) \<Longrightarrow>
    dmx_step answers dmx (replyTo t errReply (dmx\<lparr>failing := Some ts\<rparr>))"
| close: "dmx_step answers dmx (dmx\<lparr>callmap := cmClose (callmap dmx)\<rparr>)"

text \<open>A run with its number of calls bounded by the number of tags.\<close>

inductive dmx_reach :: "(bytes \<Rightarrow> bytes \<times> bool \<Rightarrow> bool) \<Rightarrow> dmxState \<Rightarrow> bool" for answers where
  init: "dmx_reach answers NewDemuxClnt"
| step: "dmx_reach answers dmx \<Longrightarrow> dmx_step answers dmx dmx' \<Longrightarrow> ncalls dmx' < 2 ^ 32 \<Longrightarrow> dmx_reach answers dmx'"

subsection \<open>The invariant\<close>

lemma tag_inj: "c < 2 ^ 32 \<Longrightarrow> c' < 2 ^ 32 \<Longrightarrow> (of_nat c :: u32) = of_nat c' \<longleftrightarrow> c = c'"
proof
  assume "c < 2 ^ 32" "c' < 2 ^ 32" "(of_nat c :: u32) = of_nat c'"
  then have "unat (of_nat c :: u32) = unat (of_nat c' :: u32)" by simp
  then show "c = c'" using \<open>c < 2 ^ 32\<close> \<open>c' < 2 ^ 32\<close> by (simp add: unat_of_nat)
qed simp

definition calls_inv :: "dmxState \<Rightarrow> bool" where
  "calls_inv d \<longleftrightarrow> nextTag d = of_nat (Suc (ncalls d)) \<and> ncalls d < 2 ^ 32 \<and> (\<forall>c. phases d c \<noteq> None \<longrightarrow> c \<le> ncalls d \<and> tags d c = of_nat c)"

definition in_table :: "dmxState \<Rightarrow> nat \<Rightarrow> bool" where
  "in_table d c \<longleftrightarrow> phases d c = Some Entered \<or> phases d c = Some Waiting"

definition table_inv :: "dmxState \<Rightarrow> bool" where
  "table_inv d \<longleftrightarrow> gomap_ok (calls (callmap d)) \<and> (\<forall>t c. map_of (calls (callmap d)) t = Some c \<longleftrightarrow> t = of_nat c \<and> in_table d c)"

definition onWire :: "dmxState \<Rightarrow> u32 list" where
  "onWire d = map fst (toSrv d) @ map fst (serving d) @ map fst (toClnt d)"

definition wire_inv :: "(bytes \<Rightarrow> bytes \<times> bool \<Rightarrow> bool) \<Rightarrow> dmxState \<Rightarrow> bool" where
  "wire_inv answers d \<longleftrightarrow> distinct (onWire d)
     \<and> (\<forall>t b. (t, b) \<in> set (toSrv d) \<union> set (serving d) \<longrightarrow> (\<exists>c. t = of_nat c \<and> phases d c = Some Waiting \<and> b = requests d c))
     \<and> (\<forall>t r. (t, r) \<in> set (toClnt d) \<longrightarrow> (\<exists>c. t = of_nat c \<and> phases d c = Some Waiting \<and> answers (requests d c) r))"

definition fail_inv :: "dmxState \<Rightarrow> bool" where
  "fail_inv d \<longleftrightarrow> (\<forall>ts. failing d = Some ts \<longrightarrow> cmClosed (callmap d) \<and> distinct ts \<and> set ts = fst ` set (calls (callmap d)))"

definition answered :: "(bytes \<Rightarrow> bytes \<times> bool \<Rightarrow> bool) \<Rightarrow> dmxState \<Rightarrow> bool" where
  "answered answers d \<longleftrightarrow> (\<forall>c r. phases d c = Some (Returned r) \<longrightarrow> \<not> repErr r \<longrightarrow> answers (requests d c) (rep r, repOk r))"

definition dmx_inv :: "(bytes \<Rightarrow> bytes \<times> bool \<Rightarrow> bool) \<Rightarrow> dmxState \<Rightarrow> bool" where
  "dmx_inv answers d \<longleftrightarrow> calls_inv d \<and> table_inv d \<and> (failing d = None \<longrightarrow> wire_inv answers d) \<and> fail_inv d \<and> answered answers d \<and> \<not> fatal d"

lemma dmx_inv_init: "dmx_inv answers NewDemuxClnt"
  by (simp add: dmx_inv_def calls_inv_def table_inv_def in_table_def wire_inv_def onWire_def fail_inv_def answered_def NewDemuxClnt_def newCallMap_def)

lemma calls_inv_tag: "calls_inv d \<Longrightarrow> phases d c = Some p \<Longrightarrow> tags d c = of_nat c"
  by (simp add: calls_inv_def)

lemma waiting_tag:
  assumes "calls_inv d" "phases d c = Some p" "phases d c' = Some p'"
  shows "(of_nat c :: u32) = of_nat c' \<longleftrightarrow> c = c'"
proof -
  have "c \<le> ncalls d" "c' \<le> ncalls d" "ncalls d < 2 ^ 32" using assms unfolding calls_inv_def by auto
  then have "c < 2 ^ 32" "c' < 2 ^ 32" by simp_all
  then show ?thesis by (rule tag_inj)
qed

text \<open>Messages disappear, and the calls of those that remain still wait.\<close>

lemma wire_inv_keep:
  assumes "wire_inv answers d" "distinct (onWire d')"
    and "set (toSrv d') \<union> set (serving d') \<subseteq> set (toSrv d) \<union> set (serving d)" "set (toClnt d') \<subseteq> set (toClnt d)"
    and "\<And>c. phases d c = Some Waiting \<Longrightarrow> of_nat c \<in> set (onWire d') \<Longrightarrow> phases d' c = Some Waiting \<and> requests d' c = requests d c"
  shows "wire_inv answers d'"
  unfolding wire_inv_def
proof (intro conjI allI impI assms(2))
  fix t b assume m: "(t, b) \<in> set (toSrv d') \<union> set (serving d')"
  then obtain c where "t = of_nat c" "phases d c = Some Waiting" "b = requests d c" using assms(1,3) unfolding wire_inv_def by blast
  moreover have "t \<in> set (onWire d')" using m by (force simp: onWire_def)
  ultimately show "\<exists>c. t = of_nat c \<and> phases d' c = Some Waiting \<and> b = requests d' c" using assms(5) by auto
next
  fix t r assume m: "(t, r) \<in> set (toClnt d')"
  then obtain c where "t = of_nat c" "phases d c = Some Waiting" "answers (requests d c) r" using assms(1,4) unfolding wire_inv_def by blast
  moreover have "t \<in> set (onWire d')" using m by (force simp: onWire_def)
  ultimately show "\<exists>c. t = of_nat c \<and> phases d' c = Some Waiting \<and> answers (requests d' c) r" using assms(5) by auto
qed

lemma wire_req:
  "wire_inv answers d \<Longrightarrow> (t, b) \<in> set (toSrv d) \<union> set (serving d) \<Longrightarrow> \<exists>c. t = of_nat c \<and> phases d c = Some Waiting \<and> b = requests d c"
  unfolding wire_inv_def by blast

lemma wire_rep:
  "wire_inv answers d \<Longrightarrow> (t, r) \<in> set (toClnt d) \<Longrightarrow> \<exists>c. t = of_nat c \<and> phases d c = Some Waiting \<and> answers (requests d c) r"
  unfolding wire_inv_def by blast

lemma wire_waiting: "wire_inv answers d \<Longrightarrow> t \<in> set (onWire d) \<Longrightarrow> \<exists>c. t = of_nat c \<and> phases d c = Some Waiting"
  unfolding wire_inv_def onWire_def by fastforce

lemma inv_call:
  assumes "dmx_inv answers d" "Suc (ncalls d) < 2 ^ 32"
  shows "dmx_inv answers (drawTag b d)"
proof -
  let ?n = "Suc (ncalls d)"
  have new: "phases d ?n = None" using assms(1) unfolding dmx_inv_def calls_inv_def by (metis Suc_n_not_le_n)
  let ?d = "drawTag b d"
  have ph: "phases ?d c = Some p \<longleftrightarrow> (if c = ?n then p = Tagged else phases d c = Some p)" for c p by (auto simp: drawTag_def)
  have same: "callmap ?d = callmap d" "failing ?d = failing d" "toSrv ?d = toSrv d" "serving ?d = serving d" "toClnt ?d = toClnt d" "fatal ?d = fatal d"
    "requests ?d c = (if c = ?n then b else requests d c)" for c
    by (auto simp: drawTag_def)
  have t: "in_table ?d c = in_table d c" for c using new by (auto simp: in_table_def ph)
  have "calls_inv ?d" using assms by (auto simp: dmx_inv_def calls_inv_def drawTag_def)
  moreover have "table_inv ?d" using assms(1) by (simp add: dmx_inv_def table_inv_def t same)
  moreover have "wire_inv answers ?d" if "failing d = None"
  proof (rule wire_inv_keep)
    show "wire_inv answers d" using assms(1) that by (simp add: dmx_inv_def)
    then show "distinct (onWire ?d)" by (simp add: wire_inv_def onWire_def same)
    show "phases ?d c = Some Waiting \<and> requests ?d c = requests d c" if "phases d c = Some Waiting" for c
      using that new by (auto simp: ph same)
  qed (simp_all add: same)
  moreover have "fail_inv ?d" "answered answers ?d" using assms(1) by (auto simp: dmx_inv_def fail_inv_def answered_def same ph)
  ultimately show ?thesis using assms(1) by (simp add: dmx_inv_def same)
qed

lemma inv_enter:
  assumes i: "dmx_inv answers d" and c: "phases d c = Some Tagged"
  shows "dmx_inv answers (enterCall c d)"
proof (cases "cmClosed (callmap d)")
  case True
  let ?d = "enterCall c d"
  have d: "?d = d\<lparr>phases := (phases d)(c \<mapsto> Returned errReply)\<rparr>" using True by (simp add: enterCall_def cmPut_def returns_def)
  have t: "in_table ?d c' = in_table d c'" for c' using c by (simp add: in_table_def d)
  have "wire_inv answers ?d" if "failing d = None"
  proof (rule wire_inv_keep)
    show "wire_inv answers d" using i that by (simp add: dmx_inv_def)
    then show "distinct (onWire ?d)" by (simp add: wire_inv_def onWire_def d)
    show "phases ?d c' = Some Waiting \<and> requests ?d c' = requests d c'" if "phases d c' = Some Waiting" for c'
      using that c by (auto simp: d)
  qed (simp_all add: d)
  moreover have "calls_inv ?d" using i c by (simp add: dmx_inv_def calls_inv_def d)
  moreover have "table_inv ?d" using i by (simp add: dmx_inv_def table_inv_def t) (simp add: d)
  moreover have "fail_inv ?d" "answered answers ?d" "failing ?d = failing d" "\<not> fatal ?d"
    using i by (simp_all add: dmx_inv_def fail_inv_def answered_def d errReply_def)
  ultimately show ?thesis by (simp add: dmx_inv_def)
next
  case False
  let ?d = "enterCall c d"
  have d: "?d = d\<lparr>callmap := (callmap d)\<lparr>calls := gm_put (of_nat c) c (calls (callmap d))\<rparr>, phases := (phases d)(c \<mapsto> Entered)\<rparr>"
    using False calls_inv_tag[OF _ c] i by (simp add: enterCall_def cmPut_def dmx_inv_def)
  have f: "failing d = None" using i False by (cases "failing d") (simp_all add: dmx_inv_def fail_inv_def)
  have ci: "calls_inv d" using i by (simp add: dmx_inv_def)
  have "map_of (calls (callmap ?d)) t = Some c' \<longleftrightarrow> t = of_nat c' \<and> in_table ?d c'" for t c'
  proof (cases "t = of_nat c")
    case True
    then show ?thesis using waiting_tag[OF ci c, of c'] by (auto simp: d in_table_def)
  next
    case ne: False
    then have "map_of (calls (callmap ?d)) t = map_of (calls (callmap d)) t" by (simp add: d)
    then show ?thesis using i ne by (auto simp: dmx_inv_def table_inv_def in_table_def d)
  qed
  then have "table_inv ?d" using i by (simp add: dmx_inv_def table_inv_def d)
  moreover have "wire_inv answers ?d"
  proof (rule wire_inv_keep)
    show "wire_inv answers d" using i f by (simp add: dmx_inv_def)
    then show "distinct (onWire ?d)" by (simp add: wire_inv_def onWire_def d)
    show "phases ?d c' = Some Waiting \<and> requests ?d c' = requests d c'" if "phases d c' = Some Waiting" for c'
      using that c by (auto simp: d)
  qed (simp_all add: d)
  moreover have "calls_inv ?d" using ci c by (simp add: calls_inv_def d)
  moreover have "fail_inv ?d" "answered answers ?d" "\<not> fatal ?d" using i f by (simp_all add: dmx_inv_def fail_inv_def answered_def d)
  ultimately show ?thesis by (simp add: dmx_inv_def)
qed

lemma inv_send:
  assumes i: "dmx_inv answers d" and c: "phases d c = Some Entered"
  shows "dmx_inv answers (writeReq w c d)"
proof -
  let ?d = "writeReq w c d"
  have ph: "phases ?d = (phases d)(c \<mapsto> Waiting)" "callmap ?d = callmap d" "failing ?d = failing d" "requests ?d = requests d" "serving ?d = serving d"
    "toClnt ?d = toClnt d" "fatal ?d = fatal d" "nextTag ?d = nextTag d" "ncalls ?d = ncalls d"
    "toSrv ?d = (if w then toSrv d @ [(of_nat c, requests d c)] else toSrv d)" "tags ?d = tags d"
    using calls_inv_tag[OF _ c] i by (simp_all add: writeReq_def dmx_inv_def)
  have t: "in_table ?d c' = in_table d c'" for c' using c by (simp add: in_table_def ph)
  have ci: "calls_inv d" using i by (simp add: dmx_inv_def)
  have "wire_inv answers ?d" if f: "failing d = None"
  proof -
    have wi: "wire_inv answers d" using i f by (simp add: dmx_inv_def)
    have new: "of_nat c \<notin> set (onWire d)"
    proof
      assume "of_nat c \<in> set (onWire d)"
      then obtain c' where "of_nat c = (of_nat c' :: u32)" "phases d c' = Some Waiting" using wire_waiting[OF wi] by blast
      then show False using waiting_tag[OF ci c, of c'] c by simp
    qed
    have keep: "phases d c' = Some Waiting \<Longrightarrow> phases ?d c' = Some Waiting" for c' by (simp add: ph)
    have "distinct (onWire ?d)" using wi new by (auto simp: wire_inv_def onWire_def ph)
    moreover have "\<exists>c. t = of_nat c \<and> phases ?d c = Some Waiting \<and> b = requests d c" if "(t, b) \<in> set (toSrv ?d) \<union> set (serving d)" for t b
    proof (cases "(t, b) = (of_nat c, requests d c)")
      case False
      then have "(t, b) \<in> set (toSrv d) \<union> set (serving d)" using that by (auto simp: ph split: if_splits)
      then show ?thesis using wi keep unfolding wire_inv_def by blast
    qed (auto simp: ph)
    moreover have "\<exists>c. t = of_nat c \<and> phases ?d c = Some Waiting \<and> answers (requests d c) r" if "(t, r) \<in> set (toClnt d)" for t r
      using wi that keep unfolding wire_inv_def by blast
    ultimately show ?thesis unfolding wire_inv_def ph(4,5,6) by blast
  qed
  moreover have "calls_inv ?d" using ci c by (simp add: calls_inv_def ph)
  moreover have "table_inv ?d" using i by (simp add: dmx_inv_def table_inv_def t ph)
  moreover have "fail_inv ?d" "answered answers ?d" "\<not> fatal ?d" using i by (simp_all add: dmx_inv_def fail_inv_def answered_def ph)
  ultimately show ?thesis by (simp add: dmx_inv_def ph)
qed

text \<open>Steps that only move messages.\<close>

lemma inv_wire:
  assumes "dmx_inv answers d" "failing d = None \<Longrightarrow> wire_inv answers (d\<lparr>toSrv := x, serving := y, toClnt := z\<rparr>)"
  shows "dmx_inv answers (d\<lparr>toSrv := x, serving := y, toClnt := z\<rparr>)"
  using assms by (simp add: dmx_inv_def calls_inv_def table_inv_def in_table_def fail_inv_def answered_def)

lemma inv_move:
  assumes i: "dmx_inv answers d" and s: "distinct (onWire d) \<Longrightarrow> distinct (map fst x @ map fst y @ map fst (toClnt d))"
    "set x \<union> set y \<subseteq> set (toSrv d) \<union> set (serving d)"
  shows "dmx_inv answers (d\<lparr>toSrv := x, serving := y\<rparr>)"
proof -
  let ?d = "d\<lparr>toSrv := x, serving := y, toClnt := toClnt d\<rparr>"
  have "wire_inv answers ?d" if "failing d = None"
  proof (rule wire_inv_keep)
    show wi: "wire_inv answers d" using i that by (simp add: dmx_inv_def)
    have "distinct (onWire d)" using wi by (simp add: wire_inv_def)
    from s(1)[OF this] show "distinct (onWire ?d)" by (simp add: onWire_def)
  qed (use s(2) in auto)
  then show ?thesis using inv_wire[OF i, where x = x and y = y and z = "toClnt d"] by simp
qed

lemma inv_srv_reply:
  assumes i: "dmx_inv answers d" and s: "serving d = ms @ (t, b) # ms'" and a: "answers b (r, ok)"
  shows "dmx_inv answers (d\<lparr>serving := ms @ ms', toClnt := toClnt d @ [(t, r, ok)]\<rparr>)"
proof -
  let ?d = "d\<lparr>toSrv := toSrv d, serving := ms @ ms', toClnt := toClnt d @ [(t, r, ok)]\<rparr>"
  have "wire_inv answers ?d" if f: "failing d = None"
  proof -
    have wi: "wire_inv answers d" using i f by (simp add: dmx_inv_def)
    have "distinct (onWire ?d)" using wi s by (auto simp: wire_inv_def onWire_def)
    moreover have "\<exists>c. t' = of_nat c \<and> phases d c = Some Waiting \<and> b' = requests d c" if "(t', b') \<in> set (toSrv d) \<union> set (ms @ ms')" for t' b'
      using wire_req[OF wi, of t' b'] s that by auto
    moreover obtain c where "t = of_nat c" "phases d c = Some Waiting" "b = requests d c" using wire_req[OF wi, of t b] s by auto
    then have "\<exists>c. t' = of_nat c \<and> phases d c = Some Waiting \<and> answers (requests d c) r'" if "(t', r') \<in> set (toClnt d @ [(t, r, ok)])" for t' r'
      using wire_rep[OF wi, of t' r'] a that by auto
    ultimately show ?thesis by (simp add: wire_inv_def)
  qed
  then show ?thesis using inv_wire[OF i, where x = "toSrv d" and y = "ms @ ms'" and z = "toClnt d @ [(t, r, ok)]"] by simp
qed

text \<open>A reply to a call in the table that waits.\<close>

lemma inv_replyTo:
  assumes i: "calls_inv d" "table_inv d" "answered answers d" "\<not> fatal d" and c: "phases d c = Some Waiting"
    and r: "\<not> repErr r \<Longrightarrow> answers (requests d c) (rep r, repOk r)"
  shows "calls_inv (replyTo (of_nat c) r d) \<and> table_inv (replyTo (of_nat c) r d) \<and> answered answers (replyTo (of_nat c) r d) \<and> \<not> fatal (replyTo (of_nat c) r d)
    \<and> replyTo (of_nat c) r d = d\<lparr>callmap := (callmap d)\<lparr>calls := gm_del (of_nat c) (calls (callmap d))\<rparr>, phases := (phases d)(c \<mapsto> Returned r)\<rparr>"
proof -
  have m: "map_of (calls (callmap d)) (of_nat c) = Some c" using i(2) c by (simp add: table_inv_def in_table_def)
  let ?d = "replyTo (of_nat c) r d"
  have d: "?d = d\<lparr>callmap := (callmap d)\<lparr>calls := gm_del (of_nat c) (calls (callmap d))\<rparr>, phases := (phases d)(c \<mapsto> Returned r)\<rparr>"
    using m by (simp add: replyTo_def cmRemove_def returns_def)
  have "map_of (calls (callmap ?d)) t = Some c' \<longleftrightarrow> t = of_nat c' \<and> in_table ?d c'" for t c'
  proof (cases "t = of_nat c")
    case True
    then show ?thesis using waiting_tag[OF i(1) c, of c'] by (auto simp: d in_table_def)
  next
    case False
    then have "map_of (calls (callmap ?d)) t = map_of (calls (callmap d)) t" by (simp add: d)
    then show ?thesis using i(2) False by (auto simp: table_inv_def in_table_def d)
  qed
  then have "table_inv ?d" using i(2) by (simp add: table_inv_def d)
  moreover have "calls_inv ?d" using i(1) c by (simp add: calls_inv_def d)
  moreover have "answered answers ?d" using i(3) r by (auto simp: answered_def d)
  moreover have "\<not> fatal ?d" using i(4) by (simp add: d)
  ultimately show ?thesis using d by blast
qed

lemma inv_clnt_read:
  assumes i: "dmx_inv answers d" and f: "failing d = None" and s: "toClnt d = (t, r, ok) # ms"
  shows "dmx_inv answers (replyTo t \<lparr>rep = r, repOk = ok, repErr = False\<rparr> (d\<lparr>toClnt := ms\<rparr>))"
proof -
  let ?r = "\<lparr>rep = r, repOk = ok, repErr = False\<rparr>" let ?e = "d\<lparr>toClnt := ms\<rparr>" let ?d = "replyTo t ?r ?e"
  have wi: "wire_inv answers d" and ci: "calls_inv d" using i f by (simp_all add: dmx_inv_def)
  then obtain c where c: "t = of_nat c" "phases d c = Some Waiting" "answers (requests d c) (r, ok)" using wire_rep[OF wi, of t "(r, ok)"] s by auto
  have "calls_inv ?e" "table_inv ?e" "answered answers ?e" "\<not> fatal ?e" using i by (simp_all add: dmx_inv_def calls_inv_def table_inv_def in_table_def answered_def)
  note I = this
  have "phases ?e c = Some Waiting" "answers (requests ?e c) (rep ?r, repOk ?r)" using c by simp_all
  note J = inv_replyTo[OF I this, folded c(1)]
  have R: "calls_inv ?d" "table_inv ?d" "answered answers ?d" "\<not> fatal ?d"
      "?d = ?e\<lparr>callmap := (callmap ?e)\<lparr>calls := gm_del t (calls (callmap ?e))\<rparr>, phases := (phases ?e)(c \<mapsto> Returned ?r)\<rparr>" using J by blast+
  have "wire_inv answers ?d"
  proof (rule wire_inv_keep[OF wi])
    have dd: "distinct (onWire d)" using wi by (simp add: wire_inv_def)
    then show "distinct (onWire ?d)" by (simp add: R(5) onWire_def s)
    have "t \<notin> set (onWire ?d)" using dd by (auto simp: R(5) onWire_def s)
    show "phases ?d c' = Some Waiting \<and> requests ?d c' = requests d c'" if "phases d c' = Some Waiting" "of_nat c' \<in> set (onWire ?d)" for c'
    proof -
      have "c' \<noteq> c" using that(2) \<open>t \<notin> set (onWire ?d)\<close> c(1) by auto
      then show ?thesis using that(1) by (simp add: R(5))
    qed
  qed (auto simp: R(5) s)
  then show ?thesis using R(1-4) f by (simp add: dmx_inv_def fail_inv_def R(5))
qed

lemma inv_clnt_fail:
  assumes i: "dmx_inv answers d" and f: "failing d = Some (t # ts)" and w: "\<forall>c. map_of (calls (callmap d)) t = Some c \<longrightarrow> phases d c = Some Waiting"
  shows "dmx_inv answers (replyTo t errReply (d\<lparr>failing := Some ts\<rparr>))"
proof -
  let ?e = "d\<lparr>failing := Some ts\<rparr>" let ?d = "replyTo t errReply ?e"
  have fi: "cmClosed (callmap d)" "distinct (t # ts)" "set (t # ts) = fst ` set (calls (callmap d))" using i f by (simp_all add: dmx_inv_def fail_inv_def)
  then have "t \<in> fst ` set (calls (callmap d))" by auto
  then obtain c where m: "map_of (calls (callmap d)) t = Some c" by (metis map_of_eq_None_iff not_None_eq)
  then have c: "t = of_nat c" "phases d c = Some Waiting" using i w by (auto simp: dmx_inv_def table_inv_def)
  have "calls_inv ?e" "table_inv ?e" "answered answers ?e" "\<not> fatal ?e" using i by (simp_all add: dmx_inv_def calls_inv_def table_inv_def in_table_def answered_def)
  note I = this
  have e: "phases ?e c = Some Waiting" "repErr errReply" using c by (simp_all add: errReply_def)
  note J = inv_replyTo[OF I e(1), of errReply, folded c(1)]
  have R: "calls_inv ?d" "table_inv ?d" "answered answers ?d" "\<not> fatal ?d"
      "?d = ?e\<lparr>callmap := (callmap ?e)\<lparr>calls := gm_del t (calls (callmap ?e))\<rparr>, phases := (phases ?e)(c \<mapsto> Returned errReply)\<rparr>" using J e(2) by blast+
  have "fst ` set (gm_del t (calls (callmap d))) = fst ` set (calls (callmap d)) - {t}"
    unfolding list.set_map[symmetric] gm_del_def delete_keys by (simp only: set_removeAll)
  then have "fst ` set (gm_del t (calls (callmap d))) = set ts" using fi(2,3) by auto
  then have "fail_inv ?d" using fi by (simp add: fail_inv_def R(5))
  then show ?thesis using R(1-4) by (simp add: dmx_inv_def R(5))
qed

lemma inv_close: "dmx_inv answers d \<Longrightarrow> dmx_inv answers (d\<lparr>callmap := cmClose (callmap d)\<rparr>)"
  by (simp add: dmx_inv_def calls_inv_def table_inv_def in_table_def wire_inv_def onWire_def fail_inv_def answered_def cmClose_def)

lemma inv_clnt_err:
  "dmx_inv answers d \<Longrightarrow> dmx_inv answers (d\<lparr>callmap := cmClose (callmap d), failing := Some (outstanding (callmap d))\<rparr>)"
  by (simp add: dmx_inv_def calls_inv_def table_inv_def in_table_def fail_inv_def answered_def cmClose_def outstanding_def)

lemma dmx_inv_step: "dmx_step answers d d' \<Longrightarrow> dmx_inv answers d \<Longrightarrow> ncalls d' < 2 ^ 32 \<Longrightarrow> dmx_inv answers d'"
proof (induction rule: dmx_step.induct)
  case (call dmx b)
  then show ?case using inv_call[of answers dmx b] by (simp add: drawTag_def)
next
  case (srv_read dmx m ms)
  then show ?case using inv_move[of answers dmx ms "serving dmx @ [m]"] by (auto simp: onWire_def)
next
  case (srv_lost dmx ms m ms')
  then show ?case using inv_move[of answers dmx "toSrv dmx" "ms @ ms'"] by (auto simp: onWire_def)
qed (simp_all add: inv_enter inv_send inv_srv_reply inv_clnt_read inv_clnt_fail inv_close inv_clnt_err)

lemma dmx_reach_inv: "dmx_reach answers d \<Longrightarrow> dmx_inv answers d"
  by (induction rule: dmx_reach.induct) (simp_all add: dmx_inv_init dmx_inv_step)

text \<open>
  C20: In every interleaving with fewer than \<open>2 ^ 32\<close> calls on a connection, a call that returns without an error returns an
  answer of the server to its own request, whatever the order of the answers, and the reader never finds a reply that matches no call, which
  would end the process.
\<close>

theorem demux_matches:
  assumes "dmx_reach answers d"
  shows "\<not> fatal d \<and> (\<forall>c r. phases d c = Some (Returned r) \<and> \<not> repErr r \<longrightarrow> answers (requests d c) (rep r, repOk r))"
  using dmx_reach_inv[OF assms] by (simp add: dmx_inv_def answered_def)

text \<open>A server that echoes, and a run with one call.\<close>

definition echo :: "bytes \<Rightarrow> bytes \<times> bool \<Rightarrow> bool" where
  "echo b r \<longleftrightarrow> r = (b, True)"

lemma one_call_run: "\<exists>d. dmx_reach echo d \<and> phases d 1 = Some (Returned \<lparr>rep = [5], repOk = True, repErr = False\<rparr>)"
proof -
  let ?d1 = "drawTag [5] NewDemuxClnt" let ?d2 = "enterCall 1 ?d1" let ?d3 = "writeReq True 1 ?d2"
  let ?d4 = "?d3\<lparr>toSrv := [], serving := [(1, [5])]\<rparr>" let ?d5 = "?d4\<lparr>serving := [] @ [], toClnt := toClnt ?d4 @ [(1, [5], True)]\<rparr>"
  let ?d6 = "replyTo 1 \<lparr>rep = [5], repOk = True, repErr = False\<rparr> (?d5\<lparr>toClnt := []\<rparr>)"
  note defs = drawTag_def NewDemuxClnt_def enterCall_def cmPut_def newCallMap_def writeReq_def replyTo_def cmRemove_def returns_def gm_put_def gm_del_def
  have "dmx_reach echo ?d1" by (rule dmx_reach.step[OF dmx_reach.init dmx_step.call]) (simp add: defs)
  then have "dmx_reach echo ?d2" by (rule dmx_reach.step[OF _ dmx_step.enter]) (simp_all add: defs)
  then have "dmx_reach echo ?d3" by (rule dmx_reach.step[OF _ dmx_step.send]) (simp_all add: defs)
  moreover have "dmx_step echo ?d3 ?d4" using dmx_step.srv_read[of ?d3 "(1, [5])" "[]" echo] by (simp add: defs)
  ultimately have "dmx_reach echo ?d4" by (rule dmx_reach.step) (simp add: defs)
  moreover have "dmx_step echo ?d4 ?d5" by (rule dmx_step.srv_reply[where b = "[5]"]) (simp_all add: echo_def)
  ultimately have "dmx_reach echo ?d5" by (rule dmx_reach.step) (simp add: defs)
  moreover have "dmx_step echo ?d5 ?d6" by (rule dmx_step.clnt_read) (simp_all add: defs)
  ultimately have "dmx_reach echo ?d6" by (rule dmx_reach.step) (simp add: defs)
  moreover have "phases ?d6 1 = Some (Returned \<lparr>rep = [5], repOk = True, repErr = False\<rparr>)" by (simp add: defs)
  ultimately show ?thesis by blast
qed

theorem demux_matches_witness:
  "\<exists>d. dmx_reach echo d \<and> phases d 1 = Some (Returned \<lparr>rep = [5], repOk = True, repErr = False\<rparr>) \<and> requests d 1 = [5] \<and> \<not> fatal d"
proof -
  obtain d where d: "dmx_reach echo d" "phases d 1 = Some (Returned \<lparr>rep = [5], repOk = True, repErr = False\<rparr>)" using one_call_run by blast
  then show ?thesis using demux_matches[OF d(1)] by (force simp: echo_def)
qed

text \<open>
  When the connection has failed and the reader has failed all the calls it found outstanding, no call is left that waits for a reply or
  will ever wait for one: every call has returned, or it has not entered the table and will be refused.
\<close>

theorem failed_connection_leaves_no_call:
  assumes "dmx_reach answers d" "failing d = Some []"
  shows "(\<forall>c. phases d c \<noteq> Some Waiting \<and> phases d c \<noteq> Some Entered)
    \<and> (\<forall>c. phases d c = Some Tagged \<longrightarrow> phases (enterCall c d) c = Some (Returned errReply))"
proof -
  have i: "table_inv d" "fail_inv d" using dmx_reach_inv[OF assms(1)] by (simp_all add: dmx_inv_def)
  then have "calls (callmap d) = []" "cmClosed (callmap d)" using assms(2) by (simp_all add: fail_inv_def)
  then show ?thesis using i(1) by (auto simp: table_inv_def in_table_def enterCall_def cmPut_def returns_def)
qed

theorem failed_connection_leaves_no_call_witness:
  "\<exists>d. dmx_reach echo d \<and> failing d = Some [] \<and> (\<forall>c. phases d c \<noteq> Some Waiting)"
proof -
  let ?d = "NewDemuxClnt\<lparr>callmap := cmClose (callmap NewDemuxClnt), failing := Some (outstanding (callmap NewDemuxClnt))\<rparr>"
  have "dmx_reach echo ?d" by (rule dmx_reach.step[OF dmx_reach.init dmx_step.clnt_err]) (simp_all add: NewDemuxClnt_def)
  moreover have "failing ?d = Some []" by (simp add: NewDemuxClnt_def newCallMap_def outstanding_def)
  ultimately show ?thesis using failed_connection_leaves_no_call[of echo ?d] by blast
qed

end
