(* ===== verification/Labgob.thy ===== *)
theory Labgob
  imports Prelude
begin

text \<open>
  The checks of \<^verbatim>\<open>labgob/labgob.go\<close> around Go's encoder: \<open>checkType\<close> walks over the types that a value can contain and counts the fields
  that are not capitalized, \<open>checkDefault\<close> warns about values that are decoded into variables with other values than the zero value. What reflection
  tells of a type is an argument: types are nodes of a graph, which has cycles for recursive types. The encoder itself is not
  modelled. Names are ASCII.
\<close>

subsection \<open>Types\<close>

text \<open>The kinds that \<open>checkType\<close> distinguishes, with the types that it visits next; \<open>'t\<close> is \<^verbatim>\<open>reflect.Type\<close>.\<close>

datatype 't kind =
    Struct "(string \<times> 't) list"
  | ElemKind 't
  | MapKind 't 't
  | OtherKind

record 't gobState =
  checked :: "'t list"
  errorCount :: nat

definition IsUpper :: "string \<Rightarrow> bool" where
  "IsUpper name = (case name of [] \<Rightarrow> False | c # _ \<Rightarrow> CHR ''A'' \<le> c \<and> c \<le> CHR ''Z'')"

definition isChecked :: "'t \<Rightarrow> 't gobState \<Rightarrow> bool" where
  "isChecked t st = (t \<in> set (checked st))"

definition mark :: "'t \<Rightarrow> 't gobState \<Rightarrow> 't gobState" where
  "mark t st = st\<lparr>checked := t # checked st\<rparr>"

definition countError :: "'t gobState \<Rightarrow> 't gobState" where
  "countError st = st\<lparr>errorCount := errorCount st + 1\<rparr>"

text \<open>
  \<open>checkType\<close> and its loop over the fields of a struct. The recursion is bounded by fuel: \<open>None\<close> when it does not suffice.
\<close>

fun checkType :: "('t \<Rightarrow> 't kind) \<Rightarrow> nat \<Rightarrow> 't \<Rightarrow> 't gobState \<Rightarrow> 't gobState option"
and checkFields :: "('t \<Rightarrow> 't kind) \<Rightarrow> nat \<Rightarrow> (string \<times> 't) list \<Rightarrow> 't gobState \<Rightarrow> 't gobState option" where
  "checkType K 0 t st = None"
| "checkType K (Suc fuel) t st =
     (if isChecked t st then Some st
      else let st = mark t st
           in case K t of
                Struct fs \<Rightarrow> checkFields K fuel fs st
              | ElemKind e \<Rightarrow> checkType K fuel e st
              | MapKind e k \<Rightarrow> (case checkType K fuel e st of None \<Rightarrow> None | Some st \<Rightarrow> checkType K fuel k st)
              | OtherKind \<Rightarrow> Some st)"
| "checkFields K fuel [] st = Some st"
| "checkFields K fuel ((name, t) # fs) st =
     (let st = (if IsUpper name = False then countError st else st)
      in case checkType K fuel t st of None \<Rightarrow> None | Some st \<Rightarrow> checkFields K fuel fs st)"

text \<open>
  \<open>checkDefault1\<close> on a value: a struct with its fields, a pointer, a value of one of the basic kinds with the name of its type and whether it is
  the zero value, or a value of another kind. The result is the number of errors and the fields that are printed.
\<close>

datatype gval =
    StructVal "(string \<times> gval) list"
  | PtrVal "gval option"
  | BasicVal string bool
  | OtherVal

fun checkDefault1 :: "gval \<Rightarrow> nat \<Rightarrow> string \<Rightarrow> nat \<times> string list \<Rightarrow> nat \<times> string list"
and checkDefaultFields :: "(string \<times> gval) list \<Rightarrow> nat \<Rightarrow> string \<Rightarrow> nat \<times> string list \<Rightarrow> nat \<times> string list" where
  "checkDefault1 v depth name st =
     (if depth > 3 then st
      else case v of
             StructVal fs \<Rightarrow> checkDefaultFields fs depth name st
           | PtrVal None \<Rightarrow> st
           | PtrVal (Some e) \<Rightarrow> checkDefault1 e (depth + 1) name st
           | BasicVal ty zero \<Rightarrow>
               (if \<not> zero
                then let warns = (if fst st < 1 then snd st @ [if name = '''' then ty else name] else snd st) in (fst st + 1, warns)
                else st)
           | OtherVal \<Rightarrow> st)"
| "checkDefaultFields [] depth name st = st"
| "checkDefaultFields ((n, v) # fs) depth name st =
     checkDefaultFields fs depth name (checkDefault1 v (depth + 1) (if name \<noteq> '''' then name @ ''.'' @ n else n) st)"

definition checkDefault :: "gval option \<Rightarrow> nat \<times> string list \<Rightarrow> nat \<times> string list" where
  "checkDefault v st = (case v of None \<Rightarrow> st | Some v \<Rightarrow> checkDefault1 v 1 '''' st)"

subsection \<open>The walk over the types\<close>

definition succs :: "('t \<Rightarrow> 't kind) \<Rightarrow> 't \<Rightarrow> 't list" where
  "succs K t = (case K t of Struct fs \<Rightarrow> map snd fs | ElemKind e \<Rightarrow> [e] | MapKind e k \<Rightarrow> [e, k] | OtherKind \<Rightarrow> [])"

definition lowerFields :: "('t \<Rightarrow> 't kind) \<Rightarrow> 't \<Rightarrow> nat" where
  "lowerFields K t = (case K t of Struct fs \<Rightarrow> length (filter (\<lambda>f. \<not> IsUpper (fst f)) fs) | _ \<Rightarrow> 0)"

definition reach :: "('t \<Rightarrow> 't kind) \<Rightarrow> 't set \<Rightarrow> 't set" where
  "reach K ts = {(t, u). u \<in> set (succs K t)}\<^sup>* `` ts"

definition newly :: "'t gobState \<Rightarrow> 't gobState \<Rightarrow> 't set" where
  "newly st st' = set (checked st') - set (checked st)"

definition outcome :: "('t \<Rightarrow> 't kind) \<Rightarrow> 't set \<Rightarrow> nat \<Rightarrow> 't gobState \<Rightarrow> 't gobState \<Rightarrow> bool" where
  "outcome K ts n st st' \<longleftrightarrow> set (checked st) \<subseteq> set (checked st') \<and> ts \<subseteq> set (checked st') \<and> newly st st' \<subseteq> reach K ts
     \<and> (\<forall>u \<in> newly st st'. set (succs K u) \<subseteq> set (checked st')) \<and> errorCount st' = errorCount st + n + (\<Sum>u \<in> newly st st'. lowerFields K u)"

lemma reach_self: "ts \<subseteq> reach K ts"
  by (auto simp: reach_def)

lemma reach_mono: "ts \<subseteq> us \<Longrightarrow> reach K ts \<subseteq> reach K us"
  by (auto simp: reach_def)

lemma reach_succs: "reach K (set (succs K t)) \<subseteq> reach K {t}"
  by (auto simp: reach_def intro: converse_rtrancl_into_rtrancl)

lemma outcome_refl: "ts \<subseteq> set (checked st) \<Longrightarrow> outcome K ts 0 st st"
  by (simp add: outcome_def newly_def)

lemma outcome_trans:
  assumes "outcome K ts n st st1" "outcome K us m st1 st2"
  shows "outcome K (ts \<union> us) (n + m) st st2"
proof -
  have s: "newly st st2 = newly st st1 \<union> newly st1 st2" "newly st st1 \<inter> newly st1 st2 = {}"
    using assms by (auto simp: outcome_def newly_def)
  have f: "finite (newly st st1)" "finite (newly st1 st2)" by (simp_all add: newly_def)
  have "newly st st2 \<subseteq> reach K (ts \<union> us)" using assms s(1) reach_mono[of ts "ts \<union> us" K] reach_mono[of us "ts \<union> us" K] by (auto simp: outcome_def)
  moreover have "errorCount st2 = errorCount st + (n + m) + (\<Sum>u \<in> newly st st2. lowerFields K u)"
    unfolding s(1) sum.union_disjoint[OF f s(2)] using assms by (simp add: outcome_def)
  moreover have "set (succs K u) \<subseteq> set (checked st2)" if "u \<in> newly st st2" for u
    using that assms unfolding outcome_def s(1) by (meson UnE subset_trans)
  ultimately show ?thesis using assms unfolding outcome_def by auto
qed

lemma outcome_count: "outcome K ts n (countError st) st' \<Longrightarrow> outcome K ts (Suc n) st st'"
  by (simp add: outcome_def newly_def countError_def)

lemma outcome_mark:
  assumes "\<not> isChecked t st" "outcome K (set (succs K t)) (lowerFields K t) (mark t st) st'"
  shows "outcome K {t} 0 st st'"
proof -
  have s: "newly st st' = insert t (newly (mark t st) st')" "t \<notin> newly (mark t st) st'"
    using assms by (auto simp: outcome_def newly_def mark_def isChecked_def)
  have "finite (newly (mark t st) st')" by (simp add: newly_def)
  then have "(\<Sum>u \<in> newly st st'. lowerFields K u) = lowerFields K t + (\<Sum>u \<in> newly (mark t st) st'. lowerFields K u)" using s by simp
  moreover have "newly st st' \<subseteq> reach K {t}" using assms(2) s(1) reach_succs[of K t] reach_self[of "{t}" K] by (auto simp: outcome_def)
  ultimately show ?thesis using assms(2) s(1) by (auto simp: outcome_def mark_def)
qed

definition todo :: "'t set \<Rightarrow> 't gobState \<Rightarrow> nat" where
  "todo U st = card (U - set (checked st))"

lemma todo_mono: "finite U \<Longrightarrow> outcome K ts n st st' \<Longrightarrow> todo U st' \<le> todo U st"
  unfolding todo_def outcome_def by (auto intro: card_mono)

lemma todo_mark: "finite U \<Longrightarrow> t \<in> U \<Longrightarrow> \<not> isChecked t st \<Longrightarrow> todo U st = Suc (todo U (mark t st))"
proof -
  assume a: "finite U" "t \<in> U" "\<not> isChecked t st"
  then have "U - set (checked st) = insert t (U - set (checked (mark t st)))" by (auto simp: mark_def isChecked_def)
  moreover have "t \<notin> U - set (checked (mark t st))" by (simp add: mark_def)
  ultimately show ?thesis using a(1) by (simp add: todo_def)
qed

lemma checkFields_outcome:
  assumes U: "finite U" and T: "\<And>t st. t \<in> U \<Longrightarrow> todo U st < fuel \<Longrightarrow> \<exists>st'. checkType K fuel t st = Some st' \<and> outcome K {t} 0 st st'"
  shows "snd ` set fs \<subseteq> U \<Longrightarrow> todo U st < fuel \<Longrightarrow>
      \<exists>st'. checkFields K fuel fs st = Some st' \<and> outcome K (snd ` set fs) (length (filter (\<lambda>f. \<not> IsUpper (fst f)) fs)) st st'"
proof (induction fs arbitrary: st)
  case Nil
  then show ?case using outcome_refl[of "{}" st K] by simp
next
  case (Cons f fs)
  obtain name t where f: "f = (name, t)" by (cases f)
  define st0 where "st0 = (if IsUpper name = False then countError st else st)"
  have t0: "todo U st0 < fuel" "t \<in> U" using Cons.prems f by (auto simp: st0_def todo_def countError_def)
  obtain st1 where 1: "checkType K fuel t st0 = Some st1" "outcome K {t} 0 st0 st1" using T[OF t0(2,1)] by blast
  have "todo U st1 < fuel" using todo_mono[OF U 1(2)] t0(1) by simp
  then obtain st2 where 2: "checkFields K fuel fs st1 = Some st2" "outcome K (snd ` set fs) (length (filter (\<lambda>f. \<not> IsUpper (fst f)) fs)) st1 st2"
    using Cons.IH[of st1] Cons.prems(1) by auto
  have "outcome K ({t} \<union> snd ` set fs) (length (filter (\<lambda>f. \<not> IsUpper (fst f)) fs)) st0 st2" using outcome_trans[OF 1(2) 2(2)] by simp
  then have "outcome K (snd ` set (f # fs)) (length (filter (\<lambda>f. \<not> IsUpper (fst f)) (f # fs))) st st2"
    using outcome_count[of K] by (auto simp: st0_def f split: if_splits)
  then show ?case using 1(1) 2(1) by (simp add: f st0_def Let_def)
qed

lemma checkType_outcome:
  assumes U: "finite U" "\<And>u. u \<in> U \<Longrightarrow> set (succs K u) \<subseteq> U"
  shows "t \<in> U \<Longrightarrow> todo U st < fuel \<Longrightarrow> \<exists>st'. checkType K fuel t st = Some st' \<and> outcome K {t} 0 st st'"
proof (induction fuel arbitrary: t st)
  case (Suc fuel)
  show ?case
  proof (cases "isChecked t st")
    case True
    then show ?thesis using outcome_refl[of "{t}" st K] by (simp add: isChecked_def)
  next
    case False
    let ?st = "mark t st"
    have less: "todo U ?st < fuel" using Suc.prems(2) todo_mark[OF U(1) Suc.prems(1) False] by simp
    have sub: "set (succs K t) \<subseteq> U" using U(2)[OF Suc.prems(1)] .
    have "\<exists>st'. checkType K (Suc fuel) t st = Some st' \<and> outcome K (set (succs K t)) (lowerFields K t) ?st st'"
    proof (cases "K t")
      case (Struct fs)
      then show ?thesis using checkFields_outcome[OF U(1) Suc.IH, of fs ?st] less sub False by (simp add: succs_def lowerFields_def)
    next
      case (ElemKind e)
      then show ?thesis using Suc.IH[of e ?st] less sub False by (simp add: succs_def lowerFields_def)
    next
      case (MapKind e k)
      then obtain st1 where 1: "checkType K fuel e ?st = Some st1" "outcome K {e} 0 ?st st1" using Suc.IH[of e ?st] less sub by (auto simp: succs_def)
      then have "todo U st1 < fuel" using todo_mono[OF U(1) 1(2)] less by simp
      then obtain st2 where 2: "checkType K fuel k st1 = Some st2" "outcome K {k} 0 st1 st2" using Suc.IH[of k st1] sub MapKind by (auto simp: succs_def)
      then show ?thesis using 1 outcome_trans[OF 1(2) 2(2)] False MapKind by (simp add: succs_def lowerFields_def insert_commute)
    next
      case OtherKind
      then show ?thesis using outcome_refl[of "{}" ?st K] False by (simp add: succs_def lowerFields_def)
    qed
    then show ?thesis using outcome_mark[OF False] by blast
  qed
qed simp

lemma closed_reach:
  assumes "\<And>u. u \<in> S \<Longrightarrow> set (succs K u) \<subseteq> S" "ts \<subseteq> S"
  shows "reach K ts \<subseteq> S"
proof
  fix u assume "u \<in> reach K ts"
  then obtain t where "t \<in> ts" "(t, u) \<in> {(t, u). u \<in> set (succs K t)}\<^sup>*" by (auto simp: reach_def)
  from this(2,1) show "u \<in> S" by (induction rule: rtrancl_induct) (use assms in auto)
qed

text \<open>
  C36: \<open>checkType\<close> ends although types can be recursive: when finitely many types can be reached, fuel for each of them and one more suffices. When
  all types that a checked type contains have been checked before, then exactly the types that can be reached are checked afterwards, besides those
  from before, and the fields that are not capitalized of each type that was not checked before are counted, each once.
\<close>

theorem checkType_complete:
  assumes "finite (reach K {t})" "card (reach K {t}) < fuel"
    and "\<And>u. u \<in> set (checked st) \<Longrightarrow> set (succs K u) \<subseteq> set (checked st)"
  shows "\<exists>st'. checkType K fuel t st = Some st' \<and> set (checked st') = set (checked st) \<union> reach K {t}
    \<and> errorCount st' = errorCount st + (\<Sum>u \<in> reach K {t} - set (checked st). lowerFields K u)"
proof -
  let ?U = "reach K {t}"
  have U: "set (succs K u) \<subseteq> ?U" if "u \<in> ?U" for u using that by (auto simp: reach_def intro: rtrancl_into_rtrancl)
  have t: "t \<in> ?U" using reach_self[of "{t}" K] by simp
  have "todo ?U st < fuel" using assms(1,2) card_mono[of ?U "?U - set (checked st)"] by (simp add: todo_def)
  then obtain st' where st': "checkType K fuel t st = Some st'" "outcome K {t} 0 st st'" using checkType_outcome[OF assms(1) U t] by blast
  have c: "set (succs K u) \<subseteq> set (checked st')" if "u \<in> set (checked st')" for u
  proof (cases "u \<in> set (checked st)")
    case True
    then show ?thesis using assms(3) st'(2) by (auto simp: outcome_def)
  next
    case False
    then show ?thesis using st'(2) that by (auto simp: outcome_def newly_def)
  qed
  have "{t} \<subseteq> set (checked st')" using st'(2) by (simp add: outcome_def)
  from closed_reach[OF c this] have "?U \<subseteq> set (checked st')" .
  then have "newly st st' = ?U - set (checked st)" "set (checked st') = set (checked st) \<union> ?U" using st'(2) by (auto simp: outcome_def newly_def)
  then show ?thesis using st' by (simp add: outcome_def)
qed

text \<open>A recursive type: a struct with a capitalized field, a pointer to itself, and a field that is not capitalized.\<close>

definition listKind :: "nat \<Rightarrow> nat kind" where
  "listKind t = (if t = 0 then Struct [(''Value'', 2), (''next'', 1)] else if t = 1 then ElemKind 0 else OtherKind)"

lemma listKind_reach: "reach listKind {0} \<subseteq> {0, 1, 2}"
  by (rule closed_reach) (auto simp: succs_def listKind_def split: if_splits)

theorem checkType_complete_witness:
  "\<exists>st'. checkType listKind 4 0 \<lparr>checked = [], errorCount = 0\<rparr> = Some st' \<and> set (checked st') = reach listKind {0}"
proof -
  have "finite (reach listKind {0})" using finite_subset[OF listKind_reach] by simp
  moreover have "card (reach listKind {0}) < 4" using card_mono[OF _ listKind_reach] by simp
  ultimately show ?thesis using checkType_complete[of listKind 0 4 "\<lparr>checked = [], errorCount = 0\<rparr>"] by auto
qed

end
