(* ===== verification/Spec2Isabelle.thy ===== *)
theory Spec2Isabelle
  imports Cluster PBSRun TestKV Demux Labgob
begin

text \<open>
  \<^bold>\<open>A verification library for the Dynamo-style key-value store\<close>

  \<^bold>\<open>The program.\<close> The repository is a replicated key-value store written in Go after
  Amazon's Dynamo, with an evaluation of its staleness after the PBS paper (probabilistically
  bounded staleness). A clerk (\<^verbatim>\<open>kvsrv/client.go\<close>) sends a request to the coordinator of its
  key, which the consistent-hash ring (\<^verbatim>\<open>kvsrv/chr/ring.go\<close>) determines. The coordinator
  (\<open>CoordGet\<close>, \<open>CoordPut\<close> of \<^verbatim>\<open>kvsrv/server.go\<close>) forwards it to the replicas of the preference
  list and answers after a read or write quorum. A replica keeps the causally maximal versions
  (siblings) of a key; versions carry vector clocks (\<^verbatim>\<open>kvsrv/vclock\<close>, \<^verbatim>\<open>kvsrv/rpc\<close>). Three
  mechanisms bring replicas together: read repair (\<^verbatim>\<open>kvsrv/readrepair.go\<close>), hinted handoff for
  replicas that gossip membership (\<^verbatim>\<open>kvsrv/membership.go\<close>) reports dead
  (\<^verbatim>\<open>kvsrv/hinted_handoff.go\<close>), and anti-entropy over Merkle trees (\<^verbatim>\<open>kvsrv/merkle.go\<close>,
  \<^verbatim>\<open>kvsrv/anti_entropy.go\<close>). The coordinator reports latencies and completed operations to a
  collector (\<^verbatim>\<open>kvsrv_eval/pbsCollector.go\<close>); an observer measures regularity of the history and
  a simulator predicts it (\<^verbatim>\<open>observer.go\<close>, \<^verbatim>\<open>stimulator.go\<close>). All messages go through the
  simulated network \<^verbatim>\<open>labrpc/labrpc.go\<close>.

  \<^bold>\<open>Theories and what they show.\<close>

  \<^item> \<open>Prelude\<close>: integer types, Go maps as association lists, panics as values, list lemmas.
    \<open>GoStd\<close>: CRC-32, SHA-256, hexadecimal and little-endian encodings, instants.
    \<open>GoFloat\<close>: the arithmetic of \<^verbatim>\<open>float64\<close> on rational numbers. \<open>GoFormat\<close>: decimal numbers and
    file paths as the standard library writes them. \<open>Results\<close>: operations that may panic, and the
    locales \<open>keeping_steps\<close> and \<open>safe_steps\<close> of the loops over them.
  \<^item> \<open>VClock\<close> (\<^verbatim>\<open>vclock.go\<close>): every operation; \<open>CompareVC\<close> decides the pointwise order in every
    iteration order of the map and \<open>MergeVC\<close> is the least upper bound. The locale
    \<open>causal_compare\<close> states what a comparison promises; clocks, contexts and objects interpret it.
  \<^item> \<open>VersionSpec\<close>: the abstract specification of a key, the set of maximal versions.
    \<open>Objects\<close> (\<^verbatim>\<open>context.go\<close>, \<^verbatim>\<open>object.go\<close>) refines it: \<open>AddObject\<close> is \<open>add_version\<close> on the
    clocks of the siblings, and guarded additions converge in any order.
  \<^item> \<open>Messages\<close> (\<^verbatim>\<open>rpc.go\<close>, \<^verbatim>\<open>memberInfo.go\<close>): errors, arguments, replies, member status.
  \<^item> \<open>Ring\<close> (\<^verbatim>\<open>ring.go\<close>): locations, construction, preference lists, \<open>AddNode\<close>, \<open>RemoveNode\<close>.
    Locations are in range, sectors are partitioned among the nodes, the preference list is the
    distinct owners in walking order. The locale \<open>preference_lists\<close> states what the coordinator
    uses of it. The search for neighbours need not end: it is a \<^theory_text>\<open>partial_function\<close> whose value
    \<open>None\<close> is divergence, and both its termination and its divergence are theorems.
  \<^item> \<open>Collector\<close>, \<open>Observer\<close>, \<open>Simulator\<close> (\<^verbatim>\<open>kvsrv_eval\<close>): binary insertion keeps the history in
    the order of completion; the observer's loops decide delta- and k-regularity; a simulation
    counts the consistent trials within its iterations and the closed formula is the binomial one.
  \<^item> \<open>MerkleTree\<close>: what a leaf hashes is injective (locale \<open>prefix_code\<close>, interpreted once per
    layer of the encoding), the summary of a tree is a heap, and \<open>findDiffBuckets\<close> ends without
    an index panic and returns exactly the differing buckets that are not empty on the
    answering side.
  \<^item> \<open>ServerState\<close> (\<^verbatim>\<open>server.go\<close>): the state \<open>KVServer\<close>, construction, replica handlers, installing
    and merging objects. The locale \<open>advancing_store\<close> is the contract of a store: steps keep the
    invariant and never lose a version that is not covered by another. One server and a whole
    cluster interpret it.
  \<^item> \<open>Membership\<close>: heartbeats, merging of member tables (locale \<open>join_table\<close>: the merge of gossip
    is a join), failure detection. \<open>HintedHandoff\<close>: hints are replayed in order and exactly the
    acknowledged ones are dropped. \<open>AntiEntropy\<close>: after \<open>Reconcile\<close> both sides hold the same
    versions of the keys in the differing buckets. \<open>ReadRepair\<close>: jobs are coalesced per key and
    replicas with stale siblings are found.
  \<^item> \<open>Coordinator\<close>: the verdict of \<open>CoordGet\<close> and \<open>CoordPut\<close> for every sequence of arriving
    results, and the choice of targets and handoff servers of a put.
  \<^item> \<open>Cluster\<close>: intersecting quorums, convergence by read repair, and a lost update.
  \<^item> \<open>Client\<close>: retries of the clerk. \<open>LabRpc\<close>: the connection table, loss, delay and dispatch.
  \<^item> \<open>PBSFailures\<close> (\<^verbatim>\<open>pbs_demo.go\<close>): the options of an experiment, the number and the victims of
    its failures, and the loop that isolates victims and brings them back. The locale
    \<open>link_isolation\<close> is the contract of the link table; the loop leaves every link up and, without
    overlap, exactly the links of the victim are down while it sleeps.
  \<^item> \<open>Plots\<close> (\<^verbatim>\<open>plot.go\<close>): the sample points of the sweeps, the ranges of the axes, crossings of a
    threshold, tables, and the order of the saves. A comparison does not panic, its tables hold
    the observed fractions and its axes contain the observed curves.
  \<^item> \<open>PBSDemo\<close> (\<^verbatim>\<open>pbs_demo.go\<close>): checks of the options, the cluster, the choice of coordinators,
    the rounds of readers and writers and their counters, the loop over the scenarios, and the
    table of counters. Accepted options give a cluster in which every operation is defined.
    \<open>PBSRun\<close>: the loops of the workers as a step relation (the counters account for every
    read in each reachable state, and the workers stop), and the whole experiment.
  \<^item> \<open>TestGroups\<close> (\<^verbatim>\<open>tester/group.go\<close>, \<^verbatim>\<open>srv.go\<close>, \<^verbatim>\<open>clnts.go\<close>, \<^verbatim>\<open>persister.go\<close>): groups of servers on the
    simulated network. Connecting and disconnecting refine operations on a matrix of links; from
    this follow the meaning of \<open>connected\<close>, that a started group is connected, and what a partition
    leaves. \<open>TestKV\<close> (\<^verbatim>\<open>internal/testkv\<close>, \<^verbatim>\<open>config.go\<close>, \<^verbatim>\<open>kvmodel.go\<close>): the helpers of the tests and
    which results they accept.
  \<^item> \<open>Annotations\<close> (\<^verbatim>\<open>tester/annotation.go\<close>): the time line of a test; continuing annotations have no
    gaps and the failure annotation tracks the injected faults.
  \<^item> \<open>Demux\<close> (\<^verbatim>\<open>tester/demux\<close>): frames can be read back; calls that share a connection get the
    answers to their own requests in every interleaving, and none waits after a failure.
  \<^item> \<open>Labgob\<close> (\<^verbatim>\<open>labgob.go\<close>): the walk over the graph of types ends and is complete.

  \<^bold>\<open>How effects are modelled.\<close> A handler is a function on the state record; a mutex makes it
  atomic, and code that releases the mutex in between is split into its critical sections. A
  remote call is a function argument, or a function on the state of the remote side, with
  \<open>None\<close> for a lost message. What reaches a channel is the list of results in the order of
  arrival; statements hold for every such list. Clock readings and random draws are arguments.
  Index panics, divisions by zero and \<^verbatim>\<open>log.Fatalf\<close> are values of a sum type. Counters are
  64-bit words, so they wrap as in Go; durations are integers that are wrapped where the source
  adds samples. Only the neighbour search, the count of failure phases and the retried put of the
  tests use an optional result for divergence; every other loop is a total function. Fuel is used
  in one place, the walk of \<open>checkType\<close> over a graph of types that may be cyclic: one more than the
  number of types that can be reached is enough, which is part of its theorem.

  \<^bold>\<open>Assumptions.\<close> Theorems on Merkle trees assume that SHA-256 does not collide on the
  inputs at hand, as an explicit hypothesis that mentions just these inputs. The round trip of
  frames assumes that the encoding of the messages at hand can be decoded. The matching of calls
  assumes fewer than \<open>2 ^ 32\<close> calls on a connection, since tags are 32-bit numbers that wrap.

  \<^bold>\<open>Findings.\<close> Some theorems describe behaviour that is probably not intended: a put between
  the two critical sections of \<open>mergeObjectsCore\<close> is lost; \<open>ReplicaPut\<close> does not mark its
  sector dirty; a hint that the target refuses is replayed for ever; the Pareto exponent of the
  long-tail delay is the integer quotient 0; \<open>GetNeighbors\<close> does not end when there are too few
  owners; \<open>RemoveNode\<close> of an unknown node decrements the server count; with overlapping
  failures, bringing the first victim up also enables its links with the second one; the table
  of counters omits scenarios that are not among the default ones; \<open>MakePartition\<close> puts server 0 on
  both sides for an even number of servers; \<open>ConnectTo\<close> of a client leaves ends to other servers
  enabled; ending an annotation that does not go on adds an empty one; the begin of a check is
  not reset.

  \<^bold>\<open>Not modelled.\<close> Goroutines, tickers and timers themselves (their bodies are functions);
  \<open>StartKVServer\<close>, which starts them; parent pointers of Merkle nodes; rounding of \<^verbatim>\<open>float64\<close>;
  \<^verbatim>\<open>encoding/gob\<close>, which \<^verbatim>\<open>labgob\<close> wraps; the plotting library; of the test framework the daemon
  processes and sockets (\<^verbatim>\<open>daemonclnt.go\<close>, \<^verbatim>\<open>daemonsrv.go\<close>, \<^verbatim>\<open>sockrpc\<close>), signals, and the helpers that
  encode values as JSON; the command-line programs; of \<^verbatim>\<open>pbs_demo.go\<close> the start of the workers,
  printing, and the files it writes.
\<close>

end
